(* ===== verification/Kumo_Prelude.thy ===== *)
theory Kumo_Prelude
  imports Main "HOL-Library.Word" "HOL-Library.Multiset"
begin

unbundle bit_operations_syntax

text \<open>
  The prelude of the development: the machine integers the kernel uses, the checked and
  saturating arithmetic of the Rust standard library, bit masks, the little list
  operations of \<open>Vec\<close> that are not in the HOL library, and the shared automation.

  Fallible code returns \<open>'e + 'a\<close> with \<open>Inl\<close> for the error; an operation that
  also changes its \<open>self\<close> returns the result paired with the new state, so that the
  state after an error is part of the model.
\<close>

section \<open>Machine integers\<close>

type_synonym u8 = "8 word"
type_synonym u16 = "16 word"
type_synonym u32 = "32 word"
type_synonym u64 = "64 word"

text \<open>
  \<open>unat_simps\<close> collects the facts that restate word arithmetic over \<^typ>\<open>nat\<close>, where
  linear arithmetic decides it.
\<close>

named_theorems unat_simps
named_theorems bit_facts

definition checked_add :: "'a::len word \<Rightarrow> 'a word \<Rightarrow> 'a word option" where
  "checked_add a b = (if unat a + unat b < 2 ^ LENGTH('a) then Some (a + b) else None)"

definition checked_sub :: "'a::len word \<Rightarrow> 'a word \<Rightarrow> 'a word option" where
  "checked_sub a b = (if unat b \<le> unat a then Some (a - b) else None)"

definition checked_mul :: "'a::len word \<Rightarrow> 'a word \<Rightarrow> 'a word option" where
  "checked_mul a b = (if unat a * unat b < 2 ^ LENGTH('a) then Some (a * b) else None)"

definition saturating_add :: "'a::len word \<Rightarrow> 'a word \<Rightarrow> 'a word" where
  "saturating_add a b = (if unat a + unat b < 2 ^ LENGTH('a) then a + b else - 1)"

definition saturating_sub :: "'a::len word \<Rightarrow> 'a word \<Rightarrow> 'a word" where
  "saturating_sub a b = (if unat b \<le> unat a then a - b else 0)"

definition saturating_mul :: "'a::len word \<Rightarrow> 'a word \<Rightarrow> 'a word" where
  "saturating_mul a b = (if unat a * unat b < 2 ^ LENGTH('a) then a * b else - 1)"

lemma unat_max_word: "unat (- 1 :: 'a::len word) = 2 ^ LENGTH('a) - 1"
  by (simp add: unsigned_minus_1_eq_mask mask_eq_exp_minus_1)

lemma unat_lt_pow: "unat (a :: 'a::len word) < 2 ^ LENGTH('a)"
  by simp

lemma checked_add_Some_iff [unat_simps]:
  "checked_add a b = Some c \<longleftrightarrow> unat c = unat (a :: 'a::len word) + unat b"
proof
  assume "checked_add a b = Some c"
  then show "unat c = unat a + unat b"
    by (auto simp: checked_add_def unat_word_ariths split: if_splits)
next
  assume c: "unat c = unat a + unat b"
  then have "unat a + unat b < 2 ^ LENGTH('a)" by (metis unat_lt_pow)
  moreover from this c have "c = a + b"
    by (metis unat_add_lem word_unat_eq_iff)
  ultimately show "checked_add a b = Some c" by (simp add: checked_add_def)
qed

lemma checked_add_None_iff [unat_simps]:
  "checked_add a b = None \<longleftrightarrow> 2 ^ LENGTH('a) \<le> unat (a :: 'a::len word) + unat b"
  by (auto simp: checked_add_def)

lemma checked_mul_Some_iff [unat_simps]:
  "checked_mul a b = Some c \<longleftrightarrow> unat c = unat (a :: 'a::len word) * unat b"
proof
  assume "checked_mul a b = Some c"
  then show "unat c = unat a * unat b"
    by (auto simp: checked_mul_def unat_word_ariths split: if_splits)
next
  assume c: "unat c = unat a * unat b"
  then have "unat a * unat b < 2 ^ LENGTH('a)" by (metis unat_lt_pow)
  moreover from this c have "c = a * b"
    by (metis unat_mult_lem word_unat_eq_iff)
  ultimately show "checked_mul a b = Some c" by (simp add: checked_mul_def)
qed

lemma unat_saturating_add [unat_simps]:
  "unat (saturating_add a b) = min (unat a + unat b) (2 ^ LENGTH('a) - 1)"
  for a b :: "'a::len word"
proof (cases "unat a + unat b < 2 ^ LENGTH('a)")
  case True
  then have "unat (a + b) = unat a + unat b" by (simp add: unat_word_ariths)
  with True show ?thesis by (simp add: saturating_add_def)
next
  case False
  then show ?thesis unfolding saturating_add_def by (simp only: if_False unat_max_word)
qed

lemma unat_saturating_sub [unat_simps]:
  "unat (saturating_sub a b) = unat a - unat b"
  by (auto simp: saturating_sub_def unat_sub word_le_nat_alt)

lemmas word_order_nat [unat_simps] = word_le_nat_alt word_less_nat_alt

lemma unat_eqI: "unat a = unat b \<Longrightarrow> a = b"
  by (simp add: word_unat_eq_iff)

lemma unat_u64_bound: "unat (a :: u64) < 18446744073709551616"
  using unat_lt_pow [of a] by simp

lemma unat_u32_bound: "unat (a :: u32) < 4294967296"
  using unat_lt_pow [of a] by simp

lemma unat_u8_bound: "unat (a :: u8) < 256"
  using unat_lt_pow [of a] by simp

section \<open>Bit masks\<close>

text \<open>
  The \<open>contains\<close> test of the ABI's flag sets (rights, signals, page flags): every bit
  of the needed mask is set.
\<close>

definition mask_contains :: "'a::len word \<Rightarrow> 'a word \<Rightarrow> bool" where
  "mask_contains s needed \<longleftrightarrow> s AND needed = needed"

lemma mask_contains_iff_bits [bit_facts]:
  "mask_contains s needed \<longleftrightarrow> (\<forall>n < LENGTH('a). bit needed n \<longrightarrow> bit s n)"
  for s needed :: "'a::len word"
  unfolding mask_contains_def by (auto simp: bit_eq_iff bit_simps)

lemma mask_contains_refl [simp, intro]: "mask_contains s s"
  by (simp add: mask_contains_def)

lemma mask_contains_zero [simp]: "mask_contains s 0"
  by (simp add: mask_contains_def)

lemma mask_contains_trans [trans]:
  "mask_contains a b \<Longrightarrow> mask_contains b c \<Longrightarrow> mask_contains a c"
  by (auto simp: mask_contains_iff_bits)

lemma mask_contains_or_iff [simp]:
  "mask_contains s (a OR b) \<longleftrightarrow> mask_contains s a \<and> mask_contains s b"
  by (auto simp: mask_contains_iff_bits bit_simps)

lemma mask_contains_or_left [simp, intro]: "mask_contains (a OR b) a"
  by (simp add: mask_contains_iff_bits bit_simps)

lemma mask_contains_or_right [simp, intro]: "mask_contains (a OR b) b"
  by (simp add: mask_contains_iff_bits bit_simps)

lemma bit_set_mask [bit_facts]:
  "b < LENGTH('a) \<Longrightarrow> bit (w OR push_bit b 1) n \<longleftrightarrow> bit w n \<or> n = b"
  for w :: "'a::len word"
  by (auto simp: bit_simps)

lemma bit_clear_mask [bit_facts]:
  "bit (w AND NOT (push_bit b 1)) n \<longleftrightarrow> bit w n \<and> n \<noteq> b"
  for w :: "'a::len word"
  using bit_imp_le_length [of w n] by (auto simp: bit_simps)

lemmas bit_set_exp = bit_set_mask [unfolded push_bit_of_1]
lemmas bit_clear_exp = bit_clear_mask [unfolded push_bit_of_1]

text \<open>Clearing the low bits rounds down to a multiple of a power of two.\<close>

lemma unat_and_not_mask:
  "unat (v AND NOT (mask k)) = unat v - unat v mod 2 ^ k" for v :: "'a::len word"
proof -
  have "unat (take_bit k v) = take_bit k (unat v)" by (rule unsigned_take_bit_eq)
  then have low: "unat (v AND mask k) = unat v mod 2 ^ k"
    by (simp only: take_bit_eq_mask [symmetric] take_bit_eq_mod)
  have "(v AND NOT (mask k)) + (v AND mask k) = (v AND NOT (mask k)) OR (v AND mask k)"
    by (rule disjunctive_add_eq_or) (rule bit_word_eqI, simp add: bit_simps)
  also have "\<dots> = v" by (rule bit_word_eqI) (auto simp: bit_simps)
  finally have eq: "v AND NOT (mask k) = v - (v AND mask k)" by (simp add: eq_diff_eq)
  have "v AND mask k \<le> v" unfolding word_le_nat_alt low by simp
  then show ?thesis by (simp add: eq unat_sub low)
qed

lemma round_up_least:
  fixes n m A :: nat
  assumes "n \<le> m" and "m mod A = 0" and "0 < A"
  shows "(n + (A - 1)) - (n + (A - 1)) mod A \<le> m"
proof -
  from assms(2) obtain q where m: "m = q * A" by (metis add_0_right div_mult_mod_eq)
  have "n + (A - 1) < Suc q * A" using assms(1,3) unfolding m by simp
  then have "(n + (A - 1)) div A < Suc q" using assms(3) by (simp only: div_less_iff_less_mult)
  then have "(n + (A - 1)) div A * A \<le> q * A" by (simp only: less_Suc_eq_le mult_le_mono1)
  then show ?thesis unfolding m by (simp add: minus_mod_eq_div_mult)
qed

lemma round_up_ge:
  fixes n A :: nat
  assumes "0 < A"
  shows "n \<le> (n + (A - 1)) - (n + (A - 1)) mod A" and "((n + (A - 1)) - (n + (A - 1)) mod A) mod A = 0"
proof -
  have "(n + (A - 1)) mod A < A" using assms by simp
  then show "n \<le> (n + (A - 1)) - (n + (A - 1)) mod A" by linarith
  show "((n + (A - 1)) - (n + (A - 1)) mod A) mod A = 0" by (simp add: minus_mod_eq_div_mult)
qed

text \<open>Rust's \<open>trailing_zeros\<close>: the index of the lowest set bit, the width for zero.\<close>

definition trailing_zeros :: "'a::len word \<Rightarrow> nat" where
  "trailing_zeros w = length (takeWhile (\<lambda>n. \<not> bit w n) [0..<LENGTH('a)])"

lemma length_takeWhile_lt:
  "x \<in> set xs \<Longrightarrow> \<not> P x \<Longrightarrow> length (takeWhile P xs) < length xs"
  by (induction xs) auto

lemma trailing_zeros_bit:
  assumes "(w :: 'a::len word) \<noteq> 0"
  shows "bit w (trailing_zeros w)" and "trailing_zeros w < LENGTH('a)"
    and "n < trailing_zeros w \<Longrightarrow> \<not> bit w n"
proof -
  let ?P = "\<lambda>n. \<not> bit w n"
  from assms obtain k where k: "bit w k" by (auto simp: bit_eq_iff)
  then have "k \<in> set [0..<LENGTH('a)]" using bit_imp_le_length by auto
  with k have "length (takeWhile ?P [0..<LENGTH('a)]) < length [0..<LENGTH('a)]"
    by (intro length_takeWhile_lt) auto
  then show lt: "trailing_zeros w < LENGTH('a)"
    by (simp add: trailing_zeros_def)
  have "\<not> ?P ([0..<LENGTH('a)] ! length (takeWhile ?P [0..<LENGTH('a)]))"
    by (rule nth_length_takeWhile) (use lt in \<open>simp add: trailing_zeros_def\<close>)
  with lt show "bit w (trailing_zeros w)"
    by (simp add: trailing_zeros_def)
  show "n < trailing_zeros w \<Longrightarrow> \<not> bit w n"
  proof -
    assume n: "n < trailing_zeros w"
    then have "takeWhile ?P [0..<LENGTH('a)] ! n \<in> set (takeWhile ?P [0..<LENGTH('a)])"
      by (simp add: trailing_zeros_def)
    then have "?P (takeWhile ?P [0..<LENGTH('a)] ! n)" by (auto dest: set_takeWhileD)
    moreover have "takeWhile ?P [0..<LENGTH('a)] ! n = n"
      using n lt by (simp add: trailing_zeros_def takeWhile_nth)
    ultimately show ?thesis by simp
  qed
qed

section \<open>Vectors\<close>

text \<open>\<open>Vec::remove\<close>: the list without the element at an index.\<close>

definition remove_nth :: "nat \<Rightarrow> 'a list \<Rightarrow> 'a list" where
  "remove_nth i xs = take i xs @ drop (Suc i) xs"

lemma length_remove_nth: "i < length xs \<Longrightarrow> length (remove_nth i xs) = length xs - 1"
  by (simp add: remove_nth_def)

lemma mset_remove_nth:
  "i < length xs \<Longrightarrow> mset xs = add_mset (xs ! i) (mset (remove_nth i xs))"
  by (metis Cons_nth_drop_Suc append_take_drop_id mset.simps(2) mset_append
      remove_nth_def union_mset_add_mset_right)

lemma set_remove_nth_subset: "set (remove_nth i xs) \<subseteq> set xs"
  by (auto simp: remove_nth_def dest: in_set_takeD in_set_dropD)

lemma sorted_wrt_remove_nth: "sorted_wrt P xs \<Longrightarrow> sorted_wrt P (remove_nth i xs)"
proof -
  assume s: "sorted_wrt P xs"
  have "sorted_wrt P (take i xs @ drop (Suc i) xs)"
    unfolding sorted_wrt_append
  proof (intro conjI ballI)
    show "sorted_wrt P (take i xs)" "sorted_wrt P (drop (Suc i) xs)"
      using s by (simp_all add: sorted_wrt_take sorted_wrt_drop)
    fix x y assume x: "x \<in> set (take i xs)" and y: "y \<in> set (drop (Suc i) xs)"
    then have "y \<in> set (drop i xs)"
      by (metis Suc_n_not_le_n nat_le_linear set_drop_subset_set_drop subsetD)
    with x s show "P x y"
      by (metis append_take_drop_id sorted_wrt_append)
  qed
  then show ?thesis by (simp add: remove_nth_def)
qed

lemma map_remove_nth: "map f (remove_nth i xs) = remove_nth i (map f xs)"
  by (simp add: remove_nth_def take_map drop_map)

text \<open>\<open>Vec::swap_remove\<close>: the last element takes the place of the removed one.\<close>

definition swap_remove :: "nat \<Rightarrow> 'a list \<Rightarrow> 'a list" where
  "swap_remove i xs = butlast (xs[i := last xs])"

lemma mset_swap_remove:
  assumes "i < length xs"
  shows "mset xs = add_mset (xs ! i) (mset (swap_remove i xs))"
proof -
  have ne: "xs \<noteq> []" using assms by auto
  let ?ys = "xs[i := last xs]"
  have ys: "?ys \<noteq> []" using ne by simp
  have last: "last ?ys = last xs"
    using assms ne by (auto simp: last_conv_nth nth_list_update)
  have "mset ?ys = add_mset (last xs) (mset (butlast ?ys))"
    using append_butlast_last_id [OF ys] last by (metis mset.simps(2) mset_append add_mset_add_single mset.simps(1))
  moreover have "mset ?ys = add_mset (last xs) (mset xs - {#xs ! i#})"
    using assms by (simp add: mset_update)
  ultimately have "mset (butlast ?ys) = mset xs - {#xs ! i#}" by simp
  moreover have "xs ! i \<in># mset xs" using assms by simp
  ultimately show ?thesis unfolding swap_remove_def by (metis insert_DiffM)
qed

lemma sorted_wrt_le_last:
  fixes xs :: "'a::linorder list"
  shows "sorted_wrt (<) xs \<Longrightarrow> x \<in> set xs \<Longrightarrow> x \<le> last xs"
proof (induction xs)
  case (Cons y ys)
  then show ?case
    by (cases "ys = []") (auto intro: less_imp_le)
qed simp

lemma option_eqI: "(\<And>y. a = Some y \<longleftrightarrow> b = Some y) \<Longrightarrow> a = b"
  by (cases a; cases b) auto

lemma distinct_if_distinct_map: "distinct (map f xs) \<Longrightarrow> distinct xs"
  by (induction xs) auto

text \<open>\<open>Iterator::position\<close>: the index of the first element satisfying a predicate.\<close>

fun find_index :: "('a \<Rightarrow> bool) \<Rightarrow> 'a list \<Rightarrow> nat option" where
  "find_index P [] = None"
| "find_index P (x # xs) = (if P x then Some 0 else map_option Suc (find_index P xs))"

lemma find_index_Some_iff:
  "find_index P xs = Some i \<longleftrightarrow> i < length xs \<and> P (xs ! i) \<and> (\<forall>j < i. \<not> P (xs ! j))"
  by (induction xs arbitrary: i) (auto simp: less_Suc_eq_0_disj nth_Cons split: nat.splits)

lemma find_index_None_iff: "find_index P xs = None \<longleftrightarrow> (\<forall>x \<in> set xs. \<not> P x)"
  by (induction xs) auto

text \<open>
  \<open>slice::binary_search_by_key(..).ok()\<close>, as the standard library runs it: halve the
  window until one candidate is left, then compare it.
\<close>

function bsearch_base :: "(nat \<Rightarrow> 'k::linorder) \<Rightarrow> 'k \<Rightarrow> nat \<Rightarrow> nat \<Rightarrow> nat" where
  "bsearch_base key k sz base =
     (if 1 < sz
      then bsearch_base key k (sz - sz div 2)
             (if k < key (base + sz div 2) then base else base + sz div 2)
      else base)"
  by pat_completeness auto
termination
  by (relation "measure (\<lambda>(key, k, sz, base). sz)") auto

declare bsearch_base.simps [simp del]

definition binary_search_by_key :: "('a \<Rightarrow> 'k::linorder) \<Rightarrow> 'a list \<Rightarrow> 'k \<Rightarrow> nat option" where
  "binary_search_by_key key xs k =
     (if xs = [] then None
      else let base = bsearch_base (\<lambda>i. key (xs ! i)) k (length xs) 0
           in if key (xs ! base) = k then Some base else None)"

lemma bsearch_base_spec:
  assumes mono: "\<And>i j. i < j \<Longrightarrow> j < n \<Longrightarrow> key i < key j"
  shows "\<lbrakk> 0 < sz; base + sz \<le> n; base \<le> i; i < base + sz; key i = k \<rbrakk>
    \<Longrightarrow> bsearch_base key k sz base = i"
proof (induction sz arbitrary: base rule: less_induct)
  case (less sz)
  show ?case
  proof (cases "1 < sz")
    case False
    with less.prems have "base = i" by linarith
    with False show ?thesis by (subst bsearch_base.simps) simp
  next
    case True
    define m where "m = base + sz div 2"
    have "m < n" using less.prems(2) True by (simp add: m_def)
    have up: "k < key m \<longleftrightarrow> i < m"
    proof (cases i m rule: linorder_cases)
      case less
      with mono [of i m] \<open>m < n\<close> \<open>key i = k\<close> show ?thesis by simp
    next
      case greater
      with mono [of m i] less.prems show ?thesis by (simp add: order_less_imp_not_less)
    qed (use \<open>key i = k\<close> in simp)
    have "bsearch_base key k (sz - sz div 2) (if k < key m then base else m) = i"
    proof (rule less.IH)
      show "(if k < key m then base else m) + (sz - sz div 2) \<le> n"
        using less.prems(2) by (auto simp: m_def)
      show "(if k < key m then base else m) \<le> i" "i < (if k < key m then base else m) + (sz - sz div 2)"
        using up less.prems(3,4) by (auto simp: m_def)
    qed (use True less.prems(5) in simp_all)
    with True show ?thesis unfolding m_def by (subst bsearch_base.simps) simp
  qed
qed

lemma bsearch_base_bound: "0 < sz \<Longrightarrow> bsearch_base key k sz base < base + sz"
proof (induction key k sz base rule: bsearch_base.induct)
  case (1 key k sz base)
  let ?b = "if k < key (base + sz div 2) then base else base + sz div 2"
  show ?case
  proof (cases "1 < sz")
    case True
    then have "bsearch_base key k (sz - sz div 2) ?b < ?b + (sz - sz div 2)"
      by (intro "1.IH") simp_all
    also have "\<dots> \<le> base + sz" by simp
    finally show ?thesis using True by (subst bsearch_base.simps) simp
  next
    case False
    with "1.prems" show ?thesis by (subst bsearch_base.simps) simp
  qed
qed

lemma binary_search_by_key_iff:
  assumes "sorted_wrt (<) (map key xs)"
  shows "binary_search_by_key key xs k = Some i \<longleftrightarrow> i < length xs \<and> key (xs ! i) = k"
proof
  assume "binary_search_by_key key xs k = Some i"
  then show "i < length xs \<and> key (xs ! i) = k"
    using bsearch_base_bound [of "length xs" "\<lambda>i. key (xs ! i)" k 0]
    by (auto simp: binary_search_by_key_def Let_def split: if_splits)
next
  assume i: "i < length xs \<and> key (xs ! i) = k"
  have "bsearch_base (\<lambda>i. key (xs ! i)) k (length xs) 0 = i"
  proof (rule bsearch_base_spec [where n = "length xs"])
    fix i j assume "i < j" "j < length xs"
    with assms show "key (xs ! i) < key (xs ! j)" by (simp add: sorted_wrt_iff_nth_less)
  qed (use i in auto)
  with i show "binary_search_by_key key xs k = Some i"
    by (auto simp: binary_search_by_key_def)
qed

lemma mset_exchange:
  fixes a b c d x y :: "'a multiset"
  assumes "a + b = c + d" and "d + x = b + y"
  shows "a + x = c + y"
proof -
  have "(a + x) + b = (c + d) + x" unfolding assms(1) [symmetric] by (simp add: ac_simps)
  also have "\<dots> = (c + y) + b" unfolding add.assoc assms(2) by (simp add: ac_simps)
  finally show ?thesis by simp
qed

end
