(* ===== verification/Abi_Object.thy ===== *)
theory Abi_Object
  imports Kumo_Prelude
begin

unbundle bit_operations_syntax

text \<open>
  The object vocabulary shared by the kernel and userspace
  (\<open>lib/kumo-abi/src/object.rs\<close>): handles and kernel-object ids, the object kinds, and
  the two flag sets, rights and signals. The newtypes over \<open>u32\<close> and \<open>u64\<close> are the
  words themselves; a right or a signal is a single-bit mask and \<open>contains\<close> is
  \<^const>\<open>mask_contains\<close>.
\<close>

type_synonym handle = u32
type_synonym ko_id = u64
type_synonym rights = u32
type_synonym signals = u32

definition INVALID_HANDLE :: handle where
  "INVALID_HANDLE = 0"

datatype object_kind =
  Job | Process | Thread | Channel | Port | Vmo | Vmar | Event | Timer | Resource
  | Interrupt | IoMmu | DeviceCtx

definition RIGHT_DUPLICATE :: rights where "RIGHT_DUPLICATE = 1"
definition RIGHT_TRANSFER :: rights where "RIGHT_TRANSFER = 2"
definition RIGHT_READ :: rights where "RIGHT_READ = 4"
definition RIGHT_WRITE :: rights where "RIGHT_WRITE = 8"
definition RIGHT_MAP :: rights where "RIGHT_MAP = 16"
definition RIGHT_WAIT :: rights where "RIGHT_WAIT = 32"
definition RIGHT_SIGNAL :: rights where "RIGHT_SIGNAL = 64"
definition RIGHT_EXECUTE :: rights where "RIGHT_EXECUTE = 128"
definition RIGHT_MANAGE :: rights where "RIGHT_MANAGE = 256"

definition RIGHTS_ALL :: rights where
  "RIGHTS_ALL =
     RIGHT_DUPLICATE OR RIGHT_TRANSFER OR RIGHT_READ OR RIGHT_WRITE OR RIGHT_MAP
       OR RIGHT_WAIT OR RIGHT_SIGNAL OR RIGHT_EXECUTE OR RIGHT_MANAGE"

definition rights_contains :: "rights \<Rightarrow> rights \<Rightarrow> bool" where
  "rights_contains self needed = mask_contains self needed"

definition SIGNAL_READABLE :: signals where "SIGNAL_READABLE = 1"
definition SIGNAL_WRITABLE :: signals where "SIGNAL_WRITABLE = 2"
definition SIGNAL_PEER_CLOSED :: signals where "SIGNAL_PEER_CLOSED = 4"
definition SIGNAL_TERMINATED :: signals where "SIGNAL_TERMINATED = 8"
definition SIGNAL_IRQ :: signals where "SIGNAL_IRQ = 16"
definition SIGNAL_TIMER :: signals where "SIGNAL_TIMER = 32"
definition SIGNAL_DEVICE_FAULT :: signals where "SIGNAL_DEVICE_FAULT = 64"

definition signals_contains :: "signals \<Rightarrow> signals \<Rightarrow> bool" where
  "signals_contains self needed = mask_contains self needed"

lemmas right_defs =
  RIGHT_DUPLICATE_def RIGHT_TRANSFER_def RIGHT_READ_def RIGHT_WRITE_def RIGHT_MAP_def
  RIGHT_WAIT_def RIGHT_SIGNAL_def RIGHT_EXECUTE_def RIGHT_MANAGE_def

lemmas signal_defs =
  SIGNAL_READABLE_def SIGNAL_WRITABLE_def SIGNAL_PEER_CLOSED_def SIGNAL_TERMINATED_def
  SIGNAL_IRQ_def SIGNAL_TIMER_def SIGNAL_DEVICE_FAULT_def

lemma rights_contains_refl [simp, intro]: "rights_contains r r"
  by (simp add: rights_contains_def)

lemma rights_contains_trans [trans]:
  "rights_contains a b \<Longrightarrow> rights_contains b c \<Longrightarrow> rights_contains a c"
  unfolding rights_contains_def by (rule mask_contains_trans)

end
