(* ===== verification/Cap_Spec.thy ===== *)
theory Cap_Spec
  imports Kumo_Prelude
begin

text \<open>
  The contract a capability table offers to the code that moves capabilities between
  tables, and the two loops that code is made of. \<open>put_each\<close> is
  \<open>for e in es { installed.push(put(e)?) }\<close> (keeping what was installed when a step
  fails), \<open>drop_each\<close> is \<open>for h in hs { drop(h)?; }\<close>.

  The client lemmas are proved once in the locale: a loop of drops over live distinct
  handles succeeds, and an installation that fails half way is undone exactly by dropping
  what it installed.
\<close>

section \<open>Loops over a table\<close>

fun put_each ::
  "('t \<Rightarrow> 'e \<Rightarrow> ('x + 'h) \<times> 't) \<Rightarrow> 't \<Rightarrow> 'e list \<Rightarrow> 'h list \<Rightarrow> (('x \<times> 'h list) + 'h list) \<times> 't"
where
  "put_each put t [] installed = (Inr installed, t)"
| "put_each put t (e # es) installed =
     (case put t e of
        (Inl x, t') \<Rightarrow> (Inl (x, installed), t')
      | (Inr h, t') \<Rightarrow> put_each put t' es (installed @ [h]))"

fun drop_each :: "('t \<Rightarrow> 'h \<Rightarrow> ('x + 'v) \<times> 't) \<Rightarrow> 't \<Rightarrow> 'h list \<Rightarrow> ('x + unit) \<times> 't"
where
  "drop_each dr t [] = (Inr (), t)"
| "drop_each dr t (h # hs) =
     (case dr t h of
        (Inl x, t') \<Rightarrow> (Inl x, t')
      | (Inr _, t') \<Rightarrow> drop_each dr t' hs)"

section \<open>The contract\<close>

locale capability_table =
  fixes lookup :: "'t \<Rightarrow> 'h \<Rightarrow> 'c option"
    and caps :: "'t \<Rightarrow> 'c multiset"
    and issued :: "'t \<Rightarrow> 'h \<Rightarrow> bool"
    and inv :: "'t \<Rightarrow> bool"
    and cap_of :: "'e \<Rightarrow> 'c"
    and put :: "'t \<Rightarrow> 'e \<Rightarrow> ('x + 'h) \<times> 't"
    and dr :: "'t \<Rightarrow> 'h \<Rightarrow> ('x + 'v) \<times> 't"
  assumes put_error: "put t e = (Inl x, t') \<Longrightarrow> t' = t"
    and put_inv: "inv t \<Longrightarrow> put t e = (Inr h, t') \<Longrightarrow> inv t'"
    and put_lookup: "inv t \<Longrightarrow> put t e = (Inr h, t') \<Longrightarrow> lookup t' = (lookup t)(h \<mapsto> cap_of e)"
    and put_caps: "inv t \<Longrightarrow> put t e = (Inr h, t') \<Longrightarrow> caps t' = add_mset (cap_of e) (caps t)"
    and put_fresh: "inv t \<Longrightarrow> put t e = (Inr h, t') \<Longrightarrow> \<not> issued t h"
    and put_issued: "inv t \<Longrightarrow> put t e = (Inr h, t') \<Longrightarrow> issued t' k \<longleftrightarrow> issued t k \<or> k = h"
    and live_issued: "inv t \<Longrightarrow> lookup t h = Some c \<Longrightarrow> issued t h"
    and drop_dead: "inv t \<Longrightarrow> lookup t h = None \<Longrightarrow> \<exists>x. dr t h = (Inl x, t)"
    and drop_live: "inv t \<Longrightarrow> lookup t h = Some c \<Longrightarrow>
      \<exists>v t'. dr t h = (Inr v, t') \<and> inv t' \<and> lookup t' = (lookup t)(h := None)
        \<and> caps t = add_mset c (caps t') \<and> issued t' = issued t"
begin

lemma put_not_live: "inv t \<Longrightarrow> put t e = (Inr h, t') \<Longrightarrow> lookup t h = None"
  using live_issued put_fresh by (metis not_None_eq)

lemma drop_each_live:
  assumes "inv t" and "distinct hs" and "\<And>h. h \<in> set hs \<Longrightarrow> lookup t h \<noteq> None"
  shows "\<exists>t'. drop_each dr t hs = (Inr (), t') \<and> inv t'
    \<and> lookup t' = (\<lambda>k. if k \<in> set hs then None else lookup t k)
    \<and> caps t = mset (map (\<lambda>h. the (lookup t h)) hs) + caps t' \<and> issued t' = issued t"
  using assms
proof (induction hs arbitrary: t)
  case Nil
  then show ?case by simp
next
  case (Cons h hs)
  then obtain c where c: "lookup t h = Some c" by fastforce
  from drop_live [OF Cons.prems(1) c] obtain v t1 where t1: "dr t h = (Inr v, t1)" "inv t1"
    "lookup t1 = (lookup t)(h := None)" "caps t = add_mset c (caps t1)" "issued t1 = issued t"
    by blast
  have "\<exists>t'. drop_each dr t1 hs = (Inr (), t') \<and> inv t'
    \<and> lookup t' = (\<lambda>k. if k \<in> set hs then None else lookup t1 k)
    \<and> caps t1 = mset (map (\<lambda>h. the (lookup t1 h)) hs) + caps t' \<and> issued t' = issued t1"
    using Cons.prems t1 by (intro Cons.IH) auto
  then obtain t' where t': "drop_each dr t1 hs = (Inr (), t')" "inv t'"
    "lookup t' = (\<lambda>k. if k \<in> set hs then None else lookup t1 k)"
    "caps t1 = mset (map (\<lambda>h. the (lookup t1 h)) hs) + caps t'" "issued t' = issued t1"
    by blast
  have eq: "map (\<lambda>h. the (lookup t1 h)) hs = map (\<lambda>h. the (lookup t h)) hs"
    using Cons.prems(2) t1(3) by auto
  have "lookup t' = (\<lambda>k. if k \<in> set (h # hs) then None else lookup t k)"
    using t'(3) t1(3) by auto
  with t1(1,4,5) t'(1,2,4,5) c show ?case unfolding eq by (intro exI [of _ t']) simp
qed

text \<open>What a run of \<open>put_each\<close> has installed, whether or not it got to the end.\<close>

lemma put_each_installed:
  assumes "inv t" and "put_each put t es acc = (r, t')"
  shows "\<exists>ks n. n \<le> length es \<and> length ks = n \<and> inv t' \<and> distinct ks
    \<and> (\<forall>k \<in> set ks. \<not> issued t k)
    \<and> lookup t' = lookup t ++ map_of (zip ks (map cap_of (take n es)))
    \<and> caps t' = caps t + mset (map cap_of (take n es))
    \<and> (\<forall>k. issued t' k \<longleftrightarrow> issued t k \<or> k \<in> set ks)
    \<and> (case r of Inr hs \<Rightarrow> hs = acc @ ks \<and> n = length es
               | Inl (x, hs) \<Rightarrow> hs = acc @ ks \<and> n < length es)"
  using assms
proof (induction es arbitrary: t acc)
  case Nil
  then show ?case by (intro exI [of _ "[]"] exI [of _ 0]) auto
next
  case (Cons e es)
  show ?case
  proof (cases "put t e")
    case (Pair q t1)
    show ?thesis
    proof (cases q)
      case (Inl x)
      with Pair Cons.prems put_error show ?thesis
        by (intro exI [of _ "[]"] exI [of _ 0]) auto
    next
      case (Inr h)
      note st = Pair [unfolded Inr]
      from st Cons.prems put_inv have "inv t1" and run: "put_each put t1 es (acc @ [h]) = (r, t')"
        by auto
      from Cons.IH [OF this] obtain ks where ks: "length ks \<le> length es" "inv t'"
        "distinct ks" "\<forall>k \<in> set ks. \<not> issued t1 k"
        "lookup t' = lookup t1 ++ map_of (zip ks (map cap_of (take (length ks) es)))"
        "caps t' = caps t1 + mset (map cap_of (take (length ks) es))"
        "\<forall>k. issued t' k \<longleftrightarrow> issued t1 k \<or> k \<in> set ks"
        "case r of Inr hs \<Rightarrow> hs = (acc @ [h]) @ ks \<and> length ks = length es
               | Inl (x, hs) \<Rightarrow> hs = (acc @ [h]) @ ks \<and> length ks < length es"
        by metis
      have is1: "\<And>k. issued t1 k \<longleftrightarrow> issued t k \<or> k = h"
        using put_issued [OF Cons.prems(1) st] .
      then have "h \<notin> set ks" using ks(4) by blast
      then have dm: "h \<notin> dom (map_of (zip ks (map cap_of (take (length ks) es))))"
        using ks(1) by simp
      show ?thesis
      proof (intro exI [of _ "h # ks"] exI [of _ "Suc (length ks)"] conjI)
        show "lookup t' = lookup t ++ map_of (zip (h # ks) (map cap_of (take (Suc (length ks)) (e # es))))"
          using ks(5) put_lookup [OF Cons.prems(1) st] map_add_upd_left [OF dm] by simp
      qed (use ks is1 put_caps [OF Cons.prems(1) st] put_fresh [OF Cons.prems(1) st]
            in \<open>auto split: sum.splits\<close>)
    qed
  qed
qed

lemma put_each_rollback:
  assumes "inv t" and "put_each put t es [] = (Inl (x, installed), t1)"
  shows "\<exists>t2. drop_each dr t1 installed = (Inr (), t2) \<and> inv t2 \<and> lookup t2 = lookup t
    \<and> caps t2 = caps t \<and> (\<forall>k. issued t k \<longrightarrow> issued t2 k)"
proof -
  from put_each_installed [OF assms] obtain ks where ks: "inv t1" "distinct ks"
    "\<forall>k \<in> set ks. \<not> issued t k" "installed = ks" "length ks \<le> length es"
    "lookup t1 = lookup t ++ map_of (zip ks (map cap_of (take (length ks) es)))"
    "caps t1 = caps t + mset (map cap_of (take (length ks) es))"
    "\<forall>k. issued t1 k \<longleftrightarrow> issued t k \<or> k \<in> set ks"
    by auto
  let ?vs = "map cap_of (take (length ks) es)"
  have len: "length ks = length ?vs" using ks(5) by simp
  have live: "lookup t1 k \<noteq> None" if "k \<in> set ks" for k
    using that ks(6) len by (auto simp: map_add_def split: option.splits)
  from drop_each_live [OF ks(1,2) live] obtain t2 where t2:
    "drop_each dr t1 ks = (Inr (), t2)" "inv t2"
    "lookup t2 = (\<lambda>k. if k \<in> set ks then None else lookup t1 k)"
    "caps t1 = mset (map (\<lambda>h. the (lookup t1 h)) ks) + caps t2" "issued t2 = issued t1"
    by blast
  have dead: "lookup t k = None" if "k \<in> set ks" for k
    using that ks(3) live_issued [OF assms(1)] by (cases "lookup t k") auto
  have "lookup t2 k = lookup t k" for k
    using t2(3) ks(6) dead len
    by (auto simp: map_add_def split: option.splits dest!: map_of_SomeD set_zip_leftD)
  moreover have "map (\<lambda>h. the (lookup t1 h)) ks = ?vs"
  proof (rule nth_equalityI)
    fix i assume "i < length (map (\<lambda>h. the (lookup t1 h)) ks)"
    then have i: "i < length ks" by simp
    then have "map_of (zip ks ?vs) (ks ! i) = Some (?vs ! i)"
      using ks(2) len by (simp add: map_of_zip_nth)
    with i show "map (\<lambda>h. the (lookup t1 h)) ks ! i = ?vs ! i"
      by (simp add: ks(6) map_add_def)
  qed (use len in simp)
  ultimately show ?thesis using t2 ks by (auto simp: fun_eq_iff)
qed

end

end
