(* ===== verification/Handle_Table.thy ===== *)
theory Handle_Table
  imports Abi_Object Cap_Spec
begin

text \<open>
  The capability core of the kernel (\<open>kernel/src/object.rs\<close>): kernel objects, the object
  manager that issues their ids, and the per-process handle table.

  An owned entry carries an optional reference lineage. In the source that is an
  \<open>Rc<()>\<close> whose strong count is the number of owned entries that hold it; here a lineage
  is the identity of that allocation (\<^typ>\<open>nat\<close>) and an observer (\<open>HandleReferences\<close>, a
  \<open>Weak\<close>) is the lineage it observes. The allocation a fresh \<open>Rc::new\<close> returns is an
  argument of the operations that make one. Whether the heap grants the one-slot
  reservation of \<open>Vec::try_reserve\<close> is the argument \<open>grow\<close>, a predicate on the table at
  the time of the request. Vector capacities are not observable and not modelled, nor is
  the test-only insertion limit.
\<close>

section \<open>Objects\<close>

datatype object_error = OE_BadHandle | OE_WrongType | OE_AccessDenied | OE_TableFull

record kernel_object =
  ko_koid :: ko_id
  ko_kind :: object_kind
  ko_signals :: signals

definition kernel_object_new :: "ko_id \<Rightarrow> object_kind \<Rightarrow> kernel_object" where
  "kernel_object_new koid kind = \<lparr>ko_koid = koid, ko_kind = kind, ko_signals = 0\<rparr>"

definition kernel_object_signal :: "kernel_object \<Rightarrow> signals \<Rightarrow> kernel_object" where
  "kernel_object_signal ob s = ob\<lparr>ko_signals := or (ko_signals ob) s\<rparr>"

record object_manager =
  next_koid :: u64

definition object_manager_new :: object_manager where
  "object_manager_new = \<lparr>next_koid = 1\<rparr>"

definition create :: "object_manager \<Rightarrow> object_kind \<Rightarrow> kernel_object \<times> object_manager" where
  "create om kind =
     (kernel_object_new (next_koid om) kind,
      om\<lparr>next_koid := max (saturating_add (next_koid om) 1) 1\<rparr>)"

section \<open>Handle tables\<close>

type_synonym lineage = nat

record handle_entry =
  he_handle :: handle
  he_koid :: ko_id
  he_kind :: object_kind
  he_rights :: rights

record owned_handle_entry =
  oh_entry :: handle_entry
  oh_reference :: "lineage option"

record staged_handle_grant =
  sg_source :: handle
  sg_target :: handle
  sg_transfer :: bool

record handle_table =
  ht_entries :: "owned_handle_entry list"
  ht_next_handle :: u32

abbreviation entry_handle :: "owned_handle_entry \<Rightarrow> handle" where
  "entry_handle e \<equiv> he_handle (oh_entry e)"

type_synonym 'a table_result = "(object_error + 'a) \<times> handle_table"

definition handle_table_new :: handle_table where
  "handle_table_new = \<lparr>ht_entries = [], ht_next_handle = 1\<rparr>"

definition position :: "handle_table \<Rightarrow> handle \<Rightarrow> nat option" where
  "position t h =
     (if h = INVALID_HANDLE then None
      else binary_search_by_key entry_handle (ht_entries t) h)"

definition get :: "handle_table \<Rightarrow> handle \<Rightarrow> object_error + handle_entry" where
  "get t h =
     (case position t h of
        None \<Rightarrow> Inl OE_BadHandle
      | Some i \<Rightarrow> Inr (oh_entry (ht_entries t ! i)))"

definition clone_entry :: "handle_table \<Rightarrow> handle \<Rightarrow> object_error + owned_handle_entry" where
  "clone_entry t h =
     (case position t h of
        None \<Rightarrow> Inl OE_BadHandle
      | Some i \<Rightarrow> Inr (ht_entries t ! i))"

definition require ::
  "handle_table \<Rightarrow> handle \<Rightarrow> object_kind \<Rightarrow> rights \<Rightarrow> object_error + handle_entry" where
  "require t h kind rs =
     (case get t h of
        Inl e \<Rightarrow> Inl e
      | Inr entry \<Rightarrow>
          if he_kind entry \<noteq> kind then Inl OE_WrongType
          else if \<not> rights_contains (he_rights entry) rs then Inl OE_AccessDenied
          else Inr entry)"

definition reserve_insert ::
  "(handle_table \<Rightarrow> bool) \<Rightarrow> handle_table \<Rightarrow> object_error + unit" where
  "reserve_insert grow t =
     (if ht_next_handle t = 0 then Inl OE_TableFull
      else if \<not> grow t then Inl OE_TableFull
      else Inr ())"

definition insert_parts ::
  "(handle_table \<Rightarrow> bool) \<Rightarrow> handle_table \<Rightarrow> ko_id \<Rightarrow> object_kind \<Rightarrow> rights
     \<Rightarrow> lineage option \<Rightarrow> handle table_result" where
  "insert_parts grow t koid kind rs ref =
     (case reserve_insert grow t of
        Inl e \<Rightarrow> (Inl e, t)
      | Inr _ \<Rightarrow>
          let h = ht_next_handle t;
              entry = \<lparr>oh_entry = \<lparr>he_handle = h, he_koid = koid, he_kind = kind,
                                   he_rights = rs\<rparr>,
                       oh_reference = ref\<rparr>
          in (Inr h,
              t\<lparr>ht_next_handle := (case checked_add h 1 of Some n \<Rightarrow> n | None \<Rightarrow> 0),
                ht_entries := ht_entries t @ [entry]\<rparr>))"

definition insert_entry ::
  "(handle_table \<Rightarrow> bool) \<Rightarrow> handle_table \<Rightarrow> owned_handle_entry \<Rightarrow> handle table_result" where
  "insert_entry grow t e =
     insert_parts grow t (he_koid (oh_entry e)) (he_kind (oh_entry e))
       (he_rights (oh_entry e)) (oh_reference e)"

definition table_insert ::
  "(handle_table \<Rightarrow> bool) \<Rightarrow> handle_table \<Rightarrow> kernel_object \<Rightarrow> rights \<Rightarrow> handle table_result" where
  "table_insert grow t ob rs =
     (if ko_kind ob = DeviceCtx \<or> ko_kind ob = Interrupt then (Inl OE_AccessDenied, t)
      else insert_parts grow t (ko_koid ob) (ko_kind ob) rs None)"

definition insert_referenced ::
  "(handle_table \<Rightarrow> bool) \<Rightarrow> lineage \<Rightarrow> handle_table \<Rightarrow> kernel_object \<Rightarrow> rights
     \<Rightarrow> (handle \<times> lineage) table_result" where
  "insert_referenced grow fresh t ob rs =
     (case insert_parts grow t (ko_koid ob) (ko_kind ob) rs (Some fresh) of
        (Inl e, t') \<Rightarrow> (Inl e, t')
      | (Inr h, t') \<Rightarrow> (Inr (h, fresh), t'))"

definition insert_device_context ::
  "(handle_table \<Rightarrow> bool) \<Rightarrow> lineage \<Rightarrow> handle_table \<Rightarrow> kernel_object \<Rightarrow> rights
     \<Rightarrow> (handle \<times> lineage) table_result" where
  "insert_device_context grow fresh t ob rs =
     (if ko_kind ob \<noteq> DeviceCtx then (Inl OE_WrongType, t)
      else insert_referenced grow fresh t ob rs)"

definition insert_interrupt ::
  "(handle_table \<Rightarrow> bool) \<Rightarrow> lineage \<Rightarrow> handle_table \<Rightarrow> kernel_object \<Rightarrow> rights
     \<Rightarrow> (handle \<times> lineage) table_result" where
  "insert_interrupt grow fresh t ob rs =
     (if ko_kind ob \<noteq> Interrupt then (Inl OE_WrongType, t)
      else insert_referenced grow fresh t ob rs)"

definition insert_channel ::
  "(handle_table \<Rightarrow> bool) \<Rightarrow> lineage \<Rightarrow> handle_table \<Rightarrow> kernel_object \<Rightarrow> rights
     \<Rightarrow> (handle \<times> lineage) table_result" where
  "insert_channel grow fresh t ob rs =
     (if ko_kind ob \<noteq> Channel then (Inl OE_WrongType, t)
      else insert_referenced grow fresh t ob rs)"

definition duplicate ::
  "(handle_table \<Rightarrow> bool) \<Rightarrow> handle_table \<Rightarrow> handle \<Rightarrow> rights \<Rightarrow> handle table_result" where
  "duplicate grow t h rs =
     (case get t h of
        Inl e \<Rightarrow> (Inl e, t)
      | Inr entry \<Rightarrow>
          if \<not> rights_contains (he_rights entry) RIGHT_DUPLICATE
             \<or> \<not> rights_contains (he_rights entry) rs
          then (Inl OE_AccessDenied, t)
          else case clone_entry t h of
                 Inl e \<Rightarrow> (Inl e, t)
               | Inr owner \<Rightarrow>
                   insert_entry grow t
                     (owner\<lparr>oh_entry := (oh_entry owner)\<lparr>he_rights := rs\<rparr>\<rparr>))"

definition remove :: "handle_table \<Rightarrow> handle \<Rightarrow> owned_handle_entry table_result" where
  "remove t h =
     (case position t h of
        None \<Rightarrow> (Inl OE_BadHandle, t)
      | Some i \<Rightarrow>
          (Inr (ht_entries t ! i), t\<lparr>ht_entries := remove_nth i (ht_entries t)\<rparr>))"

definition close :: "handle_table \<Rightarrow> handle \<Rightarrow> unit table_result" where
  "close t h = (case remove t h of (Inl e, t') \<Rightarrow> (Inl e, t') | (Inr _, t') \<Rightarrow> (Inr (), t'))"

definition holds :: "handle_table \<Rightarrow> ko_id \<Rightarrow> object_kind \<Rightarrow> rights \<Rightarrow> bool" where
  "holds t koid kind rs =
     list_ex (\<lambda>e. he_koid (oh_entry e) = koid \<and> he_kind (oh_entry e) = kind
                \<and> rights_contains (he_rights (oh_entry e)) rs) (ht_entries t)"

definition live_count :: "handle_table \<Rightarrow> nat" where
  "live_count t = length (ht_entries t)"

definition drain :: "handle_table \<Rightarrow> owned_handle_entry list \<times> handle_table" where
  "drain t = (ht_entries t, t\<lparr>ht_entries := []\<rparr>)"

definition stage_grant_to ::
  "(handle_table \<Rightarrow> bool) \<Rightarrow> handle_table \<Rightarrow> handle_table \<Rightarrow> handle \<Rightarrow> bool
     \<Rightarrow> staged_handle_grant table_result" where
  "stage_grant_to grow self target source transfer =
     (case get self source of
        Inl e \<Rightarrow> (Inl e, target)
      | Inr entry \<Rightarrow>
          let required = (if transfer then RIGHT_TRANSFER else RIGHT_DUPLICATE)
          in if \<not> rights_contains (he_rights entry) required
             then (Inl OE_AccessDenied, target)
             else case clone_entry self source of
                    Inl e \<Rightarrow> (Inl e, target)
                  | Inr owner \<Rightarrow>
                      (case insert_entry grow target owner of
                         (Inl e, target') \<Rightarrow> (Inl e, target')
                       | (Inr h, target') \<Rightarrow>
                           (Inr \<lparr>sg_source = source, sg_target = h, sg_transfer = transfer\<rparr>,
                            target')))"

definition commit_grant ::
  "handle_table \<Rightarrow> staged_handle_grant \<Rightarrow> unit table_result" where
  "commit_grant self g =
     (if sg_transfer g
      then (case remove self (sg_source g) of
              (Inl e, t) \<Rightarrow> (Inl e, t)
            | (Inr _, t) \<Rightarrow> (Inr (), t))
      else (Inr (), self))"

definition rollback_grant ::
  "handle_table \<Rightarrow> staged_handle_grant \<Rightarrow> unit table_result" where
  "rollback_grant self g =
     (case remove self (sg_target g) of
        (Inl e, t) \<Rightarrow> (Inl e, t)
      | (Inr _, t) \<Rightarrow> (Inr (), t))"

section \<open>The table as a map\<close>

text \<open>
  A well-formed table lists its live entries by strictly ascending handle, every handle is
  nonzero and was issued before the current \<open>next_handle\<close> (which is 0 once the space of
  handle values is used up). On such a table the binary search of \<^const>\<open>position\<close> is
  lookup in the association list of its entries.
\<close>

type_synonym capability = "ko_id \<times> object_kind \<times> rights \<times> lineage option"

definition capability_of :: "owned_handle_entry \<Rightarrow> capability" where
  "capability_of e =
     (he_koid (oh_entry e), he_kind (oh_entry e), he_rights (oh_entry e), oh_reference e)"

definition table_issued :: "handle_table \<Rightarrow> handle \<Rightarrow> bool" where
  "table_issued t h \<longleftrightarrow> h \<noteq> 0 \<and> (ht_next_handle t = 0 \<or> h < ht_next_handle t)"

definition table_wf :: "handle_table \<Rightarrow> bool" where
  "table_wf t \<longleftrightarrow>
     sorted_wrt (<) (map entry_handle (ht_entries t))
     \<and> (\<forall>e \<in> set (ht_entries t). table_issued t (entry_handle e))"

definition table_lookup :: "handle_table \<Rightarrow> handle \<Rightarrow> owned_handle_entry option" where
  "table_lookup t = map_of (map (\<lambda>e. (entry_handle e, e)) (ht_entries t))"

definition table_cap :: "handle_table \<Rightarrow> handle \<Rightarrow> capability option" where
  "table_cap t h = map_option capability_of (table_lookup t h)"

definition table_caps :: "handle_table \<Rightarrow> capability multiset" where
  "table_caps t = mset (map capability_of (ht_entries t))"

lemma table_wf_new [simp]: "table_wf handle_table_new"
  by (simp add: table_wf_def handle_table_new_def)

lemma table_wf_distinct: "table_wf t \<Longrightarrow> distinct (map entry_handle (ht_entries t))"
  by (simp add: table_wf_def strict_sorted_iff)

lemma table_lookup_iff:
  assumes "table_wf t"
  shows "table_lookup t h = Some e \<longleftrightarrow> e \<in> set (ht_entries t) \<and> entry_handle e = h"
proof -
  have "fst \<circ> (\<lambda>e. (entry_handle e, e)) = entry_handle" by auto
  then have "distinct (map fst (map (\<lambda>e. (entry_handle e, e)) (ht_entries t)))"
    using table_wf_distinct [OF assms] by simp
  then show ?thesis
    unfolding table_lookup_def by (subst map_of_eq_Some_iff) auto
qed

lemma table_lookup_None_iff:
  "table_lookup t h = None \<longleftrightarrow> h \<notin> entry_handle ` set (ht_entries t)"
  by (force simp: table_lookup_def map_of_eq_None_iff)

lemma table_lookup_issued: "table_wf t \<Longrightarrow> table_lookup t h = Some e \<Longrightarrow> table_issued t h"
  by (auto simp: table_lookup_iff table_wf_def)

lemma position_iff:
  assumes "table_wf t"
  shows "position t h = Some i \<longleftrightarrow>
    i < length (ht_entries t) \<and> entry_handle (ht_entries t ! i) = h"
proof (cases "h = INVALID_HANDLE")
  case True
  with assms show ?thesis
    by (auto simp: position_def INVALID_HANDLE_def table_wf_def table_issued_def)
next
  case False
  with assms show ?thesis
    by (simp add: position_def binary_search_by_key_iff table_wf_def)
qed

lemma position_None_iff: "table_wf t \<Longrightarrow> position t h = None \<longleftrightarrow> table_lookup t h = None"
  unfolding table_lookup_None_iff
  by (force simp: position_iff image_iff in_set_conv_nth simp flip: not_Some_eq)

lemma position_lookup:
  "table_wf t \<Longrightarrow> position t h = Some i \<Longrightarrow> table_lookup t h = Some (ht_entries t ! i)"
  by (auto simp: position_iff table_lookup_iff)

lemma clone_entry_lookup:
  assumes "table_wf t"
  shows "clone_entry t h = (case table_lookup t h of None \<Rightarrow> Inl OE_BadHandle | Some e \<Rightarrow> Inr e)"
  using position_None_iff [OF assms, of h] position_lookup [OF assms, of h]
  by (cases "position t h") (auto simp: clone_entry_def)

lemma get_lookup:
  assumes "table_wf t"
  shows "get t h = (case table_lookup t h of None \<Rightarrow> Inl OE_BadHandle | Some e \<Rightarrow> Inr (oh_entry e))"
  using position_None_iff [OF assms, of h] position_lookup [OF assms, of h]
  by (cases "position t h") (auto simp: get_def)

subsection \<open>Insertion\<close>

lemma insert_parts_cases:
  obtains (full) e where "insert_parts grow t koid kind rs ref = (Inl e, t)" and "e = OE_TableFull"
  | (ok) "ht_next_handle t \<noteq> 0" and "grow t"
      and "insert_parts grow t koid kind rs ref =
        (Inr (ht_next_handle t),
         t\<lparr>ht_next_handle := (case checked_add (ht_next_handle t) 1 of Some n \<Rightarrow> n | None \<Rightarrow> 0),
           ht_entries := ht_entries t @
             [\<lparr>oh_entry = \<lparr>he_handle = ht_next_handle t, he_koid = koid, he_kind = kind,
                            he_rights = rs\<rparr>, oh_reference = ref\<rparr>]\<rparr>)"
  by (cases "ht_next_handle t = 0"; cases "grow t")
    (auto simp: insert_parts_def reserve_insert_def Let_def)

lemma next_handle_cases:
  assumes "ht_next_handle t \<noteq> (0::u32)"
  obtains (last) "checked_add (ht_next_handle t) 1 = None" and "\<And>h :: u32. h \<le> ht_next_handle t"
  | (succ) n where "checked_add (ht_next_handle t) 1 = Some n" and "unat n = unat (ht_next_handle t) + 1"
      and "n \<noteq> 0"
proof (cases "checked_add (ht_next_handle t) 1")
  case None
  then have "4294967295 \<le> unat (ht_next_handle t)" by (simp add: checked_add_None_iff)
  then have "h \<le> ht_next_handle t" for h :: u32
    using unat_u32_bound [of h] by (simp add: word_le_nat_alt)
  with None show ?thesis by (rule last)
next
  case (Some n)
  then have "unat n = unat (ht_next_handle t) + 1" by (simp add: checked_add_Some_iff)
  moreover from this have "n \<noteq> 0" by auto
  ultimately show ?thesis using Some by (intro succ)
qed

lemma insert_parts_issued:
  assumes "insert_parts grow t koid kind rs ref = (Inr h, t')"
  shows "\<not> table_issued t h" and "table_issued t' k \<longleftrightarrow> table_issued t k \<or> k = h"
proof -
  consider (full) e where "insert_parts grow t koid kind rs ref = (Inl e, t)"
    | (ok) "ht_next_handle t \<noteq> 0" "h = ht_next_handle t"
      "ht_next_handle t' = (case checked_add (ht_next_handle t) 1 of Some n \<Rightarrow> n | None \<Rightarrow> 0)"
    by (rule insert_parts_cases [of grow t koid kind rs ref]) (use assms in auto)
  then have *: "\<not> table_issued t h \<and> (table_issued t' k \<longleftrightarrow> table_issued t k \<or> k = h)"
  proof cases
    case full
    with assms show ?thesis by simp
  next
    case ok
    from ok(1) show ?thesis
    proof (cases rule: next_handle_cases)
      case last
      with ok show ?thesis by (auto simp: table_issued_def order_le_less)
    next
      case (succ n)
      then have "k < n \<longleftrightarrow> k < ht_next_handle t \<or> k = ht_next_handle t"
        by (auto simp: word_less_nat_alt word_unat_eq_iff)
      with ok succ show ?thesis by (auto simp: table_issued_def)
    qed
  qed
  then show "\<not> table_issued t h" "table_issued t' k \<longleftrightarrow> table_issued t k \<or> k = h" by auto
qed

lemma insert_parts_ok:
  assumes "table_wf t" and "insert_parts grow t koid kind rs ref = (Inr h, t')"
  defines "e \<equiv> \<lparr>oh_entry = \<lparr>he_handle = h, he_koid = koid, he_kind = kind, he_rights = rs\<rparr>,
                oh_reference = ref\<rparr>"
  shows "table_wf t'" and "ht_entries t' = ht_entries t @ [e]"
    and "table_lookup t' = (table_lookup t)(h \<mapsto> e)"
proof -
  show entries: "ht_entries t' = ht_entries t @ [e]"
    using assms(2) by (cases rule: insert_parts_cases [of grow t koid kind rs ref]) (auto simp: e_def)
  have h: "\<not> table_issued t h" and iss: "\<And>k. table_issued t' k \<longleftrightarrow> table_issued t k \<or> k = h"
    using insert_parts_issued [OF assms(2)] by auto
  have "ht_next_handle t \<noteq> 0" "h = ht_next_handle t"
    using assms(2) by (cases rule: insert_parts_cases [of grow t koid kind rs ref]; auto)+
  with assms(1) have above: "\<forall>x \<in> set (ht_entries t). entry_handle x < h"
    by (auto simp: table_wf_def table_issued_def)
  with assms(1) iss show wf: "table_wf t'"
    by (auto simp: table_wf_def entries sorted_wrt_append e_def)
  have "h \<notin> entry_handle ` set (ht_entries t)" using above by auto
  then have none: "table_lookup t h = None" by (simp add: table_lookup_None_iff)
  have "table_lookup t' k = ((table_lookup t)(h \<mapsto> e)) k" for k
    using none by (cases "table_lookup t k") (auto simp: table_lookup_def entries map_add_def e_def)
  then show "table_lookup t' = (table_lookup t)(h \<mapsto> e)" by (rule ext)
qed

subsection \<open>Removal\<close>

lemma remove_dead: "table_wf t \<Longrightarrow> table_lookup t h = None \<Longrightarrow> remove t h = (Inl OE_BadHandle, t)"
  by (simp add: remove_def flip: position_None_iff)

lemma remove_live:
  assumes wf: "table_wf t" and e: "table_lookup t h = Some e"
  obtains t' where "remove t h = (Inr e, t')" and "table_wf t'"
    and "table_lookup t' = (table_lookup t)(h := None)"
    and "mset (ht_entries t) = add_mset e (mset (ht_entries t'))"
    and "ht_next_handle t' = ht_next_handle t"
proof -
  from position_None_iff [OF wf, of h] e obtain i where i: "position t h = Some i" by auto
  then have il: "i < length (ht_entries t)" "entry_handle (ht_entries t ! i) = h"
    using wf by (simp_all add: position_iff)
  have ei: "e = ht_entries t ! i" using position_lookup [OF wf i] e by simp
  let ?t = "t\<lparr>ht_entries := remove_nth i (ht_entries t)\<rparr>"
  have sub: "set (ht_entries ?t) \<subseteq> set (ht_entries t)" by (simp add: set_remove_nth_subset)
  have wf': "table_wf ?t"
    using wf sub by (auto simp: table_wf_def map_remove_nth sorted_wrt_remove_nth table_issued_def)
  have ms: "mset (ht_entries t) = add_mset e (mset (ht_entries ?t))"
    using mset_remove_nth [OF il(1)] ei by simp
  have gone: "e' \<noteq> e" if "e' \<in> set (ht_entries ?t)" for e'
  proof
    assume "e' = e"
    with that have "2 \<le> count (mset (ht_entries t)) e" unfolding ms by simp
    moreover have "distinct (ht_entries t)"
      using table_wf_distinct [OF wf] by (rule distinct_if_distinct_map)
    ultimately show False by (simp add: distinct_count_atmost_1 split: if_splits)
  qed
  have mem: "e' \<in> set (ht_entries ?t) \<longleftrightarrow> e' \<in> set (ht_entries t) \<and> e' \<noteq> e" for e'
    using gone [of e'] arg_cong [OF ms, of set_mset] by auto
  have "table_lookup ?t k = ((table_lookup t)(h := None)) k" for k
  proof (rule option_eqI)
    fix y
    have "y = e" if "y \<in> set (ht_entries t)" "entry_handle y = h"
      using that e wf by (metis option.inject table_lookup_iff)
    then show "table_lookup ?t k = Some y \<longleftrightarrow> ((table_lookup t)(h := None)) k = Some y"
      using il(2) ei by (auto simp: table_lookup_iff [OF wf'] table_lookup_iff [OF wf] mem [simplified])
  qed
  then have "table_lookup ?t = (table_lookup t)(h := None)" by (rule ext)
  then show ?thesis
    by (intro that [of ?t]) (use i ei wf' ms in \<open>auto simp: remove_def\<close>)
qed

subsection \<open>The capability-table contract\<close>

lemma insert_entry_error: "insert_entry grow t e = (Inl x, t') \<Longrightarrow> t' = t"
  unfolding insert_entry_def
  by (rule insert_parts_cases [of grow t "he_koid (oh_entry e)" "he_kind (oh_entry e)"
        "he_rights (oh_entry e)" "oh_reference e"]) auto

lemma insert_entry_ok:
  assumes "table_wf t" and "insert_entry grow t e = (Inr h, t')"
  defines "e' \<equiv> e\<lparr>oh_entry := (oh_entry e)\<lparr>he_handle := h\<rparr>\<rparr>"
  shows "table_wf t'" and "ht_entries t' = ht_entries t @ [e']"
    and "table_lookup t' = (table_lookup t)(h \<mapsto> e')"
    and "\<not> table_issued t h" and "table_issued t' k \<longleftrightarrow> table_issued t k \<or> k = h"
proof -
  have e': "e' = \<lparr>oh_entry = \<lparr>he_handle = h, he_koid = he_koid (oh_entry e),
      he_kind = he_kind (oh_entry e), he_rights = he_rights (oh_entry e)\<rparr>,
      oh_reference = oh_reference e\<rparr>"
    by (simp add: e'_def)
  note ins = assms(2) [unfolded insert_entry_def]
  show "table_wf t'" "ht_entries t' = ht_entries t @ [e']"
    "table_lookup t' = (table_lookup t)(h \<mapsto> e')"
    unfolding e' using insert_parts_ok [OF assms(1) ins] by auto
  show "\<not> table_issued t h" "table_issued t' k \<longleftrightarrow> table_issued t k \<or> k = h"
    using insert_parts_issued [OF ins] by auto
qed

lemma capability_of_rehandled [simp]:
  "capability_of (e\<lparr>oh_entry := (oh_entry e)\<lparr>he_handle := h\<rparr>\<rparr>) = capability_of e"
  by (simp add: capability_of_def)

lemma table_cap_eq_None_iff [simp]: "table_cap t h = None \<longleftrightarrow> table_lookup t h = None"
  by (simp add: table_cap_def)

lemma close_live:
  assumes "table_wf t" and "table_cap t h = Some c"
  shows "\<exists>v t'. close t h = (Inr v, t') \<and> table_wf t' \<and> table_cap t' = (table_cap t)(h := None)
    \<and> table_caps t = add_mset c (table_caps t') \<and> table_issued t' = table_issued t"
proof -
  from assms(2) obtain e where e: "table_lookup t h = Some e" "c = capability_of e"
    by (auto simp: table_cap_def)
  from remove_live [OF assms(1) e(1)] obtain t' where t': "remove t h = (Inr e, t')" "table_wf t'"
    "table_lookup t' = (table_lookup t)(h := None)"
    "mset (ht_entries t) = add_mset e (mset (ht_entries t'))"
    "ht_next_handle t' = ht_next_handle t"
    by blast
  then show ?thesis
    using e(2) by (auto simp: close_def table_cap_def table_caps_def table_issued_def fun_eq_iff)
qed

interpretation cap_tab: capability_table table_cap table_caps table_issued table_wf
  capability_of "insert_entry grow" close for grow
proof unfold_locales
  fix t e x t'
  assume "insert_entry grow t e = (Inl x, t')"
  then show "t' = t" by (rule insert_entry_error)
next
  fix t e h t' k
  assume wf: "table_wf t" and ins: "insert_entry grow t e = (Inr h, t')"
  note ok = insert_entry_ok [OF wf ins]
  show "table_wf t'" "\<not> table_issued t h" "table_issued t' k \<longleftrightarrow> table_issued t k \<or> k = h"
    using ok by auto
  show "table_cap t' = (table_cap t)(h \<mapsto> capability_of e)"
    using ok(3) by (auto simp: table_cap_def)
  show "table_caps t' = add_mset (capability_of e) (table_caps t)"
    using ok(2) by (simp add: table_caps_def)
next
  fix t h c
  assume "table_wf t" and "table_cap t h = Some c"
  then show "table_issued t h" by (auto simp: table_cap_def table_lookup_issued)
next
  fix t h
  assume "table_wf t" and "table_cap t h = None"
  then show "\<exists>x. close t h = (Inl x, t)" by (simp add: close_def remove_dead)
qed (rule close_live)

section \<open>Runs of a table\<close>

text \<open>
  One step of a table is one call of one of its mutating operations, whatever it returns.
  The label is the handle value the call issued, if any.
\<close>

definition issued_by :: "object_error + 'a \<Rightarrow> ('a \<Rightarrow> handle) \<Rightarrow> handle option" where
  "issued_by r f = (case r of Inl _ \<Rightarrow> None | Inr a \<Rightarrow> Some (f a))"

inductive table_step :: "handle_table \<Rightarrow> handle option \<Rightarrow> handle_table \<Rightarrow> bool" where
  s_insert: "table_insert grow t ob rs = (r, t') \<Longrightarrow> table_step t (issued_by r id) t'"
| s_insert_referenced:
    "insert_referenced grow fresh t ob rs = (r, t') \<Longrightarrow> table_step t (issued_by r fst) t'"
| s_insert_entry: "insert_entry grow t e = (r, t') \<Longrightarrow> table_step t (issued_by r id) t'"
| s_duplicate: "duplicate grow t h rs = (r, t') \<Longrightarrow> table_step t (issued_by r id) t'"
| s_stage: "stage_grant_to grow src t h transfer = (r, t') \<Longrightarrow>
    table_step t (issued_by r sg_target) t'"
| s_remove: "remove t h = (r, t') \<Longrightarrow> table_step t None t'"
| s_close: "close t h = (r, t') \<Longrightarrow> table_step t None t'"
| s_commit: "commit_grant t g = (r, t') \<Longrightarrow> table_step t None t'"
| s_rollback: "rollback_grant t g = (r, t') \<Longrightarrow> table_step t None t'"
| s_drain: "drain t = (es, t') \<Longrightarrow> table_step t None t'"

inductive table_run :: "handle_table \<Rightarrow> handle list \<Rightarrow> handle_table \<Rightarrow> bool" where
  run_nil: "table_run t [] t"
| run_cons: "table_step t l t1 \<Longrightarrow> table_run t1 hs t2 \<Longrightarrow>
    table_run t (case l of None \<Rightarrow> hs | Some h \<Rightarrow> h # hs) t2"

text \<open>What one step may do to a well-formed table.\<close>

definition step_ok :: "handle_table \<Rightarrow> handle option \<Rightarrow> handle_table \<Rightarrow> bool" where
  "step_ok t l t' \<longleftrightarrow>
     table_wf t' \<and> (\<forall>k. table_issued t' k \<longleftrightarrow> table_issued t k \<or> l = Some k)
     \<and> (\<forall>h. l = Some h \<longrightarrow> \<not> table_issued t h)
     \<and> dom (table_lookup t') \<subseteq> dom (table_lookup t) \<union> set_option l"

lemma step_ok_refl: "table_wf t \<Longrightarrow> step_ok t None t"
  by (simp add: step_ok_def)

lemma step_ok_insert_parts:
  assumes "table_wf t" and "insert_parts grow t koid kind rs ref = (r, t')"
  shows "step_ok t (issued_by r id) t'"
proof (cases r)
  case (Inl e)
  with assms show ?thesis
    by (cases rule: insert_parts_cases [of grow t koid kind rs ref])
      (auto simp: issued_by_def step_ok_refl)
next
  case (Inr h)
  note ins = assms(2) [unfolded Inr]
  show ?thesis
    using insert_parts_ok [OF assms(1) ins] insert_parts_issued [OF ins] Inr
    by (auto simp: step_ok_def issued_by_def split: if_splits)
qed

lemma step_ok_insert_entry:
  "table_wf t \<Longrightarrow> insert_entry grow t e = (r, t') \<Longrightarrow> step_ok t (issued_by r id) t'"
  unfolding insert_entry_def by (rule step_ok_insert_parts)

lemma step_ok_remove:
  assumes "table_wf t" and "remove t h = (r, t')"
  shows "step_ok t None t'"
proof (cases "table_lookup t h")
  case None
  with assms show ?thesis by (simp add: remove_dead step_ok_refl)
next
  case (Some e)
  from remove_live [OF assms(1) Some] obtain t1 where t1: "remove t h = (Inr e, t1)" "table_wf t1"
    "table_lookup t1 = (table_lookup t)(h := None)" "ht_next_handle t1 = ht_next_handle t"
    by blast
  with assms(2) have "t' = t1" by simp
  with t1(2-4) show ?thesis by (auto simp: step_ok_def table_issued_def)
qed

lemma table_step_ok: "table_step t l t' \<Longrightarrow> table_wf t \<Longrightarrow> step_ok t l t'"
proof (induction rule: table_step.induct)
  case (s_insert grow t ob rs r t')
  then show ?case
    by (auto simp: table_insert_def issued_by_def step_ok_refl
        dest: step_ok_insert_parts split: if_splits)
next
  case (s_insert_referenced grow fresh t ob rs r t')
  then show ?case
    by (auto simp: insert_referenced_def issued_by_def dest: step_ok_insert_parts
        split: prod.splits sum.splits)
next
  case (s_duplicate grow t h rs r t')
  then show ?case
    by (auto simp: duplicate_def issued_by_def step_ok_refl dest: step_ok_insert_entry
        split: sum.splits if_splits)
next
  case (s_stage grow src t h transfer r t')
  then show ?case
    by (auto simp: stage_grant_to_def issued_by_def step_ok_refl Let_def
        dest: step_ok_insert_entry split: sum.splits if_splits prod.splits)
next
  case (s_drain t es t')
  then show ?case by (auto simp: drain_def step_ok_def table_wf_def table_issued_def table_lookup_def)
qed (auto simp: close_def commit_grant_def rollback_grant_def step_ok_refl
    intro: step_ok_insert_entry step_ok_remove split: sum.splits prod.splits if_splits)

lemma table_run_ok:
  "table_run t hs t' \<Longrightarrow> table_wf t \<Longrightarrow>
     table_wf t' \<and> distinct hs \<and> (\<forall>h \<in> set hs. \<not> table_issued t h)
     \<and> (\<forall>k. table_issued t' k \<longleftrightarrow> table_issued t k \<or> k \<in> set hs)
     \<and> dom (table_lookup t') \<subseteq> dom (table_lookup t) \<union> set hs"
proof (induction rule: table_run.induct)
  case (run_nil t)
  then show ?case by simp
next
  case (run_cons t l t1 hs t2)
  from table_step_ok [OF run_cons.hyps(1) run_cons.prems] have st: "step_ok t l t1" .
  then have "table_wf t1" by (simp add: step_ok_def)
  note IH = run_cons.IH [OF this]
  show ?case
  proof (cases l)
    case None
    with st IH show ?thesis unfolding step_ok_def by simp blast
  next
    case (Some h)
    with st IH show ?thesis unfolding step_ok_def by simp blast
  qed
qed

section \<open>Properties\<close>

lemma table_issued_new [simp]: "\<not> table_issued handle_table_new h"
  by (auto simp: table_issued_def handle_table_new_def word_less_nat_alt word_unat_eq_iff)

lemma close_error: "close t h = (Inl e, t') \<Longrightarrow> t' = t"
  by (auto simp: close_def remove_def split: option.splits)

lemma close_ok:
  assumes "table_wf t" and "close t h = (Inr v, t')"
  shows "table_wf t'" and "table_cap t h \<noteq> None" and "table_lookup t' h = None"
    and "table_issued t' = table_issued t"
proof -
  have "table_cap t h \<noteq> None"
    using assms by (cases "table_lookup t h") (auto simp: close_def remove_dead)
  then obtain c where c: "table_cap t h = Some c" by blast
  from close_live [OF assms(1) c] assms(2) show "table_wf t'" "table_issued t' = table_issued t"
    by auto
  from close_live [OF assms(1) c] assms(2) have "table_cap t' = (table_cap t)(h := None)" by auto
  then have "table_cap t' h = None" by simp
  then show "table_lookup t' h = None" by simp
  show "table_cap t h \<noteq> None" by fact
qed

lemma duplicate_lookup:
  assumes "table_wf t"
  shows "duplicate grow t h rs =
    (case table_lookup t h of
       None \<Rightarrow> (Inl OE_BadHandle, t)
     | Some e \<Rightarrow>
         if \<not> rights_contains (he_rights (oh_entry e)) RIGHT_DUPLICATE
            \<or> \<not> rights_contains (he_rights (oh_entry e)) rs
         then (Inl OE_AccessDenied, t)
         else insert_entry grow t (e\<lparr>oh_entry := (oh_entry e)\<lparr>he_rights := rs\<rparr>\<rparr>))"
  by (simp add: duplicate_def get_lookup [OF assms] clone_entry_lookup [OF assms]
      split: option.splits)

text \<open>
  C9: a handle value is never issued twice and a closed handle stays dead. Take any run of a
  fresh table through its mutating operations (with any allocation outcomes), a successful
  close of some handle, and any further run: all handle values issued before and after are
  pairwise distinct and nonzero, the closed handle is one issued before and never issued
  again, and at the end it still resolves to \<open>BadHandle\<close>.
\<close>

theorem closed_handle_stays_dead:
  assumes "table_run handle_table_new hs0 t1"
    and "close t1 h = (Inr (), t2)"
    and "table_run t2 hs t3"
  shows "distinct (hs0 @ hs) \<and> 0 \<notin> set (hs0 @ hs) \<and> h \<in> set hs0 \<and> h \<notin> set hs
    \<and> get t3 h = Inl OE_BadHandle"
proof -
  have r1: "table_wf t1" "distinct hs0" "\<And>k. table_issued t1 k \<longleftrightarrow> k \<in> set hs0"
    using table_run_ok [OF assms(1)] by auto
  note c = close_ok [OF r1(1) assms(2)]
  have r3: "table_wf t3" "distinct hs" "\<And>k. k \<in> set hs \<Longrightarrow> k \<notin> set hs0"
    "\<And>k. table_issued t3 k \<longleftrightarrow> k \<in> set hs0 \<or> k \<in> set hs"
    "dom (table_lookup t3) \<subseteq> dom (table_lookup t2) \<union> set hs"
    using table_run_ok [OF assms(3) c(1)] c(4) r1(3) by auto
  have h: "h \<in> set hs0"
    using c(2) r1(1) table_lookup_issued [OF r1(1)] by (auto simp: table_cap_def r1(3) [symmetric])
  then have "h \<notin> set hs" using r3(3) by blast
  moreover from this c(3) r3(5) have "table_lookup t3 h = None" by blast
  moreover have "0 \<notin> set (hs0 @ hs)" using r3(4) [of 0] by (auto simp: table_issued_def)
  ultimately show ?thesis
    using h r1(2) r3(2,3) by (auto simp: get_lookup [OF r3(1)])
qed

text \<open>
  The binary search is a faithful index. On every table reachable from a fresh one, \<open>get\<close>
  returns what a linear scan of the entry vector for the handle value returns (and
  \<open>BadHandle\<close> where the scan finds nothing).
\<close>

lemma get_is_linear_scan:
  assumes "table_run handle_table_new hs t"
  shows "get t h = (case find (\<lambda>e. entry_handle e = h) (ht_entries t) of
                      None \<Rightarrow> Inl OE_BadHandle
                    | Some e \<Rightarrow> Inr (oh_entry e))"
proof -
  have wf: "table_wf t" using table_run_ok [OF assms] by simp
  have "table_lookup t h = find (\<lambda>e. entry_handle e = h) (ht_entries t)"
  proof (cases "find (\<lambda>e. entry_handle e = h) (ht_entries t)")
    case None
    then have "table_lookup t h = None" by (auto simp: table_lookup_None_iff find_None_iff)
    with None show ?thesis by simp
  next
    case (Some e)
    then have "table_lookup t h = Some e" by (auto simp: table_lookup_iff [OF wf] find_Some_iff)
    with Some show ?thesis by simp
  qed
  then show ?thesis by (simp add: get_lookup [OF wf])
qed

text \<open>
  \<open>duplicate\<close> attenuates. On a well-formed table an error leaves the table as it was; a
  success requires that the source handle is live, carries the duplicate right and contains
  every requested right, and then adds, under a handle value never issued before, a
  capability for the same object and the same reference lineage with exactly the requested
  rights, changing no other handle.
\<close>

lemma duplicate_attenuates:
  assumes "table_wf t" and "duplicate grow t h rs = (r, t')"
  shows "case r of
      Inl e \<Rightarrow> t' = t
    | Inr h' \<Rightarrow> (\<exists>koid kind held ref. table_cap t h = Some (koid, kind, held, ref)
        \<and> rights_contains held RIGHT_DUPLICATE \<and> rights_contains held rs
        \<and> \<not> table_issued t h' \<and> table_wf t'
        \<and> table_cap t' = (table_cap t)(h' \<mapsto> (koid, kind, rs, ref)))"
proof (cases r)
  case (Inl e)
  then show ?thesis
    using assms(2) insert_entry_error
    by (auto simp: duplicate_lookup [OF assms(1)] split: option.splits if_splits)
next
  case (Inr h')
  then obtain e where e: "table_lookup t h = Some e"
    "rights_contains (he_rights (oh_entry e)) RIGHT_DUPLICATE"
    "rights_contains (he_rights (oh_entry e)) rs"
    "insert_entry grow t (e\<lparr>oh_entry := (oh_entry e)\<lparr>he_rights := rs\<rparr>\<rparr>) = (Inr h', t')"
    using assms(2) by (auto simp: duplicate_lookup [OF assms(1)] split: option.splits if_splits)
  note laws = cap_tab.put_inv [OF assms(1) e(4)] cap_tab.put_fresh [OF assms(1) e(4)]
    cap_tab.put_lookup [OF assms(1) e(4)]
  from e(1) have "table_cap t h =
      Some (he_koid (oh_entry e), he_kind (oh_entry e), he_rights (oh_entry e), oh_reference e)"
    by (simp add: table_cap_def capability_of_def)
  then show ?thesis using Inr e(2,3) laws by (simp add: capability_of_def)
qed

text \<open>
  \<open>require\<close> is the access check. On a well-formed table it returns the entry of a live
  handle exactly when the kind matches and the entry holds every needed right; otherwise it
  reports, in this order, \<open>BadHandle\<close> for a dead handle, \<open>WrongType\<close> for another kind, and
  \<open>AccessDenied\<close> for missing rights.
\<close>

lemma require_checks:
  assumes "table_wf t"
  shows "require t h kind rs =
    (case table_cap t h of
       None \<Rightarrow> Inl OE_BadHandle
     | Some (koid, kind', held, ref) \<Rightarrow>
         if kind' \<noteq> kind then Inl OE_WrongType
         else if \<not> mask_contains held rs then Inl OE_AccessDenied
         else Inr \<lparr>he_handle = h, he_koid = koid, he_kind = kind, he_rights = held\<rparr>)"
proof (cases "table_lookup t h")
  case None
  then show ?thesis by (simp add: require_def get_lookup [OF assms] table_cap_def)
next
  case (Some e)
  then have "entry_handle e = h" by (simp add: table_lookup_iff [OF assms])
  with Some show ?thesis
    by (cases e rule: owned_handle_entry.cases; cases "oh_entry e" rule: handle_entry.cases)
      (auto simp: require_def get_lookup [OF assms] table_cap_def capability_of_def
        rights_contains_def mask_contains_def)
qed

subsection \<open>Witnesses\<close>

definition sample_object :: kernel_object where
  "sample_object = kernel_object_new 7 Port"

definition sample_table :: handle_table where
  "sample_table = snd (table_insert (\<lambda>_. True) handle_table_new sample_object RIGHTS_ALL)"

lemmas sample_defs = sample_table_def sample_object_def table_insert_def kernel_object_new_def
  insert_parts_def reserve_insert_def handle_table_new_def checked_add_def

lemma sample_table_eq:
  "sample_table = \<lparr>ht_entries = [\<lparr>oh_entry = \<lparr>he_handle = 1, he_koid = 7, he_kind = Port,
     he_rights = RIGHTS_ALL\<rparr>, oh_reference = None\<rparr>], ht_next_handle = 2\<rparr>"
  by (simp add: sample_defs Let_def)

lemma sample_table_wf: "table_wf sample_table"
  by (simp add: sample_table_eq table_wf_def table_issued_def word_less_nat_alt)

lemma sample_table_cap: "table_cap sample_table 1 = Some (7, Port, RIGHTS_ALL, None)"
  by (simp add: sample_table_eq table_cap_def table_lookup_def capability_of_def)

lemma sample_run: "table_run handle_table_new [1] sample_table"
proof -
  have "table_insert (\<lambda>_. True) handle_table_new sample_object RIGHTS_ALL = (Inr 1, sample_table)"
    by (simp add: sample_defs Let_def)
  from table_step.s_insert [OF this] show ?thesis
    by (auto simp: issued_by_def intro: run_cons [of _ "Some 1" _ "[]", simplified] run_nil)
qed

theorem closed_handle_stays_dead_witness:
  "\<exists>t2 t3. close sample_table 1 = (Inr (), t2) \<and> table_run t2 [2] t3
     \<and> get t3 1 = Inl OE_BadHandle"
proof -
  let ?t2 = "handle_table_new\<lparr>ht_next_handle := 2\<rparr>"
  let ?t3 = "snd (table_insert (\<lambda>_. True) ?t2 sample_object RIGHTS_ALL)"
  have c: "close sample_table 1 = (Inr (), ?t2)"
    by (simp add: sample_table_eq close_def remove_def position_def INVALID_HANDLE_def
        binary_search_by_key_def bsearch_base.simps remove_nth_def handle_table_new_def)
  have "table_insert (\<lambda>_. True) ?t2 sample_object RIGHTS_ALL = (Inr 2, ?t3)"
    by (simp add: sample_defs Let_def)
  from table_step.s_insert [OF this] have r: "table_run ?t2 [2] ?t3"
    by (auto simp: issued_by_def intro: run_cons [of _ "Some 2" _ "[]", simplified] run_nil)
  from closed_handle_stays_dead [OF sample_run c r] c r show ?thesis by blast
qed

end
