(* ===== verification/Abi_Sys.thy ===== *)
theory Abi_Sys
  imports Handle_Table
begin

text \<open>
  The system-call ABI vocabulary of \<open>lib/kumo-abi/src/sys.rs\<close>: error numbers with their
  signed status values, and the option bits of \<open>ProcessRun\<close>; and the translation of
  handle-table errors into error numbers (\<open>errno_from_object\<close> of
  \<open>kernel/src/syscall.rs\<close>).
\<close>

unbundle bit_operations_syntax

datatype errno =
  E_Ok | E_InvalidArgs | E_BadHandle | E_WrongType | E_AccessDenied | E_ShouldWait
  | E_PeerClosed | E_NoMemory | E_NotSupported | E_Internal | E_TimedOut | E_BadState

fun errno_status :: "errno \<Rightarrow> int" where
  "errno_status E_Ok = 0"
| "errno_status E_InvalidArgs = -1"
| "errno_status E_BadHandle = -2"
| "errno_status E_WrongType = -3"
| "errno_status E_AccessDenied = -4"
| "errno_status E_ShouldWait = -5"
| "errno_status E_PeerClosed = -6"
| "errno_status E_NoMemory = -7"
| "errno_status E_NotSupported = -8"
| "errno_status E_Internal = -9"
| "errno_status E_TimedOut = -10"
| "errno_status E_BadState = -11"

definition errno_is_ok :: "errno \<Rightarrow> bool" where
  "errno_is_ok e = (e = E_Ok)"

fun errno_from_object :: "object_error \<Rightarrow> errno" where
  "errno_from_object OE_BadHandle = E_BadHandle"
| "errno_from_object OE_WrongType = E_WrongType"
| "errno_from_object OE_AccessDenied = E_AccessDenied"
| "errno_from_object OE_TableFull = E_NoMemory"

type_synonym process_run_flags = u64

definition RUN_ASYNC :: process_run_flags where "RUN_ASYNC = 1"
definition RUN_TRANSFER_ARG :: process_run_flags where "RUN_TRANSFER_ARG = 2"
definition RUN_TRANSFER_ARG2 :: process_run_flags where "RUN_TRANSFER_ARG2 = 4"

definition run_flags_contains :: "process_run_flags \<Rightarrow> process_run_flags \<Rightarrow> bool" where
  "run_flags_contains self needed = (self AND needed = needed)"

lemmas run_flag_defs = RUN_ASYNC_def RUN_TRANSFER_ARG_def RUN_TRANSFER_ARG2_def

lemma errno_status_inj: "errno_status a = errno_status b \<longleftrightarrow> a = b"
  by (cases a; cases b) simp_all

end
