(* ===== verification/Process_Grants.thy ===== *)
theory Process_Grants
  imports Abi_Sys
begin

text \<open>
  Capability grants of \<open>ProcessRun\<close>: the two start arguments of a child are plain integers or
  name handles of the caller, which are copied into the child's table or, when marked, moved.
  The staging helpers are those of \<open>kernel/src/syscall.rs\<close>; the two callers are the
  \<open>ProcessRun\<close> arm of \<open>dispatch\<close> (same file) and the blocking path of Sora
  (\<open>run_sora_child_without_borrow\<close> of \<open>kernel/src/usermode.rs\<close>).

  What the callers ask of the rest of the kernel is passed as arguments: \<open>procs\<close> tells for a
  process id whether the process exists and what its address-space root is;
  \<open>capacity\<close>, \<open>heap_ready\<close> and \<open>thread_ok\<close> are the answers of \<open>resident_has_capacity\<close>,
  \<open>spawn_heap_ready\<close> and \<open>Thread::new\<close>; \<open>run\<close> is \<open>spawn_child_async\<close> / \<open>run_child\<close>, which
  returns a status and, because a blocking child runs before it returns, the two tables. The
  caller's and the child's tables are different objects.
\<close>

section \<open>Staging\<close>

definition stage_process_arg ::
  "(handle_table \<Rightarrow> bool) \<Rightarrow> handle_table \<Rightarrow> handle_table \<Rightarrow> u64 \<Rightarrow> bool
     \<Rightarrow> (u64 \<times> staged_handle_grant option) table_result" where
  "stage_process_arg grow source target raw transfer =
     (if raw = 0 then (Inr (0, None), target)
      else let h = ucast raw :: handle in
        if \<not> transfer \<and> get source h = Inl OE_BadHandle then (Inr (raw, None), target)
        else case stage_grant_to grow source target h transfer of
               (Inl e, target') \<Rightarrow> (Inl e, target')
             | (Inr grant, target') \<Rightarrow> (Inr (ucast (sg_target grant), Some grant), target'))"

definition rollback_process_grants ::
  "handle_table \<Rightarrow> staged_handle_grant option list \<Rightarrow> unit table_result" where
  "rollback_process_grants target grants =
     drop_each rollback_grant target (rev (List.map_filter id grants))"

definition commit_process_grants ::
  "handle_table \<Rightarrow> staged_handle_grant option list \<Rightarrow> unit table_result" where
  "commit_process_grants source grants =
     drop_each commit_grant source (List.map_filter id grants)"

definition duplicate_transfer :: "process_run_flags \<Rightarrow> u64 \<Rightarrow> u64 \<Rightarrow> bool" where
  "duplicate_transfer flags arg arg2 =
     (run_flags_contains flags RUN_TRANSFER_ARG \<and> run_flags_contains flags RUN_TRANSFER_ARG2
      \<and> arg \<noteq> 0 \<and> arg = arg2)"

definition stage_both ::
  "(handle_table \<Rightarrow> bool) \<Rightarrow> handle_table \<Rightarrow> handle_table \<Rightarrow> u64 \<Rightarrow> u64 \<Rightarrow> process_run_flags
     \<Rightarrow> (u64 \<times> u64 \<times> staged_handle_grant option list) table_result" where
  "stage_both grow source target arg arg2 flags =
     (case stage_process_arg grow source target arg (run_flags_contains flags RUN_TRANSFER_ARG) of
        (Inl e, target1) \<Rightarrow> (Inl e, target1)
      | (Inr (child_arg, first), target1) \<Rightarrow>
          (case stage_process_arg grow source target1 arg2
                  (run_flags_contains flags RUN_TRANSFER_ARG2) of
             (Inl e, target2) \<Rightarrow> (Inl e, snd (rollback_process_grants target2 [first]))
           | (Inr (child_arg2, second), target2) \<Rightarrow>
               (Inr (child_arg, child_arg2, [first, second]), target2)))"

section \<open>The two callers\<close>

definition prepare_sora_child ::
  "(handle_table \<Rightarrow> bool) \<Rightarrow> (ko_id \<Rightarrow> u64 option option) \<Rightarrow> bool \<Rightarrow> bool \<Rightarrow> bool
     \<Rightarrow> handle_table \<Rightarrow> handle_table \<Rightarrow> handle \<Rightarrow> u64 \<Rightarrow> u64 \<Rightarrow> process_run_flags
     \<Rightarrow> (errno + u64 \<times> u64) \<times> handle_table \<times> handle_table" where
  "prepare_sora_child grow procs capacity heap_ready thread_ok sora child process_handle
      arg arg2 flags =
     (case require sora process_handle Process RIGHT_WRITE of
        Inl _ \<Rightarrow> (Inl E_BadHandle, sora, child)
      | Inr entry \<Rightarrow>
     (case procs (he_koid entry) of
        None \<Rightarrow> (Inl E_BadHandle, sora, child)
      | Some None \<Rightarrow> (Inl E_InvalidArgs, sora, child)
      | Some (Some ttbr0) \<Rightarrow>
          if duplicate_transfer flags arg arg2 then (Inl E_InvalidArgs, sora, child)
          else if \<not> capacity then (Inl E_BadState, sora, child)
          else if \<not> heap_ready then (Inl E_NoMemory, sora, child)
          else (case stage_both grow sora child arg arg2 flags of
              (Inl e, child1) \<Rightarrow> (Inl (errno_from_object e), sora, child1)
            | (Inr (child_arg, child_arg2, grants), child1) \<Rightarrow>
                if \<not> thread_ok
                then (Inl E_NoMemory, sora, snd (rollback_process_grants child1 grants))
                else (case commit_process_grants sora grants of
                    (Inl _, sora1) \<Rightarrow>
                      (Inl E_Internal, sora1, snd (rollback_process_grants child1 grants))
                  | (Inr _, sora1) \<Rightarrow> (Inr (child_arg, child_arg2), sora1, child1)))))"

definition dispatch_process_run ::
  "(handle_table \<Rightarrow> bool) \<Rightarrow> (ko_id \<Rightarrow> u64 option option)
     \<Rightarrow> (bool \<Rightarrow> u64 \<Rightarrow> u64 \<Rightarrow> handle_table \<Rightarrow> handle_table \<Rightarrow> int \<times> handle_table \<times> handle_table)
     \<Rightarrow> handle_table \<Rightarrow> handle_table \<Rightarrow> handle \<Rightarrow> u64 \<Rightarrow> u64 \<Rightarrow> process_run_flags
     \<Rightarrow> int \<times> handle_table \<times> handle_table" where
  "dispatch_process_run grow procs run caller child process_handle arg arg2 flags =
     (case require caller process_handle Process RIGHT_WRITE of
        Inl e \<Rightarrow> (errno_status (errno_from_object e), caller, child)
      | Inr entry \<Rightarrow>
     (case procs (he_koid entry) of
        None \<Rightarrow> (errno_status E_BadHandle, caller, child)
      | Some None \<Rightarrow> (errno_status E_InvalidArgs, caller, child)
      | Some (Some ttbr0) \<Rightarrow>
          if duplicate_transfer flags arg arg2 then (errno_status E_InvalidArgs, caller, child)
          else (case stage_both grow caller child arg arg2 flags of
              (Inl e, child1) \<Rightarrow> (errno_status (errno_from_object e), caller, child1)
            | (Inr (child_arg, child_arg2, grants), child1) \<Rightarrow>
                (case run (run_flags_contains flags RUN_ASYNC) child_arg child_arg2 caller child1 of
                   (status, caller2, child2) \<Rightarrow>
                     if status = errno_status E_Ok
                     then (case commit_process_grants caller2 grants of
                             (Inl _, caller3) \<Rightarrow> (errno_status E_Internal, caller3, child2)
                           | (Inr _, caller3) \<Rightarrow> (status, caller3, child2))
                     else (case rollback_process_grants child2 grants of
                             (Inl _, child3) \<Rightarrow> (errno_status E_Internal, caller2, child3)
                           | (Inr _, child3) \<Rightarrow> (status, caller2, child3))))))"

section \<open>What a staged argument is\<close>

text \<open>
  The capability an argument grants to the child: none for 0 and for an unmarked integer
  that names no live handle of the caller.
\<close>

definition arg_grant :: "handle_table \<Rightarrow> u64 \<Rightarrow> capability option" where
  "arg_grant source raw = (if raw = 0 then None else table_cap source (ucast raw))"

text \<open>
  \<open>staged source target gs target'\<close>: the grants \<open>gs\<close> name capabilities of the source
  table and were installed, on top of \<open>target\<close>, under fresh handles of \<open>target'\<close>.
\<close>

definition staged ::
  "handle_table \<Rightarrow> handle_table \<Rightarrow> staged_handle_grant list \<Rightarrow> handle_table \<Rightarrow> bool" where
  "staged source target gs target' \<longleftrightarrow>
     table_wf target' \<and> distinct (map sg_target gs)
     \<and> (\<forall>g \<in> set gs. table_cap source (sg_source g) \<noteq> None \<and> \<not> table_issued target (sg_target g))
     \<and> table_cap target' =
         table_cap target ++ map_of (map (\<lambda>g. (sg_target g, the (table_cap source (sg_source g)))) gs)
     \<and> table_caps target' =
         table_caps target + mset (map (\<lambda>g. the (table_cap source (sg_source g))) gs)
     \<and> (\<forall>k. table_issued target' k \<longleftrightarrow> table_issued target k \<or> k \<in> sg_target ` set gs)"

declare table_cap_eq_None_iff [simp del]

lemma drop_each_rollback: "drop_each rollback_grant t gs = drop_each close t (map sg_target gs)"
  by (induction gs arbitrary: t)
    (auto simp: rollback_grant_def close_def split: prod.splits sum.splits)

lemma drop_each_commit:
  "drop_each commit_grant t gs = drop_each close t (map sg_source (filter sg_transfer gs))"
  by (induction gs arbitrary: t)
    (auto simp: commit_grant_def close_def split: prod.splits sum.splits)

lemma staged_Nil [simp]: "table_wf t \<Longrightarrow> staged src t [] t"
  by (simp add: staged_def)

lemma staged_snoc:
  assumes "table_wf src" and "staged src t gs t1" and "stage_grant_to grow src t1 h tr = (Inr g, t2)"
  shows "staged src t (gs @ [g]) t2" and "sg_source g = h" and "sg_transfer g = tr"
    and "table_cap src h \<noteq> None"
proof -
  have wf1: "table_wf t1" using assms(2) by (simp add: staged_def)
  from assms(3) obtain e where e: "table_lookup src h = Some e"
    and ins: "insert_entry grow t1 e = (Inr (sg_target g), t2)"
    and g: "sg_source g = h" "sg_transfer g = tr"
    by (auto simp: stage_grant_to_def get_lookup [OF assms(1)] clone_entry_lookup [OF assms(1)] Let_def
        split: option.splits if_splits prod.splits sum.splits)
  note laws = cap_tab.put_inv [OF wf1 ins] cap_tab.put_fresh [OF wf1 ins]
    cap_tab.put_lookup [OF wf1 ins] cap_tab.put_caps [OF wf1 ins]
  have iss: "table_issued t2 k \<longleftrightarrow> table_issued t1 k \<or> k = sg_target g" for k
    using cap_tab.put_issued [OF wf1 ins] .
  have c: "the (table_cap src (sg_source g)) = capability_of e" using e g by (simp add: table_cap_def)
  have "sg_target g \<notin> sg_target ` set gs"
    using laws(2) assms(2) by (auto simp: staged_def)
  moreover have "table_cap t2 = table_cap t ++
      map_of (map (\<lambda>g. (sg_target g, the (table_cap src (sg_source g)))) (gs @ [g]))"
  proof -
    let ?m = "map_of (map (\<lambda>g. (sg_target g, the (table_cap src (sg_source g)))) gs)"
    have "sg_target g \<notin> dom ?m" using calculation by (simp add: dom_map_of_conv_image_fst image_image)
    then show ?thesis
      using laws(3) assms(2) c by (auto simp: staged_def map_add_def fun_eq_iff split: option.splits)
  qed
  ultimately show "staged src t (gs @ [g]) t2"
    using assms(2) laws(1,2,4) iss e g c by (auto simp: staged_def table_cap_def)
  show "sg_source g = h" "sg_transfer g = tr" "table_cap src h \<noteq> None"
    using g e by (auto simp: table_cap_def)
qed

text \<open>Rolling every staged grant back, in any order, restores the target as a map.\<close>

definition same_caps :: "handle_table \<Rightarrow> handle_table \<Rightarrow> bool" where
  "same_caps t t' \<longleftrightarrow> table_wf t' \<and> table_cap t' = table_cap t \<and> table_caps t' = table_caps t
     \<and> (\<forall>k. table_issued t k \<longrightarrow> table_issued t' k)"

lemma same_caps_refl [simp]: "table_wf t \<Longrightarrow> same_caps t t"
  by (simp add: same_caps_def)

lemma staged_live:
  "staged src t gs t' \<Longrightarrow> g \<in> set gs \<Longrightarrow>
     table_cap t' (sg_target g) = Some (the (table_cap src (sg_source g)))"
proof -
  assume st: "staged src t gs t'" and g: "g \<in> set gs"
  let ?ps = "map (\<lambda>g. (sg_target g, the (table_cap src (sg_source g)))) gs"
  have "distinct (map fst ?ps)" using st by (simp add: staged_def comp_def)
  then have "map_of ?ps (sg_target g) = Some (the (table_cap src (sg_source g)))"
    using g by (intro map_of_is_SomeI) auto
  with st show ?thesis by (simp add: staged_def map_add_def)
qed

lemma staged_rollback:
  assumes "table_wf t" and "staged src t gs t1"
  shows "\<exists>t2. drop_each rollback_grant t1 (rev gs) = (Inr (), t2) \<and> same_caps t t2"
proof -
  let ?hs = "map sg_target (rev gs)"
  have wf1: "table_wf t1" and d: "distinct ?hs" using assms(2) by (auto simp: staged_def rev_map [symmetric])
  have live: "table_cap t1 h \<noteq> None" if h: "h \<in> set ?hs" for h
  proof -
    from h obtain g where "g \<in> set gs" "h = sg_target g" by auto
    with staged_live [OF assms(2) this(1)] show ?thesis by simp
  qed
  from cap_tab.drop_each_live [OF wf1 d live] obtain t2 where t2:
    "drop_each close t1 ?hs = (Inr (), t2)" "table_wf t2"
    "table_cap t2 = (\<lambda>k. if k \<in> set ?hs then None else table_cap t1 k)"
    "table_caps t1 = mset (map (\<lambda>h. the (table_cap t1 h)) ?hs) + table_caps t2"
    "table_issued t2 = table_issued t1"
    by blast
  have fresh: "table_cap t (sg_target g) = None" if "g \<in> set gs" for g
    using that assms table_lookup_issued [OF assms(1)]
    by (cases "table_lookup t (sg_target g)") (auto simp: staged_def table_cap_eq_None_iff)
  have "table_cap t2 = table_cap t"
  proof
    fix k
    show "table_cap t2 k = table_cap t k"
    proof (cases "k \<in> sg_target ` set gs")
      case True
      then show ?thesis using t2(3) fresh by auto
    next
      case False
      then have "map_of (map (\<lambda>g. (sg_target g, the (table_cap src (sg_source g)))) gs) k = None"
        by (auto simp: map_of_eq_None_iff)
      with False t2(3) assms(2) show ?thesis by (auto simp: staged_def map_add_def)
    qed
  qed
  moreover have "mset (map (\<lambda>h. the (table_cap t1 h)) ?hs) =
      mset (map (\<lambda>g. the (table_cap src (sg_source g))) gs)"
  proof -
    have "map (\<lambda>h. the (table_cap t1 h)) ?hs = map (\<lambda>g. the (table_cap src (sg_source g))) (rev gs)"
      using staged_live [OF assms(2)] by auto
    then have "mset (map (\<lambda>h. the (table_cap t1 h)) ?hs) =
        mset (map (\<lambda>g. the (table_cap src (sg_source g))) (rev gs))" by (rule arg_cong)
    also have "\<dots> = mset (map (\<lambda>g. the (table_cap src (sg_source g))) gs)"
      by (simp flip: rev_map)
    finally show ?thesis .
  qed
  ultimately have "same_caps t t2"
    using t2 assms(2) by (auto simp: same_caps_def staged_def)
  with t2(1) show ?thesis by (auto simp: drop_each_rollback rev_map)
qed

lemma commit_staged:
  assumes "table_wf src" and "distinct (map sg_source (filter sg_transfer gs))"
    and "\<And>g. g \<in> set gs \<Longrightarrow> table_cap src (sg_source g) \<noteq> None"
  shows "\<exists>src'. drop_each commit_grant src gs = (Inr (), src') \<and> table_wf src'
    \<and> table_caps src = table_caps src' +
        mset (map (\<lambda>g. the (table_cap src (sg_source g))) (filter sg_transfer gs))
    \<and> table_cap src' =
        (\<lambda>k. if k \<in> sg_source ` {g \<in> set gs. sg_transfer g} then None else table_cap src k)"
proof -
  let ?hs = "map sg_source (filter sg_transfer gs)"
  have live: "table_cap src h \<noteq> None" if "h \<in> set ?hs" for h
    using that assms(3) by auto
  from cap_tab.drop_each_live [OF assms(1,2) live] show ?thesis
    unfolding drop_each_commit by (auto simp: comp_def add.commute)
qed

lemma stage_grant_error: "stage_grant_to grow src t h tr = (Inl e, t') \<Longrightarrow> t' = t"
  using insert_entry_error
  by (fastforce simp: stage_grant_to_def Let_def split: sum.splits if_splits prod.splits)

text \<open>One staged argument, on top of what is already staged.\<close>

lemma stage_process_arg_ok:
  assumes "table_wf src" and "staged src t gs t1"
    and "stage_process_arg grow src t1 raw tr = (Inr (a, go), t2)"
  shows "staged src t (gs @ List.map_filter id [go]) t2"
    and "case go of
        None \<Rightarrow> a = raw \<and> arg_grant src raw = None
      | Some g \<Rightarrow> raw \<noteq> 0 \<and> a = ucast (sg_target g) \<and> sg_source g = ucast raw \<and> sg_transfer g = tr
          \<and> arg_grant src raw = Some (the (table_cap src (sg_source g)))"
proof -
  consider (zero) "raw = 0" "a = 0" "go = None" "t2 = t1"
    | (int) "raw \<noteq> 0" "get src (ucast raw) = Inl OE_BadHandle" "a = raw" "go = None" "t2 = t1"
    | (grant) g where "raw \<noteq> 0" "stage_grant_to grow src t1 (ucast raw) tr = (Inr g, t2)"
        "a = ucast (sg_target g)" "go = Some g"
    using assms(3)
    by (auto simp: stage_process_arg_def Let_def split: if_splits prod.splits sum.splits)
  then have "staged src t (gs @ List.map_filter id [go]) t2 \<and> (case go of
        None \<Rightarrow> a = raw \<and> arg_grant src raw = None
      | Some g \<Rightarrow> raw \<noteq> 0 \<and> a = ucast (sg_target g) \<and> sg_source g = ucast raw \<and> sg_transfer g = tr
          \<and> arg_grant src raw = Some (the (table_cap src (sg_source g))))"
  proof cases
    case zero
    with assms(2) show ?thesis by (simp add: arg_grant_def List.map_filter_def)
  next
    case int
    with assms(2) show ?thesis
      by (auto simp: arg_grant_def List.map_filter_def get_lookup [OF assms(1)]
          table_cap_eq_None_iff split: option.splits)
  next
    case (grant g)
    from staged_snoc [OF assms(1,2) grant(2)] grant show ?thesis
      by (auto simp: arg_grant_def List.map_filter_def)
  qed
  then show "staged src t (gs @ List.map_filter id [go]) t2" "case go of
        None \<Rightarrow> a = raw \<and> arg_grant src raw = None
      | Some g \<Rightarrow> raw \<noteq> 0 \<and> a = ucast (sg_target g) \<and> sg_source g = ucast raw \<and> sg_transfer g = tr
          \<and> arg_grant src raw = Some (the (table_cap src (sg_source g)))"
    by auto
qed

lemma stage_process_arg_error:
  "stage_process_arg grow src t raw tr = (Inl e, t') \<Longrightarrow> t' = t"
  by (auto simp: stage_process_arg_def Let_def dest: stage_grant_error
      split: if_splits prod.splits sum.splits)

lemma stage_both_error:
  assumes "table_wf src" and "table_wf t" and "stage_both grow src t arg arg2 flags = (Inl e, t')"
  shows "same_caps t t'"
proof (cases "stage_process_arg grow src t arg (run_flags_contains flags RUN_TRANSFER_ARG)")
  case (Pair r t1)
  show ?thesis
  proof (cases r)
    case (Inl e')
    with Pair assms show ?thesis by (auto simp: stage_both_def dest: stage_process_arg_error)
  next
    case (Inr p)
    obtain a go where p: "p = (a, go)" by fastforce
    note st = stage_process_arg_ok(1) [OF assms(1) staged_Nil [OF assms(2)] Pair [unfolded Inr p]]
    from staged_rollback [OF assms(2) st] Pair Inr p assms(3) show ?thesis
      by (auto simp: stage_both_def rollback_process_grants_def dest!: stage_process_arg_error
          split: prod.splits sum.splits)
  qed
qed

lemma stage_both_ok:
  assumes "table_wf src" and "table_wf t" and "stage_both grow src t arg arg2 flags = (Inr (a, a2, gs), t')"
  shows "\<exists>first second. gs = [first, second] \<and> staged src t (List.map_filter id gs) t'
    \<and> (case first of
        None \<Rightarrow> a = arg \<and> arg_grant src arg = None
      | Some g \<Rightarrow> arg \<noteq> 0 \<and> a = ucast (sg_target g) \<and> sg_source g = ucast arg
          \<and> sg_transfer g = run_flags_contains flags RUN_TRANSFER_ARG
          \<and> arg_grant src arg = Some (the (table_cap src (sg_source g))))
    \<and> (case second of
        None \<Rightarrow> a2 = arg2 \<and> arg_grant src arg2 = None
      | Some g \<Rightarrow> arg2 \<noteq> 0 \<and> a2 = ucast (sg_target g) \<and> sg_source g = ucast arg2
          \<and> sg_transfer g = run_flags_contains flags RUN_TRANSFER_ARG2
          \<and> arg_grant src arg2 = Some (the (table_cap src (sg_source g))))"
proof -
  from assms(3) obtain first t1 second where
    st: "stage_process_arg grow src t arg (run_flags_contains flags RUN_TRANSFER_ARG) = (Inr (a, first), t1)"
    "stage_process_arg grow src t1 arg2 (run_flags_contains flags RUN_TRANSFER_ARG2) = (Inr (a2, second), t')"
    and gs: "gs = [first, second]"
    by (auto simp: stage_both_def split: prod.splits sum.splits)
  note s1 = stage_process_arg_ok [OF assms(1) staged_Nil [OF assms(2)] st(1)]
  note s2 = stage_process_arg_ok [OF assms(1) s1(1) st(2)]
  have "List.map_filter id gs = ([] @ List.map_filter id [first]) @ List.map_filter id [second]"
    by (simp add: gs List.map_filter_def)
  with s1(2) s2 gs show ?thesis by auto
qed

definition opt_mset :: "'a option \<Rightarrow> 'a multiset" where
  "opt_mset o' = (case o' of None \<Rightarrow> {#} | Some x \<Rightarrow> {#x#})"

definition delivered :: "handle_table \<Rightarrow> handle_table \<Rightarrow> u64 \<Rightarrow> u64 \<Rightarrow> bool" where
  "delivered source child raw a =
     (case arg_grant source raw of
        None \<Rightarrow> a = raw
      | Some c \<Rightarrow> table_cap child (ucast a) = Some c)"

text \<open>The two transfer-marked arguments do not name the same 32-bit handle.\<close>

definition no_alias :: "process_run_flags \<Rightarrow> u64 \<Rightarrow> u64 \<Rightarrow> bool" where
  "no_alias flags arg arg2 =
     (\<not> (run_flags_contains flags RUN_TRANSFER_ARG \<and> run_flags_contains flags RUN_TRANSFER_ARG2
         \<and> arg \<noteq> 0 \<and> arg2 \<noteq> 0 \<and> (ucast arg :: handle) = ucast arg2))"

definition moved :: "handle_table \<Rightarrow> u64 \<Rightarrow> bool \<Rightarrow> capability multiset" where
  "moved source raw transfer = (if transfer then opt_mset (arg_grant source raw) else {#})"

lemma staged_both_summary:
  assumes "table_wf src" and "table_wf t" and "no_alias flags arg arg2"
    and "stage_both grow src t arg arg2 flags = (Inr (a, a2, gs), t')"
  shows "table_wf t' \<and> table_caps t' = table_caps t + opt_mset (arg_grant src arg) + opt_mset (arg_grant src arg2)
    \<and> delivered src t' arg a \<and> delivered src t' arg2 a2
    \<and> (\<exists>src'. commit_process_grants src gs = (Inr (), src') \<and> table_wf src'
        \<and> table_caps src = table_caps src'
            + moved src arg (run_flags_contains flags RUN_TRANSFER_ARG)
            + moved src arg2 (run_flags_contains flags RUN_TRANSFER_ARG2))
    \<and> (\<exists>t''. rollback_process_grants t' gs = (Inr (), t'') \<and> same_caps t t'')"
proof -
  from stage_both_ok [OF assms(1,2,4)] obtain first second where
    gs: "gs = [first, second]" and st: "staged src t (List.map_filter id gs) t'"
    and f: "case first of
        None \<Rightarrow> a = arg \<and> arg_grant src arg = None
      | Some g \<Rightarrow> arg \<noteq> 0 \<and> a = ucast (sg_target g) \<and> sg_source g = ucast arg
          \<and> sg_transfer g = run_flags_contains flags RUN_TRANSFER_ARG
          \<and> arg_grant src arg = Some (the (table_cap src (sg_source g)))"
    and s: "case second of
        None \<Rightarrow> a2 = arg2 \<and> arg_grant src arg2 = None
      | Some g \<Rightarrow> arg2 \<noteq> 0 \<and> a2 = ucast (sg_target g) \<and> sg_source g = ucast arg2
          \<and> sg_transfer g = run_flags_contains flags RUN_TRANSFER_ARG2
          \<and> arg_grant src arg2 = Some (the (table_cap src (sg_source g)))"
    by blast
  let ?gs = "List.map_filter id gs"
  have live: "table_cap src (sg_source g) \<noteq> None" if "g \<in> set ?gs" for g
    using st that by (auto simp: staged_def)
  have dis: "distinct (map sg_source (filter sg_transfer ?gs))"
    using f s assms(3) by (auto simp: gs List.map_filter_def no_alias_def split: option.splits)
  have "table_wf t'" using st by (simp add: staged_def)
  moreover have "table_caps t' = table_caps t + opt_mset (arg_grant src arg) + opt_mset (arg_grant src arg2)"
    using st f s
    by (auto simp: staged_def gs List.map_filter_def opt_mset_def split: option.splits)
  moreover have "delivered src t' arg a" "delivered src t' arg2 a2"
    using f s staged_live [OF st]
    by (auto simp: delivered_def gs List.map_filter_def ucast_up_ucast_id is_up split: option.splits)
  moreover have "moved src arg (run_flags_contains flags RUN_TRANSFER_ARG)
      + moved src arg2 (run_flags_contains flags RUN_TRANSFER_ARG2)
      = mset (map (\<lambda>g. the (table_cap src (sg_source g))) (filter sg_transfer ?gs))"
    using f s
    by (auto simp: gs List.map_filter_def moved_def opt_mset_def split: option.splits)
  ultimately show ?thesis
    using commit_staged [OF assms(1) dis live] staged_rollback [OF assms(2) st]
    by (auto simp: commit_process_grants_def rollback_process_grants_def add.assoc)
qed

section \<open>Properties\<close>

text \<open>
  C14: the blocking \<open>ProcessRun\<close> path is a transaction on the two handle tables. For
  well-formed tables, and provided the two arguments marked for transfer do not name the same
  32-bit handle, a refusal at any stage (bad handle, no address space, no capacity, no heap,
  a staging error, a failed thread creation) leaves the caller's table exactly as it was and
  the child's table with the same handles and capabilities; a success gives the child exactly
  the capabilities its arguments name, under the handles it is started with, and takes from
  the caller exactly those marked for transfer.
\<close>

theorem prepare_sora_child_atomic:
  assumes "table_wf sora" and "table_wf child" and "no_alias flags arg arg2"
    and "prepare_sora_child grow procs capacity heap_ready thread_ok sora child ph arg arg2 flags =
      (r, sora', child')"
  shows "case r of
      Inl e \<Rightarrow> sora' = sora \<and> same_caps child child'
    | Inr (a, a2) \<Rightarrow> table_wf sora' \<and> table_wf child'
        \<and> table_caps child' = table_caps child
            + opt_mset (arg_grant sora arg) + opt_mset (arg_grant sora arg2)
        \<and> table_caps sora = table_caps sora'
            + moved sora arg (run_flags_contains flags RUN_TRANSFER_ARG)
            + moved sora arg2 (run_flags_contains flags RUN_TRANSFER_ARG2)
        \<and> delivered sora child' arg a \<and> delivered sora child' arg2 a2"
proof (cases "stage_both grow sora child arg arg2 flags")
  case (Pair q child1)
  show ?thesis
  proof (cases q)
    case (Inl e)
    from stage_both_error [OF assms(1,2) Pair [unfolded Inl]] assms(2,4) Pair Inl show ?thesis
      by (auto simp: prepare_sora_child_def split: sum.splits option.splits if_splits)
  next
    case (Inr p)
    obtain a a2 gs where p: "p = (a, a2, gs)" by (cases p)
    from staged_both_summary [OF assms(1-3) Pair [unfolded Inr p]] assms(2,4) Pair Inr p
    show ?thesis
      by (auto simp: prepare_sora_child_def split: sum.splits option.splits if_splits)
  qed
qed


text \<open>
  A caller that holds a process handle (1) and one transferable, non-duplicable capability
  (2), and an empty child.
\<close>

definition sample_caller :: handle_table where
  "sample_caller = \<lparr>ht_entries =
     [\<lparr>oh_entry = \<lparr>he_handle = 1, he_koid = 5, he_kind = Process, he_rights = RIGHT_WRITE\<rparr>,
       oh_reference = None\<rparr>,
      \<lparr>oh_entry = \<lparr>he_handle = 2, he_koid = 9, he_kind = Resource, he_rights = RIGHT_TRANSFER\<rparr>,
       oh_reference = None\<rparr>], ht_next_handle = 3\<rparr>"

definition sample_procs :: "ko_id \<Rightarrow> u64 option option" where
  "sample_procs k = (if k = 5 then Some (Some 4096) else None)"

lemma sample_caller_wf: "table_wf sample_caller"
  by (auto simp: sample_caller_def table_wf_def table_issued_def word_less_nat_alt)

lemmas grant_eval = prepare_sora_child_def dispatch_process_run_def stage_both_def
  commit_process_grants_def rollback_process_grants_def require_def get_def clone_entry_def
  sample_procs_def List.map_filter_def stage_process_arg_def stage_grant_to_def remove_nth_def
  commit_grant_def rollback_grant_def remove_def rights_contains_def mask_contains_def right_defs
  run_flag_defs run_flags_contains_def duplicate_transfer_def insert_entry_def insert_parts_def
  reserve_insert_def checked_add_def handle_table_new_def Let_def position_def sample_caller_def
  INVALID_HANDLE_def binary_search_by_key_def bsearch_base.simps



theorem prepare_sora_child_atomic_witness:
  "\<exists>child'. prepare_sora_child (\<lambda>_. True) sample_procs True True False sample_caller
      handle_table_new 1 2 77 RUN_TRANSFER_ARG = (Inl E_NoMemory, sample_caller, child')
    \<and> same_caps handle_table_new child'"
proof -
  let ?child = "\<lparr>ht_entries = [], ht_next_handle = 2\<rparr>"
  have run: "prepare_sora_child (\<lambda>_. True) sample_procs True True False sample_caller
      handle_table_new 1 2 77 RUN_TRANSFER_ARG = (Inl E_NoMemory, sample_caller, ?child)"
    by (simp add: grant_eval)
  have "no_alias RUN_TRANSFER_ARG 2 77"
    by (simp add: no_alias_def run_flag_defs run_flags_contains_def)
  from prepare_sora_child_atomic [OF sample_caller_wf table_wf_new this run] run
  show ?thesis by auto
qed


end
