(* ===== verification/Sched_Spec.thy ===== *)
theory Sched_Spec
  imports Kumo_Prelude
begin

text \<open>
  The Scheduler Framework Interface (\<open>trait SchedClass\<close> of \<open>kernel/src/sched.rs\<close>) as
  contracts. \<open>sched_class\<close> is what the dispatcher may rely on for every class: the emptiness
  test, the peek and the pick agree. \<open>fifo_class\<close> extends it with the promise of a
  strict-priority class: the abstract state is one FIFO per priority, and a pick takes the
  head of the most urgent non-empty one.
\<close>

type_synonym thread_id = u64
type_synonym priority = u8

text \<open>The ready threads with their priorities, as a multiset.\<close>

definition ready_total :: "(priority \<Rightarrow> thread_id list) \<Rightarrow> (priority \<times> thread_id) multiset" where
  "ready_total rd = (\<Sum>p \<in> UNIV. mset (map (Pair p) (rd p)))"

lemma sum_fun_upd:
  fixes f :: "priority \<Rightarrow> 'm multiset"
  shows "(\<Sum>p \<in> UNIV. (f(q := x)) p) + f q = (\<Sum>p \<in> UNIV. f p) + x"
proof -
  have "(\<Sum>p \<in> UNIV. (f(q := x)) p) = x + (\<Sum>p \<in> UNIV - {q}. f p)"
    by (subst sum.remove [of _ q]) (auto intro: sum.cong)
  moreover have "(\<Sum>p \<in> UNIV. f p) = f q + (\<Sum>p \<in> UNIV - {q}. f p)"
    by (rule sum.remove) auto
  ultimately show ?thesis by (simp add: ac_simps)
qed

lemma ready_total_upd:
  "ready_total (rd(q := ts)) + mset (map (Pair q) (rd q)) = ready_total rd + mset (map (Pair q) ts)"
proof -
  let ?f = "\<lambda>p. mset (map (Pair p) (rd p))"
  have "mset (map (Pair p) ((rd(q := ts)) p)) = (?f(q := mset (map (Pair q) ts))) p" for p
    by simp
  then have "ready_total (rd(q := ts)) = (\<Sum>p \<in> UNIV. (?f(q := mset (map (Pair q) ts))) p)"
    unfolding ready_total_def by (rule sum.cong [OF refl])
  then show ?thesis
    unfolding ready_total_def [of rd] using sum_fun_upd [of ?f q "mset (map (Pair q) ts)"] by (simp only:)
qed

locale sched_class =
  fixes inv :: "'c \<Rightarrow> bool"
    and enqueue :: "'c \<Rightarrow> thread_id \<Rightarrow> priority \<Rightarrow> 'c"
    and dequeue :: "'c \<Rightarrow> thread_id \<Rightarrow> priority \<Rightarrow> bool \<times> 'c"
    and pick_next :: "'c \<Rightarrow> thread_id option \<times> 'c"
    and peek_top :: "'c \<Rightarrow> priority option"
    and is_empty :: "'c \<Rightarrow> bool"
  assumes inv_enqueue: "inv c \<Longrightarrow> inv (enqueue c t p)"
    and inv_dequeue: "inv c \<Longrightarrow> inv (snd (dequeue c t p))"
    and inv_pick: "inv c \<Longrightarrow> inv (snd (pick_next c))"
    and empty_iff: "inv c \<Longrightarrow> is_empty c \<longleftrightarrow> peek_top c = None"
    and pick_None_iff: "inv c \<Longrightarrow> fst (pick_next c) = None \<longleftrightarrow> peek_top c = None"
    and pick_None_same: "inv c \<Longrightarrow> fst (pick_next c) = None \<Longrightarrow> snd (pick_next c) = c"
    and enqueue_nonempty: "inv c \<Longrightarrow> \<not> is_empty (enqueue c t p)"
    and dequeue_absent: "inv c \<Longrightarrow> \<not> fst (dequeue c t p) \<Longrightarrow> snd (dequeue c t p) = c"
begin

lemma pick_after_peek:
  assumes "inv c" and "peek_top c = Some p"
  obtains t c' where "pick_next c = (Some t, c')" and "inv c'"
  using assms pick_None_iff [OF assms(1)] inv_pick [OF assms(1)] by (cases "pick_next c") auto

lemma pick_empty:
  "inv c \<Longrightarrow> peek_top c = None \<Longrightarrow> pick_next c = (None, c)"
  using pick_None_iff [of c] pick_None_same [of c] by (cases "pick_next c") auto

lemma peek_after_enqueue: "inv c \<Longrightarrow> \<exists>q. peek_top (enqueue c t p) = Some q"
  using empty_iff [of "enqueue c t p"] enqueue_nonempty [of c t p] inv_enqueue [of c t p] by auto

end

locale fifo_class = sched_class +
  fixes ready :: "'a \<Rightarrow> priority \<Rightarrow> thread_id list"
  assumes ready_enqueue: "inv c \<Longrightarrow> ready (enqueue c t p) = (ready c)(p := ready c p @ [t])"
    and peek_Some_iff: "inv c \<Longrightarrow> peek_top c = Some p \<longleftrightarrow> ready c p \<noteq> [] \<and> (\<forall>q < p. ready c q = [])"
    and pick_head: "inv c \<Longrightarrow> peek_top c = Some p \<Longrightarrow> fst (pick_next c) = Some (hd (ready c p))"
    and pick_rest: "inv c \<Longrightarrow> peek_top c = Some p \<Longrightarrow>
      ready (snd (pick_next c)) = (ready c)(p := tl (ready c p))"
    and dequeue_found: "inv c \<Longrightarrow> fst (dequeue c t p) \<longleftrightarrow> t \<in> set (ready c p)"
    and dequeue_ready: "inv c \<Longrightarrow> ready (snd (dequeue c t p)) = (ready c)(p := remove1 t (ready c p))"
begin

lemma total_enqueue:
  "inv c \<Longrightarrow> ready_total (ready (enqueue c t p)) = add_mset (p, t) (ready_total (ready c))"
  using ready_total_upd [of "ready c" p "ready c p @ [t]"] by (simp add: ready_enqueue)

lemma total_pick:
  assumes "inv c" and "peek_top c = Some p"
  shows "ready_total (ready c) =
    add_mset (p, hd (ready c p)) (ready_total (ready (snd (pick_next c))))"
proof -
  have "ready c p \<noteq> []" using assms by (simp add: peek_Some_iff)
  then obtain t ts where "ready c p = t # ts" by (cases "ready c p") auto
  then show ?thesis using ready_total_upd [of "ready c" p ts] by (simp add: pick_rest [OF assms])
qed

lemma peek_None_iff: "inv c \<Longrightarrow> peek_top c = None \<longleftrightarrow> (\<forall>p. ready c p = [])"
proof
  assume c: "inv c" and n: "peek_top c = None"
  show "\<forall>p. ready c p = []"
  proof (rule ccontr)
    assume "\<not> (\<forall>p. ready c p = [])"
    then obtain p where "ready c p \<noteq> []" "\<forall>q < p. ready c q = []"
      using exists_least_iff [of "\<lambda>p. ready c p \<noteq> []"] by auto
    then show False using peek_Some_iff [OF c, of p] n by simp
  qed
next
  assume "inv c" and "\<forall>p. ready c p = []"
  then show "peek_top c = None" by (auto simp: peek_Some_iff simp flip: not_Some_eq)
qed

end

end
