(* ===== verification/Sched_Class.thy ===== *)
theory Sched_Class
  imports Sched_Spec
begin

text \<open>
  The two scheduling classes of \<open>kernel/src/sched.rs\<close>. \<open>PriorityClass\<close> keeps one FIFO for
  each of 256 levels and a two-level bitmap of the non-empty ones; \<open>IdleClass\<close> is the floor
  that a pick does not consume. Both are interpreted as scheduling classes, the first one
  also as a strict-priority FIFO class.

  Level numbers and lengths (\<open>usize\<close>) are natural numbers. The decrement of \<open>len\<close> never
  underflows: \<open>len\<close> is the number of queued threads in every well-formed class.
\<close>

unbundle bit_operations_syntax

section \<open>The priority class\<close>

definition PRIORITY_LEVELS :: nat where "PRIORITY_LEVELS = 256"

record priority_class =
  pc_summary :: u64
  pc_words :: "u64 list"
  pc_queues :: "thread_id list list"
  pc_len :: nat

definition priority_class_new :: priority_class where
  "priority_class_new =
     \<lparr>pc_summary = 0, pc_words = replicate 4 0, pc_queues = replicate PRIORITY_LEVELS [],
      pc_len = 0\<rparr>"

definition set_bit_level :: "priority_class \<Rightarrow> nat \<Rightarrow> priority_class" where
  "set_bit_level c level =
     (let w = drop_bit 6 level; b = level AND 63 in
      c\<lparr>pc_words := (pc_words c)[w := pc_words c ! w OR push_bit b 1],
        pc_summary := pc_summary c OR push_bit w 1\<rparr>)"

definition clear_bit_level :: "priority_class \<Rightarrow> nat \<Rightarrow> priority_class" where
  "clear_bit_level c level =
     (let w = drop_bit 6 level; b = level AND 63;
          word = pc_words c ! w AND NOT (push_bit b 1);
          c' = c\<lparr>pc_words := (pc_words c)[w := word]\<rparr>
      in if word = 0 then c'\<lparr>pc_summary := pc_summary c AND NOT (push_bit w 1)\<rparr> else c')"

definition top_level :: "priority_class \<Rightarrow> nat option" where
  "top_level c =
     (if pc_summary c = 0 then None
      else let w = trailing_zeros (pc_summary c);
               b = trailing_zeros (pc_words c ! w)
           in Some (push_bit 6 w OR b))"

definition pc_enqueue :: "priority_class \<Rightarrow> thread_id \<Rightarrow> priority \<Rightarrow> priority_class" where
  "pc_enqueue c t prio =
     (let level = unat prio;
          c1 = c\<lparr>pc_queues := (pc_queues c)[level := pc_queues c ! level @ [t]]\<rparr>;
          c2 = set_bit_level c1 level
      in c2\<lparr>pc_len := pc_len c2 + 1\<rparr>)"

definition pc_dequeue :: "priority_class \<Rightarrow> thread_id \<Rightarrow> priority \<Rightarrow> bool \<times> priority_class" where
  "pc_dequeue c t prio =
     (let level = unat prio; q = pc_queues c ! level in
      case find_index (\<lambda>queued. queued = t) q of
        Some pos \<Rightarrow>
          let q' = remove_nth pos q;
              c1 = c\<lparr>pc_queues := (pc_queues c)[level := q']\<rparr>;
              c2 = (if q' = [] then clear_bit_level c1 level else c1)
          in (True, c2\<lparr>pc_len := pc_len c2 - 1\<rparr>)
      | None \<Rightarrow> (False, c))"

definition pc_pick_next :: "priority_class \<Rightarrow> thread_id option \<times> priority_class" where
  "pc_pick_next c =
     (case top_level c of
        None \<Rightarrow> (None, c)
      | Some level \<Rightarrow>
          let q = pc_queues c ! level;
              t = (case q of [] \<Rightarrow> None | x # _ \<Rightarrow> Some x);
              c1 = c\<lparr>pc_queues := (pc_queues c)[level := tl q]\<rparr>;
              c2 = (if tl q = [] then clear_bit_level c1 level else c1);
              c3 = (if t \<noteq> None then c2\<lparr>pc_len := pc_len c2 - 1\<rparr> else c2)
          in (t, c3))"

definition pc_peek_top :: "priority_class \<Rightarrow> priority option" where
  "pc_peek_top c = map_option of_nat (top_level c)"

definition pc_is_empty :: "priority_class \<Rightarrow> bool" where
  "pc_is_empty c = (pc_summary c = 0)"

section \<open>The idle class\<close>

record idle_class =
  ic_idle :: "thread_id option"

definition LOWEST :: priority where "LOWEST = 255"

definition idle_class_new :: idle_class where
  "idle_class_new = \<lparr>ic_idle = None\<rparr>"

definition ic_set :: "idle_class \<Rightarrow> thread_id \<Rightarrow> idle_class" where
  "ic_set c t = c\<lparr>ic_idle := Some t\<rparr>"

definition ic_enqueue :: "idle_class \<Rightarrow> thread_id \<Rightarrow> priority \<Rightarrow> idle_class" where
  "ic_enqueue c t prio = c\<lparr>ic_idle := Some t\<rparr>"

definition ic_dequeue :: "idle_class \<Rightarrow> thread_id \<Rightarrow> priority \<Rightarrow> bool \<times> idle_class" where
  "ic_dequeue c t prio = (if ic_idle c = Some t then (True, c\<lparr>ic_idle := None\<rparr>) else (False, c))"

definition ic_pick_next :: "idle_class \<Rightarrow> thread_id option \<times> idle_class" where
  "ic_pick_next c = (ic_idle c, c)"

definition ic_peek_top :: "idle_class \<Rightarrow> priority option" where
  "ic_peek_top c = map_option (\<lambda>_. LOWEST) (ic_idle c)"

definition ic_is_empty :: "idle_class \<Rightarrow> bool" where
  "ic_is_empty c = (ic_idle c = None)"

interpretation idle: sched_class "\<lambda>_. True" ic_enqueue ic_dequeue ic_pick_next ic_peek_top ic_is_empty
  by unfold_locales
    (auto simp: ic_enqueue_def ic_dequeue_def ic_pick_next_def ic_peek_top_def ic_is_empty_def
      split: if_splits)

section \<open>The bitmap\<close>

text \<open>
  Well-formed: the word bits mark exactly the non-empty levels, the summary bits mark
  exactly the non-zero words, and \<open>len\<close> counts the queued threads.
\<close>

definition bitmap_ok :: "priority_class \<Rightarrow> (nat \<Rightarrow> bool) \<Rightarrow> bool" where
  "bitmap_ok c full \<longleftrightarrow>
     length (pc_words c) = 4
     \<and> (\<forall>w < 4. \<forall>b < 64. bit (pc_words c ! w) b \<longleftrightarrow> full (64 * w + b))
     \<and> (\<forall>w. bit (pc_summary c) w \<longleftrightarrow> w < 4 \<and> pc_words c ! w \<noteq> 0)"

definition pc_wf :: "priority_class \<Rightarrow> bool" where
  "pc_wf c \<longleftrightarrow>
     length (pc_queues c) = PRIORITY_LEVELS
     \<and> bitmap_ok c (\<lambda>l. pc_queues c ! l \<noteq> [])
     \<and> pc_len c = sum_list (map length (pc_queues c))"

lemma level_split: "drop_bit 6 (l::nat) = l div 64" "l AND 63 = l mod 64"
proof -
  show "drop_bit 6 l = l div 64" by (simp add: drop_bit_eq_div)
  have "l AND mask 6 = take_bit 6 l" by (simp add: take_bit_eq_mask)
  then show "l AND 63 = l mod 64" by (simp add: take_bit_eq_mod mask_eq_exp_minus_1)
qed

lemma level_join: "b < 64 \<Longrightarrow> push_bit 6 w OR b = 64 * w + (b::nat)"
proof -
  assume b: "b < 64"
  have "push_bit 6 w AND b = 0"
  proof (rule bit_eqI)
    fix n
    have "\<not> bit b n" if "6 \<le> n"
    proof -
      have "(2::nat) ^ 6 \<le> 2 ^ n" using that by (rule power_increasing) simp
      with b have "b < 2 ^ n" by simp
      then show ?thesis by (simp add: bit_iff_odd)
    qed
    then show "bit (push_bit 6 w AND b) n = bit (0::nat) n" by (auto simp: bit_simps)
  qed
  then show ?thesis by (simp add: push_bit_eq_mult flip: disjunctive_add_eq_or)
qed

lemma level_coords:
  fixes l w b :: nat
  assumes "b < 64"
  shows "64 * w + b = l \<longleftrightarrow> w = l div 64 \<and> b = l mod 64"
  using assms by auto

lemma bitmap_set:
  assumes "bitmap_ok c full" and "l < 256"
  shows "bitmap_ok (set_bit_level c l) (full(l := True))"
proof -
  from assms(2) have w: "l div 64 < 4" by simp
  have m: "l mod 64 < 64" by simp
  let ?ws = "(pc_words c)[l div 64 := pc_words c ! (l div 64) OR 2 ^ (l mod 64)]"
  have len: "length (pc_words c) = 4" using assms(1) by (simp add: bitmap_ok_def)
  have word: "?ws ! v = (if v = l div 64 then pc_words c ! v OR 2 ^ (l mod 64) else pc_words c ! v)"
    if "v < 4" for v
    using that len by simp
  have bits: "bit (?ws ! v) b \<longleftrightarrow> (full(l := True)) (64 * v + b)" if "v < 4" "b < 64" for v b
  proof -
    have "bit (pc_words c ! v) b \<longleftrightarrow> full (64 * v + b)" using assms(1) that by (simp add: bitmap_ok_def)
    then show ?thesis
      using level_coords [OF that(2), of v l] word [OF that(1)] m by (auto simp: bit_set_exp)
  qed
  have "pc_words c ! (l div 64) OR 2 ^ (l mod 64) \<noteq> 0"
    using bit_set_exp [of "l mod 64" "pc_words c ! (l div 64)" "l mod 64"] by auto
  then have "bit (pc_summary c OR 2 ^ (l div 64)) v \<longleftrightarrow> v < 4 \<and> ?ws ! v \<noteq> 0" for v
    using assms(1) w by (cases "v < 4") (auto simp: bitmap_ok_def word bit_set_exp)
  with bits len show ?thesis
    unfolding bitmap_ok_def set_bit_level_def by (simp add: level_split Let_def)
qed

lemma bitmap_clear:
  assumes "bitmap_ok c full" and "l < 256"
  shows "bitmap_ok (clear_bit_level c l) (full(l := False))"
proof -
  from assms(2) have w: "l div 64 < 4" by simp
  let ?x = "pc_words c ! (l div 64) AND NOT (2 ^ (l mod 64))"
  let ?ws = "(pc_words c)[l div 64 := ?x]"
  have len: "length (pc_words c) = 4" using assms(1) by (simp add: bitmap_ok_def)
  have word: "?ws ! v = (if v = l div 64 then ?x else pc_words c ! v)" if "v < 4" for v
    using that len by simp
  have bits: "bit (?ws ! v) b \<longleftrightarrow> (full(l := False)) (64 * v + b)" if "v < 4" "b < 64" for v b
  proof -
    have "bit (pc_words c ! v) b \<longleftrightarrow> full (64 * v + b)" using assms(1) that by (simp add: bitmap_ok_def)
    then show ?thesis
      using level_coords [OF that(2), of v l] word [OF that(1)] by (auto simp: bit_clear_exp)
  qed
  have sum: "bit (pc_summary (clear_bit_level c l)) v \<longleftrightarrow>
      v < 4 \<and> (if v = l div 64 then ?x else pc_words c ! v) \<noteq> 0" for v
  proof (cases "?x = 0")
    case True
    then show ?thesis
      using assms(1) w by (auto simp: clear_bit_level_def level_split Let_def bitmap_ok_def bit_clear_exp)
  next
    case False
    then have "pc_words c ! (l div 64) \<noteq> 0" by auto
    with False show ?thesis
      using assms(1) w by (auto simp: clear_bit_level_def level_split Let_def bitmap_ok_def)
  qed
  have "pc_words (clear_bit_level c l) = ?ws"
    by (simp add: clear_bit_level_def level_split Let_def)
  moreover have "v < 4 \<and> ?ws ! v \<noteq> 0 \<longleftrightarrow>
      v < 4 \<and> (if v = l div 64 then ?x else pc_words c ! v) \<noteq> 0" for v
    using word by auto
  ultimately show ?thesis using bits len sum unfolding bitmap_ok_def by simp
qed

lemma bitmap_empty:
  assumes "bitmap_ok c full"
  shows "pc_summary c = 0 \<longleftrightarrow> (\<forall>l < 256. \<not> full l)"
proof -
  have "pc_summary c = 0 \<longleftrightarrow> (\<forall>w < 4. pc_words c ! w = 0)"
    using assms unfolding bitmap_ok_def by (auto simp: bit_eq_iff [of "pc_summary c"])
  also have "\<dots> \<longleftrightarrow> (\<forall>w < 4. \<forall>b < 64. \<not> full (64 * w + b))"
    using assms bit_imp_le_length by (auto simp: bitmap_ok_def bit_eq_iff [where b = "0::u64"])
  also have "\<dots> \<longleftrightarrow> (\<forall>l < 256. \<not> full l)"
  proof
    assume *: "\<forall>w < 4. \<forall>b < 64. \<not> full (64 * w + b)"
    show "\<forall>l < 256. \<not> full l"
    proof (intro allI impI)
      fix l :: nat assume "l < 256"
      with *[rule_format, of "l div 64" "l mod 64"] show "\<not> full l" by simp
    qed
  qed auto
  finally show ?thesis .
qed

lemma top_level_spec:
  assumes "bitmap_ok c full"
  shows "case top_level c of
      None \<Rightarrow> \<forall>l < 256. \<not> full l
    | Some l \<Rightarrow> l < 256 \<and> full l \<and> (\<forall>j < l. \<not> full j)"
proof (cases "pc_summary c = 0")
  case True
  with bitmap_empty [OF assms] show ?thesis by (simp add: top_level_def)
next
  case False
  let ?w = "trailing_zeros (pc_summary c)"
  let ?b = "trailing_zeros (pc_words c ! ?w)"
  have w: "?w < 4" "pc_words c ! ?w \<noteq> 0" and w0: "\<And>v. v < ?w \<Longrightarrow> pc_words c ! v = 0"
    using trailing_zeros_bit [OF False] assms by (auto simp: bitmap_ok_def)
  have b: "?b < 64" "bit (pc_words c ! ?w) ?b" and b0: "\<And>n. n < ?b \<Longrightarrow> \<not> bit (pc_words c ! ?w) n"
    using trailing_zeros_bit [OF w(2)] by auto
  have at: "full j \<longleftrightarrow> bit (pc_words c ! (j div 64)) (j mod 64)" if "j div 64 < 4" for j
    using assms that mult_div_mod_eq [of 64 j] by (simp add: bitmap_ok_def)
  have "\<not> full j" if "j < 64 * ?w + ?b" for j
  proof (cases "j div 64 = ?w")
    case True
    with that have "j mod 64 < ?b" by presburger
    with b0 True w show ?thesis by (simp add: at)
  next
    case False
    with that b have "j div 64 < ?w" by linarith
    with w0 w show ?thesis by (simp add: at)
  qed
  moreover have "full (64 * ?w + ?b)" using w b assms by (simp add: bitmap_ok_def)
  ultimately show ?thesis
    using False w b by (simp add: top_level_def Let_def level_join)
qed


section \<open>The priority class as a strict-priority FIFO class\<close>

definition pc_ready :: "priority_class \<Rightarrow> priority \<Rightarrow> thread_id list" where
  "pc_ready c p = pc_queues c ! unat p"

lemma unat_prio: "unat (p :: priority) < 256"
  using unat_u8_bound [of p] .

lemma pc_wf_new [simp]: "pc_wf priority_class_new"
proof -
  have "replicate 4 (0::u64) ! w = 0" if "w < 4" for w using that by simp
  moreover have "replicate 256 ([]::thread_id list) ! (64 * w + b) = []" if "w < 4" "b < 64" for w b
    using that by (subst nth_replicate) auto
  ultimately show ?thesis
    by (auto simp: pc_wf_def bitmap_ok_def priority_class_new_def PRIORITY_LEVELS_def
        sum_list_triv)
qed

lemma fields_set_bit [simp]:
  "pc_queues (set_bit_level c l) = pc_queues c" "pc_len (set_bit_level c l) = pc_len c"
  by (simp_all add: set_bit_level_def Let_def)

lemma fields_clear_bit [simp]:
  "pc_queues (clear_bit_level c l) = pc_queues c" "pc_len (clear_bit_level c l) = pc_len c"
  by (simp_all add: clear_bit_level_def Let_def)

lemma bitmap_ok_fields [simp]:
  "bitmap_ok (c\<lparr>pc_queues := qs\<rparr>) full = bitmap_ok c full"
  "bitmap_ok (c\<lparr>pc_len := n\<rparr>) full = bitmap_ok c full"
  by (simp_all add: bitmap_ok_def)

lemma sum_list_map_update:
  "l < length xs \<Longrightarrow> sum_list (map f (xs[l := x])) + f (xs ! l) = sum_list (map f xs) + (f x :: nat)"
proof (induction xs arbitrary: l)
  case (Cons a xs)
  then show ?case by (cases l) auto
qed simp

lemma bitmap_ok_cong:
  "bitmap_ok c full \<Longrightarrow> (\<And>l. l < 256 \<Longrightarrow> full l = full' l) \<Longrightarrow> bitmap_ok c full'"
  by (auto simp: bitmap_ok_def)

text \<open>
  Replacing the queue of one level: the bitmap operation that fits the new queue restores
  the invariant.
\<close>

lemma pc_wf_replace:
  assumes "pc_wf c" and "l < 256" and "q' = [] \<Longrightarrow> c' = clear_bit_level c l"
    and "q' \<noteq> [] \<Longrightarrow> c' = set_bit_level c l \<or> (pc_queues c ! l \<noteq> [] \<and> c' = c)"
    and "n + length (pc_queues c ! l) = pc_len c + length q'"
  shows "pc_wf (c'\<lparr>pc_queues := (pc_queues c)[l := q'], pc_len := n\<rparr>)"
proof -
  let ?full = "\<lambda>k. pc_queues c ! k \<noteq> []"
  have len: "length (pc_queues c) = 256" and bm: "bitmap_ok c ?full"
    using assms(1) by (auto simp: pc_wf_def PRIORITY_LEVELS_def)
  have "bitmap_ok c' (?full(l := (q' \<noteq> [])))"
  proof (cases "q' = []")
    case True
    then show ?thesis using bitmap_clear [OF bm assms(2)] assms(3) by simp
  next
    case False
    then have "c' = set_bit_level c l \<or> (pc_queues c ! l \<noteq> [] \<and> c' = c)" using assms(4) by blast
    then show ?thesis
      using bitmap_set [OF bm assms(2)] bitmap_ok_cong [OF bm, of "?full(l := True)"] False by auto
  qed
  then have "bitmap_ok c' (\<lambda>k. (pc_queues c)[l := q'] ! k \<noteq> [])"
    by (rule bitmap_ok_cong) (use len assms(2) in \<open>auto simp: nth_list_update\<close>)
  moreover have "n = sum_list (map length ((pc_queues c)[l := q']))"
    using sum_list_map_update [of l "pc_queues c" length q'] len assms(1,2,5)
    by (simp add: pc_wf_def)
  ultimately show ?thesis using len by (simp add: pc_wf_def PRIORITY_LEVELS_def)
qed

lemma bit_level_commute:
  "set_bit_level (c\<lparr>pc_queues := qs\<rparr>) l = (set_bit_level c l)\<lparr>pc_queues := qs\<rparr>"
  "clear_bit_level (c\<lparr>pc_queues := qs\<rparr>) l = (clear_bit_level c l)\<lparr>pc_queues := qs\<rparr>"
  by (simp_all add: set_bit_level_def clear_bit_level_def Let_def)

lemma pc_enqueue_wf: "pc_wf c \<Longrightarrow> pc_wf (pc_enqueue c t p)"
  using pc_wf_replace [of c "unat p" "pc_queues c ! unat p @ [t]" "set_bit_level c (unat p)" "pc_len c + 1"]
    unat_prio [of p]
  by (simp add: pc_enqueue_def Let_def bit_level_commute)

lemma pc_queues_enqueue:
  "pc_queues (pc_enqueue c t p) = (pc_queues c)[unat p := pc_queues c ! unat p @ [t]]"
  by (simp add: pc_enqueue_def Let_def bit_level_commute)

lemma queue_le_len:
  assumes "pc_wf c" and "l < 256"
  shows "length (pc_queues c ! l) \<le> pc_len c"
proof -
  have "pc_queues c ! l \<in> set (pc_queues c)" using assms by (simp add: pc_wf_def PRIORITY_LEVELS_def)
  then have "length (pc_queues c ! l) \<le> sum_list (map length (pc_queues c))"
    by (intro member_le_sum_list) auto
  with assms(1) show ?thesis by (simp add: pc_wf_def)
qed

text \<open>Shrinking a non-empty level by one thread, as \<open>dequeue\<close> and \<open>pick_next\<close> do.\<close>

lemma pc_wf_shrink:
  assumes "pc_wf c" and "l < 256" and "length (pc_queues c ! l) = Suc (length q')"
  defines "c1 \<equiv> c\<lparr>pc_queues := (pc_queues c)[l := q']\<rparr>"
  defines "c2 \<equiv> (if q' = [] then clear_bit_level c1 l else c1)"
  shows "pc_wf (c2\<lparr>pc_len := pc_len c2 - 1\<rparr>)" and "pc_queues c2 = (pc_queues c)[l := q']"
proof -
  have "pc_wf ((if q' = [] then clear_bit_level c l else c)
      \<lparr>pc_queues := (pc_queues c)[l := q'], pc_len := pc_len c - 1\<rparr>)"
    by (rule pc_wf_replace) (use assms(1-3) queue_le_len [OF assms(1,2)] in auto)
  moreover have "c2\<lparr>pc_len := pc_len c2 - 1\<rparr> = (if q' = [] then clear_bit_level c l else c)
      \<lparr>pc_queues := (pc_queues c)[l := q'], pc_len := pc_len c - 1\<rparr>"
    by (simp add: c2_def c1_def bit_level_commute)
  ultimately show "pc_wf (c2\<lparr>pc_len := pc_len c2 - 1\<rparr>)" by simp
  show "pc_queues c2 = (pc_queues c)[l := q']" by (simp add: c2_def c1_def)
qed

lemma top_level_wf:
  assumes "pc_wf c"
  shows "case top_level c of
      None \<Rightarrow> \<forall>l < 256. pc_queues c ! l = []
    | Some l \<Rightarrow> l < 256 \<and> pc_queues c ! l \<noteq> [] \<and> (\<forall>j < l. pc_queues c ! j = [])"
  using top_level_spec [of c "\<lambda>l. pc_queues c ! l \<noteq> []"] assms
  by (simp add: pc_wf_def split: option.splits)

lemma remove_nth_find_index:
  "find_index (\<lambda>x. x = t) q = Some i \<Longrightarrow> remove_nth i q = remove1 t q"
  by (induction q arbitrary: i) (auto simp: remove_nth_def split: if_splits)

lemma pc_dequeue_cases:
  assumes "pc_wf c"
  shows "t \<notin> set (pc_ready c p) \<Longrightarrow> pc_dequeue c t p = (False, c)"
    and "t \<in> set (pc_ready c p) \<Longrightarrow> \<exists>c'. pc_dequeue c t p = (True, c') \<and> pc_wf c'
      \<and> pc_queues c' = (pc_queues c)[unat p := remove1 t (pc_ready c p)]"
proof -
  assume "t \<notin> set (pc_ready c p)"
  then have "find_index (\<lambda>x. x = t) (pc_queues c ! unat p) = None"
    by (auto simp: find_index_None_iff pc_ready_def)
  then show "pc_dequeue c t p = (False, c)" by (simp add: pc_dequeue_def)
next
  assume t: "t \<in> set (pc_ready c p)"
  then obtain i where i: "find_index (\<lambda>x. x = t) (pc_queues c ! unat p) = Some i"
    by (cases "find_index (\<lambda>x. x = t) (pc_queues c ! unat p)")
      (auto simp: find_index_None_iff pc_ready_def)
  have "length (pc_queues c ! unat p) = Suc (length (remove1 t (pc_queues c ! unat p)))"
    using t length_pos_if_in_set [of t "pc_queues c ! unat p"]
    by (simp add: pc_ready_def length_remove1)
  from pc_wf_shrink [OF assms unat_prio this] show "\<exists>c'. pc_dequeue c t p = (True, c') \<and> pc_wf c'
      \<and> pc_queues c' = (pc_queues c)[unat p := remove1 t (pc_ready c p)]"
    by (cases "remove1 t (pc_queues c ! unat p) = []")
      (simp_all add: pc_dequeue_def i remove_nth_find_index [OF i] Let_def pc_ready_def)
qed

lemma pc_pick_cases:
  assumes "pc_wf c"
  shows "top_level c = None \<Longrightarrow> pc_pick_next c = (None, c)"
    and "top_level c = Some l \<Longrightarrow> \<exists>c'. pc_pick_next c = (Some (hd (pc_queues c ! l)), c') \<and> pc_wf c'
      \<and> pc_queues c' = (pc_queues c)[l := tl (pc_queues c ! l)]"
proof -
  assume "top_level c = None"
  then show "pc_pick_next c = (None, c)" by (simp add: pc_pick_next_def)
next
  assume top: "top_level c = Some l"
  with top_level_wf [OF assms] obtain x xs where l: "l < 256" "pc_queues c ! l = x # xs"
    by (cases "pc_queues c ! l") auto
  then have "length (pc_queues c ! l) = Suc (length xs)" by simp
  from pc_wf_shrink [OF assms l(1) this] show "\<exists>c'. pc_pick_next c = (Some (hd (pc_queues c ! l)), c')
      \<and> pc_wf c' \<and> pc_queues c' = (pc_queues c)[l := tl (pc_queues c ! l)]"
    by (cases "xs = []") (simp_all add: pc_pick_next_def top l Let_def)
qed

lemma pc_peek_iff:
  assumes "pc_wf c"
  shows "pc_peek_top c = Some p \<longleftrightarrow> top_level c = Some (unat p)"
    and "pc_peek_top c = None \<longleftrightarrow> top_level c = None"
proof -
  have "l < 256" if "top_level c = Some l" for l using top_level_wf [OF assms] that by simp
  then show "pc_peek_top c = Some p \<longleftrightarrow> top_level c = Some (unat p)"
    by (cases "top_level c") (auto simp: pc_peek_top_def unat_of_nat word_unat_eq_iff)
  show "pc_peek_top c = None \<longleftrightarrow> top_level c = None" by (simp add: pc_peek_top_def)
qed

lemma pc_ready_update:
  assumes "pc_wf c" and "pc_queues c' = (pc_queues c)[unat p := ts]"
  shows "pc_ready c' = (pc_ready c)(p := ts)"
proof
  fix q :: priority
  show "pc_ready c' q = ((pc_ready c)(p := ts)) q"
    using assms unat_prio [of q] unat_prio [of p]
    by (auto simp: pc_ready_def pc_wf_def PRIORITY_LEVELS_def nth_list_update word_unat_eq_iff)
qed

lemma pc_ready_all: "(\<forall>l < 256. pc_queues c ! l = []) \<longleftrightarrow> (\<forall>p. pc_ready c p = [])"
proof
  assume *: "\<forall>p. pc_ready c p = []"
  show "\<forall>l < 256. pc_queues c ! l = []"
  proof (intro allI impI)
    fix l :: nat assume "l < 256"
    then have "unat (of_nat l :: priority) = l" by (simp add: unat_of_nat)
    then show "pc_queues c ! l = []" using *[rule_format, of "of_nat l"] by (simp add: pc_ready_def)
  qed
qed (use unat_prio in \<open>simp add: pc_ready_def\<close>)

lemma pc_below_all: "(\<forall>j < unat p. pc_queues c ! j = []) \<longleftrightarrow> (\<forall>q < p. pc_ready c q = [])"
proof
  assume *: "\<forall>q < p. pc_ready c q = []"
  show "\<forall>j < unat p. pc_queues c ! j = []"
  proof (intro allI impI)
    fix j assume j: "j < unat p"
    then have "unat (of_nat j :: priority) = j" using unat_prio [of p] by (simp add: unat_of_nat)
    then show "pc_queues c ! j = []"
      using j *[rule_format, of "of_nat j"] by (simp add: pc_ready_def word_less_nat_alt)
  qed
qed (simp add: pc_ready_def word_less_nat_alt)

lemma pc_peek_Some_iff:
  assumes "pc_wf c"
  shows "pc_peek_top c = Some p \<longleftrightarrow> pc_ready c p \<noteq> [] \<and> (\<forall>q < p. pc_ready c q = [])"
proof
  assume "pc_peek_top c = Some p"
  with top_level_wf [OF assms] show "pc_ready c p \<noteq> [] \<and> (\<forall>q < p. pc_ready c q = [])"
    unfolding pc_peek_iff [OF assms] by (simp add: pc_below_all [symmetric]) (simp add: pc_ready_def)
next
  assume p: "pc_ready c p \<noteq> [] \<and> (\<forall>q < p. pc_ready c q = [])"
  then have j: "pc_queues c ! unat p \<noteq> []" "\<forall>j < unat p. pc_queues c ! j = []"
    by (simp_all add: pc_below_all) (simp add: pc_ready_def)
  show "pc_peek_top c = Some p"
  proof (cases "top_level c")
    case None
    with top_level_wf [OF assms] j unat_prio [of p] show ?thesis by simp
  next
    case (Some l)
    with top_level_wf [OF assms] have "pc_queues c ! l \<noteq> []" "\<forall>j < l. pc_queues c ! j = []" by auto
    with j have "l = unat p" by (meson linorder_neqE_nat)
    with Some show ?thesis by (simp add: pc_peek_iff [OF assms])
  qed
qed

lemma pc_pick_fifo:
  assumes wf: "pc_wf c" and "pc_peek_top c = Some p"
  shows "fst (pc_pick_next c) = Some (hd (pc_ready c p))"
    and "pc_ready (snd (pc_pick_next c)) = (pc_ready c)(p := tl (pc_ready c p))"
proof -
  from assms(2) have "top_level c = Some (unat p)" by (simp add: pc_peek_iff [OF wf])
  from pc_pick_cases(2) [OF wf this] obtain c' where
    c': "pc_pick_next c = (Some (hd (pc_queues c ! unat p)), c')"
      "pc_queues c' = (pc_queues c)[unat p := tl (pc_queues c ! unat p)]"
    by blast
  then show "fst (pc_pick_next c) = Some (hd (pc_ready c p))" by (simp add: pc_ready_def)
  from pc_ready_update [OF wf c'(2)] c'(1)
  show "pc_ready (snd (pc_pick_next c)) = (pc_ready c)(p := tl (pc_ready c p))"
    by (simp add: pc_ready_def)
qed

interpretation rt: fifo_class pc_wf pc_enqueue pc_dequeue pc_pick_next pc_peek_top pc_is_empty pc_ready
proof unfold_locales
  fix c t p
  assume wf: "pc_wf c"
  note dq = pc_dequeue_cases [OF wf, of t p]
  have em: "pc_is_empty d \<longleftrightarrow> pc_peek_top d = None" for d
    by (auto simp: pc_is_empty_def pc_peek_top_def top_level_def Let_def)
  have rd: "pc_ready (pc_enqueue c t p) = (pc_ready c)(p := pc_ready c p @ [t])"
    by (rule pc_ready_update [OF wf]) (simp add: pc_queues_enqueue pc_ready_def)
  have none: "pc_peek_top d = None \<longleftrightarrow> (\<forall>q. pc_ready d q = [])" if "pc_wf d" for d
    using top_level_wf [OF that] by (cases "top_level d") (auto simp: pc_peek_top_def simp flip: pc_ready_all)
  show "pc_wf (pc_enqueue c t p)" using wf by (rule pc_enqueue_wf)
  show "pc_wf (snd (pc_dequeue c t p))" using wf dq by (cases "t \<in> set (pc_ready c p)") auto
  show "pc_wf (snd (pc_pick_next c))" using wf pc_pick_cases [OF wf] by (cases "top_level c") auto
  show "pc_is_empty c \<longleftrightarrow> pc_peek_top c = None" by (rule em)
  show "fst (pc_pick_next c) = None \<longleftrightarrow> pc_peek_top c = None"
    using pc_pick_cases [OF wf] by (cases "top_level c") (auto simp: pc_peek_top_def)
  show "fst (pc_pick_next c) = None \<Longrightarrow> snd (pc_pick_next c) = c"
    using pc_pick_cases [OF wf] by (cases "top_level c") auto
  show "\<not> pc_is_empty (pc_enqueue c t p)"
    using none [OF pc_enqueue_wf [OF wf]] rd by (metis append_is_Nil_conv em fun_upd_same not_Cons_self2)
  show "\<not> fst (pc_dequeue c t p) \<Longrightarrow> snd (pc_dequeue c t p) = c"
    using dq by (cases "t \<in> set (pc_ready c p)") auto
  show "pc_ready (pc_enqueue c t p) = (pc_ready c)(p := pc_ready c p @ [t])" by (rule rd)
  show "fst (pc_dequeue c t p) \<longleftrightarrow> t \<in> set (pc_ready c p)"
    using dq by (cases "t \<in> set (pc_ready c p)") auto
  show "pc_ready (snd (pc_dequeue c t p)) = (pc_ready c)(p := remove1 t (pc_ready c p))"
    using dq pc_ready_update [OF wf] by (cases "t \<in> set (pc_ready c p)") (auto simp: remove1_idem)
qed (simp_all add: pc_peek_Some_iff pc_pick_fifo)

section \<open>Equivalence with a plain priority queue\<close>

text \<open>
  The reference: a function from priorities to FIFOs, scanned from the most urgent priority
  for the first non-empty one. A client drives either through the same calls and sees the
  answers.
\<close>

datatype class_call =
  Enqueue thread_id priority | Dequeue thread_id priority | Pick_next | Peek_top | Is_empty | Len

datatype class_answer =
  A_unit | A_bool bool | A_thread "thread_id option" | A_prio "priority option" | A_len nat

definition first_ready :: "(priority \<Rightarrow> thread_id list) \<Rightarrow> priority option" where
  "first_ready rd = find (\<lambda>p. rd p \<noteq> []) (map of_nat [0..<256])"

fun class_call_ref ::
  "(priority \<Rightarrow> thread_id list) \<Rightarrow> class_call \<Rightarrow> class_answer \<times> (priority \<Rightarrow> thread_id list)" where
  "class_call_ref rd (Enqueue t p) = (A_unit, rd(p := rd p @ [t]))"
| "class_call_ref rd (Dequeue t p) = (A_bool (t \<in> set (rd p)), rd(p := remove1 t (rd p)))"
| "class_call_ref rd Pick_next =
     (case first_ready rd of
        None \<Rightarrow> (A_thread None, rd)
      | Some p \<Rightarrow> (A_thread (Some (hd (rd p))), rd(p := tl (rd p))))"
| "class_call_ref rd Peek_top = (A_prio (first_ready rd), rd)"
| "class_call_ref rd Is_empty = (A_bool (first_ready rd = None), rd)"
| "class_call_ref rd Len = (A_len (size (ready_total rd)), rd)"

fun class_call_impl :: "priority_class \<Rightarrow> class_call \<Rightarrow> class_answer \<times> priority_class" where
  "class_call_impl c (Enqueue t p) = (A_unit, pc_enqueue c t p)"
| "class_call_impl c (Dequeue t p) = (case pc_dequeue c t p of (b, c') \<Rightarrow> (A_bool b, c'))"
| "class_call_impl c Pick_next = (case pc_pick_next c of (t, c') \<Rightarrow> (A_thread t, c'))"
| "class_call_impl c Peek_top = (A_prio (pc_peek_top c), c)"
| "class_call_impl c Is_empty = (A_bool (pc_is_empty c), c)"
| "class_call_impl c Len = (A_len (pc_len c), c)"

fun run_calls :: "('s \<Rightarrow> 'c \<Rightarrow> 'a \<times> 's) \<Rightarrow> 's \<Rightarrow> 'c list \<Rightarrow> 'a list" where
  "run_calls f s [] = []"
| "run_calls f s (x # xs) = (case f s x of (a, s') \<Rightarrow> a # run_calls f s' xs)"

lemma first_ready_Some_iff: "first_ready rd = Some p \<longleftrightarrow> rd p \<noteq> [] \<and> (\<forall>q < p. rd q = [])"
proof -
  have "first_ready rd = Some p \<longleftrightarrow>
      (\<exists>i < 256. rd (of_nat i) \<noteq> [] \<and> p = of_nat i \<and> (\<forall>j < i. rd (of_nat j) = []))"
    by (auto simp: first_ready_def find_Some_iff)
  also have "\<dots> \<longleftrightarrow> rd p \<noteq> [] \<and> (\<forall>j < unat p. rd (of_nat j) = [])"
    using unat_prio [of p] by (auto simp: unat_of_nat intro: exI [of _ "unat p"])
  also have "(\<forall>j < unat p. rd (of_nat j) = []) \<longleftrightarrow> (\<forall>q < p. rd q = [])"
  proof (intro iffI allI impI)
    fix q assume "\<forall>j < unat p. rd (of_nat j) = []" and "q < p"
    then have "rd (of_nat (unat q)) = []" by (simp add: word_less_nat_alt del: of_nat_unat)
    then show "rd q = []" by simp
  next
    fix j assume *: "\<forall>q < p. rd q = []" and j: "j < unat p"
    then have "(of_nat j :: priority) < p"
      using unat_prio [of p] by (simp add: word_less_nat_alt unat_of_nat)
    with * show "rd (of_nat j) = []" by blast
  qed
  finally show ?thesis .
qed

lemma first_ready_peek: "pc_wf c \<Longrightarrow> pc_peek_top c = first_ready (pc_ready c)"
  by (rule option_eqI) (simp add: first_ready_Some_iff pc_peek_Some_iff)

lemma pc_len_total:
  assumes "pc_wf c"
  shows "pc_len c = size (ready_total (pc_ready c))"
proof -
  have "bij_betw unat (UNIV :: priority set) {..<256}"
    by (rule bij_betw_byWitness [where f' = of_nat])
      (use unat_prio in \<open>auto simp: unat_of_nat\<close>)
  then have "(\<Sum>p \<in> (UNIV :: priority set). length (pc_queues c ! unat p)) =
      (\<Sum>l < 256. length (pc_queues c ! l))"
    by (rule sum.reindex_bij_betw)
  also have "\<dots> = pc_len c"
    using assms by (simp add: pc_wf_def PRIORITY_LEVELS_def sum_list_sum_nth atLeast0LessThan)
  finally show ?thesis by (simp add: ready_total_def size_multiset_sum pc_ready_def)
qed

lemma class_call_simulates:
  assumes "pc_wf c" and "class_call_impl c x = (a, c')"
  shows "pc_wf c'" and "class_call_ref (pc_ready c) x = (a, pc_ready c')"
proof -
  note laws = rt.inv_enqueue [OF assms(1)] rt.inv_dequeue [OF assms(1)] rt.inv_pick [OF assms(1)]
    rt.ready_enqueue [OF assms(1)] rt.dequeue_found [OF assms(1)] rt.dequeue_ready [OF assms(1)]
    rt.pick_head [OF assms(1)] rt.pick_rest [OF assms(1)] rt.pick_empty [OF assms(1)]
    rt.empty_iff [OF assms(1)]
  note peek = first_ready_peek [OF assms(1), symmetric]
  show "pc_wf c'"
  proof (cases x)
    case (Dequeue t p)
    with assms(2) laws(2) [of t p] show ?thesis by (cases "pc_dequeue c t p") auto
  next
    case Pick_next
    with assms(2) laws(3) show ?thesis by (cases "pc_pick_next c") auto
  qed (use assms laws(1) in auto)
  show "class_call_ref (pc_ready c) x = (a, pc_ready c')"
  proof (cases x)
    case Pick_next
    with assms(2) laws(7-9) show ?thesis
      by (cases "pc_pick_next c"; cases "pc_peek_top c") (auto simp: peek)
  next
    case (Dequeue t p)
    with assms(2) laws(5,6) [of t p] show ?thesis by (cases "pc_dequeue c t p") simp
  next
    case (Enqueue t p)
    with assms(2) laws(4) [of t p] show ?thesis by simp
  qed (use assms laws(10) in \<open>auto simp: first_ready_peek pc_len_total\<close>)
qed

lemma run_calls_simulates:
  "pc_wf c \<Longrightarrow> run_calls class_call_impl c xs = run_calls class_call_ref (pc_ready c) xs"
proof (induction xs arbitrary: c)
  case (Cons x xs)
  obtain a c' where st: "class_call_impl c x = (a, c')" by fastforce
  from class_call_simulates [OF Cons.prems st] Cons.IH [of c'] st show ?case by simp
qed simp

text \<open>
  C10: the two-level bitmap scheduler class is a priority queue. For every sequence of calls
  on a fresh \<open>PriorityClass\<close> (enqueue, dequeue, pick, peek, emptiness and length, in any
  order), the answers are those of a plain array of FIFOs scanned from priority 0 upwards:
  the bitmap never points at an empty level and never misses a ready thread, picks are most
  urgent first and first-in first-out within a level, and the length is the number of ready
  threads.
\<close>

theorem priority_class_is_priority_queue:
  "run_calls class_call_impl priority_class_new xs = run_calls class_call_ref (\<lambda>_. []) xs"
proof -
  have "pc_ready priority_class_new = (\<lambda>_. [])"
    using unat_prio by (simp add: pc_ready_def priority_class_new_def PRIORITY_LEVELS_def fun_eq_iff)
  then show ?thesis using run_calls_simulates [of priority_class_new] by simp
qed

end
