(* ===== verification/Sched_Dispatch.thy ===== *)
theory Sched_Dispatch
  imports Sched_Class
begin

text \<open>
  The per-CPU dispatcher of \<open>kernel/src/sched.rs\<close>: it owns the real-time class and the idle
  floor, and turns every scheduling point (tick, wake, yield, block, finish) into a decision.

  The branches behind \<open>debug_assert!(false, ..)\<close> carry what a release build does; the class
  contract (a peek that finds a thread is followed by a pick that returns one) makes them
  unreachable on well-formed dispatchers. \<open>on_donation\<close> is a no-op in the source.
\<close>

datatype class_id = Rt | Idle

datatype decision =
  D_Idle
| D_Continue thread_id
| D_Switch "thread_id option" thread_id

record running =
  r_id :: thread_id
  r_prio :: priority
  r_class :: class_id

record dispatcher =
  d_rt :: priority_class
  d_idle :: idle_class
  d_current :: "running option"
  d_quantum :: u32
  d_ticks :: u32

definition dispatcher_new :: "u32 \<Rightarrow> dispatcher" where
  "dispatcher_new quantum_ticks =
     \<lparr>d_rt = priority_class_new, d_idle = idle_class_new, d_current = None,
      d_quantum = max quantum_ticks 1, d_ticks = 0\<rparr>"

definition set_idle :: "dispatcher \<Rightarrow> thread_id \<Rightarrow> dispatcher" where
  "set_idle d t = d\<lparr>d_idle := ic_set (d_idle d) t\<rparr>"

definition admit :: "dispatcher \<Rightarrow> thread_id \<Rightarrow> priority \<Rightarrow> dispatcher" where
  "admit d t prio = d\<lparr>d_rt := pc_enqueue (d_rt d) t prio\<rparr>"

definition remove_ready_rt :: "dispatcher \<Rightarrow> thread_id \<Rightarrow> priority \<Rightarrow> bool \<times> dispatcher" where
  "remove_ready_rt d t prio =
     (case pc_dequeue (d_rt d) t prio of (found, rt) \<Rightarrow> (found, d\<lparr>d_rt := rt\<rparr>))"

definition set_running :: "dispatcher \<Rightarrow> thread_id \<Rightarrow> priority \<Rightarrow> class_id \<Rightarrow> dispatcher" where
  "set_running d t prio class =
     d\<lparr>d_current := Some \<lparr>r_id = t, r_prio = prio, r_class = class\<rparr>, d_ticks := 0\<rparr>"

definition current :: "dispatcher \<Rightarrow> thread_id option" where
  "current d = map_option r_id (d_current d)"

definition runnable_count :: "dispatcher \<Rightarrow> nat" where
  "runnable_count d = pc_len (d_rt d)"

definition dispatch_idle :: "dispatcher \<Rightarrow> thread_id option \<Rightarrow> decision \<times> dispatcher" where
  "dispatch_idle d from =
     (case ic_pick_next (d_idle d) of
        (Some idle, ic) \<Rightarrow>
          let d' = d\<lparr>d_idle := ic,
                     d_current := Some \<lparr>r_id = idle, r_prio = LOWEST, r_class = Idle\<rparr>,
                     d_ticks := 0\<rparr>
          in (if from = Some idle then D_Continue idle else D_Switch from idle, d')
      | (None, ic) \<Rightarrow> (D_Idle, d\<lparr>d_idle := ic\<rparr>))"

definition dispatch_after_removed ::
  "dispatcher \<Rightarrow> thread_id option \<Rightarrow> decision \<times> dispatcher" where
  "dispatch_after_removed d from =
     (case pc_peek_top (d_rt d) of
        Some prio \<Rightarrow>
          (case pc_pick_next (d_rt d) of
             (Some to, rt) \<Rightarrow>
               let d' = d\<lparr>d_rt := rt,
                          d_current := Some \<lparr>r_id = to, r_prio = prio, r_class = Rt\<rparr>,
                          d_ticks := 0\<rparr>
               in (if from = Some to then D_Continue to else D_Switch from to, d')
           | (None, rt) \<Rightarrow> dispatch_idle (d\<lparr>d_rt := rt\<rparr>) from)
      | None \<Rightarrow> dispatch_idle d from)"

definition dispatch_fresh :: "dispatcher \<Rightarrow> decision \<times> dispatcher" where
  "dispatch_fresh d = dispatch_after_removed d None"

definition preempt_to_rt :: "dispatcher \<Rightarrow> running \<Rightarrow> decision \<times> dispatcher" where
  "preempt_to_rt d cur =
     (let rt0 = (if r_class cur = Rt then pc_enqueue (d_rt d) (r_id cur) (r_prio cur) else d_rt d);
          prio = pc_peek_top rt0;
          (to, rt1) = pc_pick_next rt0
      in case (prio, to) of
           (Some prio, Some to) \<Rightarrow>
             (D_Switch (Some (r_id cur)) to,
              d\<lparr>d_rt := rt1, d_current := Some \<lparr>r_id = to, r_prio = prio, r_class = Rt\<rparr>,
                d_ticks := 0\<rparr>)
         | _ \<Rightarrow> (D_Continue (r_id cur), d\<lparr>d_rt := rt1, d_current := Some cur\<rparr>))"

definition rotate_same_level :: "dispatcher \<Rightarrow> running \<Rightarrow> decision \<times> dispatcher" where
  "rotate_same_level d cur =
     (case pc_pick_next (pc_enqueue (d_rt d) (r_id cur) (r_prio cur)) of
        (None, rt) \<Rightarrow> (D_Continue (r_id cur), d\<lparr>d_rt := rt, d_current := Some cur\<rparr>)
      | (Some to, rt) \<Rightarrow>
          (if to = r_id cur then D_Continue (r_id cur) else D_Switch (Some (r_id cur)) to,
           d\<lparr>d_rt := rt,
             d_current := Some \<lparr>r_id = to, r_prio = r_prio cur, r_class = Rt\<rparr>\<rparr>))"

definition preempts :: "dispatcher \<Rightarrow> running \<Rightarrow> bool" where
  "preempts d cur =
     (case pc_peek_top (d_rt d) of
        Some top_prio \<Rightarrow> r_class cur = Idle \<or> top_prio < r_prio cur
      | None \<Rightarrow> False)"

definition on_timer_tick :: "dispatcher \<Rightarrow> decision \<times> dispatcher" where
  "on_timer_tick d0 =
     (let d = d0\<lparr>d_ticks := saturating_add (d_ticks d0) 1\<rparr> in
      case d_current d of
        None \<Rightarrow> dispatch_fresh d
      | Some cur \<Rightarrow>
          if preempts d cur then preempt_to_rt d cur
          else if r_class cur = Rt \<and> d_ticks d \<ge> d_quantum d then
            let d' = d\<lparr>d_ticks := 0\<rparr> in
            if pc_peek_top (d_rt d') = Some (r_prio cur) then rotate_same_level d' cur
            else (D_Continue (r_id cur), d')
          else (D_Continue (r_id cur), d))"

definition reschedule_current :: "dispatcher \<Rightarrow> decision \<times> dispatcher" where
  "reschedule_current d =
     (case d_current d of
        None \<Rightarrow> dispatch_fresh d
      | Some cur \<Rightarrow>
          if preempts d cur then preempt_to_rt d cur else (D_Continue (r_id cur), d))"

definition wake_rt :: "dispatcher \<Rightarrow> thread_id \<Rightarrow> priority \<Rightarrow> decision \<times> dispatcher" where
  "wake_rt d t prio = reschedule_current (d\<lparr>d_rt := pc_enqueue (d_rt d) t prio\<rparr>)"

definition yield_current :: "dispatcher \<Rightarrow> decision \<times> dispatcher" where
  "yield_current d =
     (case d_current d of
        None \<Rightarrow> dispatch_fresh d
      | Some cur \<Rightarrow>
          (case r_class cur of
             Rt \<Rightarrow> dispatch_after_removed
                     (d\<lparr>d_rt := pc_enqueue (d_rt d) (r_id cur) (r_prio cur)\<rparr>) (Some (r_id cur))
           | Idle \<Rightarrow> reschedule_current d))"

definition block_current :: "dispatcher \<Rightarrow> decision \<times> dispatcher" where
  "block_current d =
     dispatch_after_removed (d\<lparr>d_current := None, d_ticks := 0\<rparr>) (map_option r_id (d_current d))"

definition finish_current :: "dispatcher \<Rightarrow> decision \<times> dispatcher" where
  "finish_current d = block_current d"

section \<open>Laws of a scheduling point\<close>

text \<open>
  \<open>strict_priority\<close>: nothing more urgent than the running thread is ready; only the idle
  thread or nothing runs when nothing is ready. \<open>load\<close>: the real-time threads the dispatcher
  holds, the running one included. \<open>decision_ok\<close>: the decision names the thread that was
  running and the one that now is.
\<close>

definition strict_priority :: "dispatcher \<Rightarrow> bool" where
  "strict_priority d =
     (case d_current d of
        None \<Rightarrow> (\<forall>p. pc_ready (d_rt d) p = []) \<and> ic_idle (d_idle d) = None
      | Some cur \<Rightarrow>
          (case r_class cur of
             Idle \<Rightarrow> (\<forall>p. pc_ready (d_rt d) p = [])
           | Rt \<Rightarrow> (\<forall>p < r_prio cur. pc_ready (d_rt d) p = [])))"

definition running_load :: "running option \<Rightarrow> (priority \<times> thread_id) multiset" where
  "running_load r =
     (case r of
        None \<Rightarrow> {#}
      | Some cur \<Rightarrow> if r_class cur = Rt then {#(r_prio cur, r_id cur)#} else {#})"

definition load :: "dispatcher \<Rightarrow> (priority \<times> thread_id) multiset" where
  "load d = ready_total (pc_ready (d_rt d)) + running_load (d_current d)"

definition decision_ok :: "thread_id option \<Rightarrow> decision \<Rightarrow> dispatcher \<Rightarrow> bool" where
  "decision_ok from dec d =
     (case dec of
        D_Idle \<Rightarrow> current d = None
      | D_Continue t \<Rightarrow> from = Some t \<and> current d = Some t
      | D_Switch f t \<Rightarrow> f = from \<and> current d = Some t)"

text \<open>What every scheduling point guarantees: the shared conclusion of the lemmas below.\<close>

definition point_ok ::
  "dispatcher \<Rightarrow> thread_id option \<Rightarrow> (priority \<times> thread_id) multiset \<Rightarrow> decision \<times> dispatcher \<Rightarrow> bool" where
  "point_ok d from ld r =
     (case r of (dec, d') \<Rightarrow>
        pc_wf (d_rt d') \<and> strict_priority d' \<and> load d' = ld \<and> decision_ok from dec d'
        \<and> d_quantum d' = d_quantum d \<and> d_idle d' = d_idle d)"

lemmas point_defs = point_ok_def strict_priority_def load_def running_load_def decision_ok_def current_def

lemma dispatch_idle_ok:
  assumes "pc_wf (d_rt d)" and "pc_peek_top (d_rt d) = None" and "d_current d = None"
  shows "point_ok d from (ready_total (pc_ready (d_rt d))) (dispatch_idle d from)"
  using assms rt.peek_None_iff [OF assms(1)]
  by (auto simp: dispatch_idle_def ic_pick_next_def point_defs Let_def split: option.splits)

lemma dispatch_pick_ok:
  assumes wf: "pc_wf (d_rt d)" and p: "pc_peek_top (d_rt d) = Some p"
  shows "\<exists>to rt. pc_pick_next (d_rt d) = (Some to, rt) \<and> pc_wf rt
    \<and> ready_total (pc_ready (d_rt d)) = add_mset (p, to) (ready_total (pc_ready rt))
    \<and> (\<forall>q < p. pc_ready rt q = [])"
proof -
  from rt.pick_after_peek [OF wf p] obtain to rt where pk: "pc_pick_next (d_rt d) = (Some to, rt)" "pc_wf rt"
    by blast
  have "to = hd (pc_ready (d_rt d) p)" using rt.pick_head [OF wf p] pk by simp
  moreover have "\<forall>q < p. pc_ready rt q = []"
    using rt.pick_rest [OF wf p] rt.peek_Some_iff [OF wf] p pk by auto
  ultimately show ?thesis using rt.total_pick [OF wf p] pk by auto
qed

lemma dispatch_after_removed_ok:
  assumes "pc_wf (d_rt d)" and "d_current d = None \<or> pc_peek_top (d_rt d) \<noteq> None"
  shows "point_ok d from (ready_total (pc_ready (d_rt d))) (dispatch_after_removed d from)"
proof (cases "pc_peek_top (d_rt d)")
  case None
  with dispatch_idle_ok [OF assms(1) None] assms(2) show ?thesis
    by (simp add: dispatch_after_removed_def)
next
  case (Some p)
  from dispatch_pick_ok [OF assms(1) Some] Some show ?thesis
    by (auto simp: dispatch_after_removed_def point_defs Let_def)
qed

lemma preempt_to_rt_ok:
  assumes wf: "pc_wf (d_rt d)" and cur: "d_current d = Some cur" and "preempts d cur"
  shows "point_ok d (Some (r_id cur)) (load d) (preempt_to_rt d cur)"
proof -
  let ?rt0 = "if r_class cur = Rt then pc_enqueue (d_rt d) (r_id cur) (r_prio cur) else d_rt d"
  have wf0: "pc_wf ?rt0" using wf by (simp add: rt.inv_enqueue)
  obtain p where p: "pc_peek_top ?rt0 = Some p"
    using assms(3) rt.peek_after_enqueue [OF wf]
    by (cases "r_class cur") (auto simp: preempts_def split: option.splits)
  have ld: "ready_total (pc_ready ?rt0) = load d"
    using cur wf by (auto simp: load_def running_load_def rt.total_enqueue)
  from dispatch_pick_ok [of "d\<lparr>d_rt := ?rt0\<rparr>" p] wf0 p obtain to rt where
    pk: "pc_pick_next ?rt0 = (Some to, rt)" "pc_wf rt"
      "ready_total (pc_ready ?rt0) = add_mset (p, to) (ready_total (pc_ready rt))"
      "\<forall>q < p. pc_ready rt q = []"
    by auto
  have "preempt_to_rt d cur = (D_Switch (Some (r_id cur)) to,
      d\<lparr>d_rt := rt, d_current := Some \<lparr>r_id = to, r_prio = p, r_class = Rt\<rparr>, d_ticks := 0\<rparr>)"
    unfolding preempt_to_rt_def Let_def pk(1) p by simp
  with pk(2-4) ld show ?thesis by (simp add: point_ok_def strict_priority_def load_def
        running_load_def decision_ok_def current_def)
qed

lemma continue_ok:
  assumes "pc_wf (d_rt d)" and "d_current d = Some cur" and "\<not> preempts d cur"
  shows "point_ok d (Some (r_id cur)) (load d) (D_Continue (r_id cur), d\<lparr>d_ticks := n\<rparr>)"
proof (cases "pc_peek_top (d_rt d)")
  case None
  with rt.peek_None_iff [OF assms(1)] assms show ?thesis
    by (auto simp: point_defs split: class_id.splits)
next
  case (Some p)
  with assms(3) have "r_class cur = Rt" "r_prio cur \<le> p"
    by (cases "r_class cur"; auto simp: preempts_def)+
  with Some rt.peek_Some_iff [OF assms(1)] assms(1,2) show ?thesis by (auto simp: point_defs)
qed

lemma rotate_same_level_ok:
  assumes wf: "pc_wf (d_rt d)" and "d_current d = Some cur" and "r_class cur = Rt"
    and "pc_peek_top (d_rt d) = Some (r_prio cur)"
  shows "point_ok d (Some (r_id cur)) (load d) (rotate_same_level d cur)"
    and "\<exists>t ts rt. pc_ready (d_rt d) (r_prio cur) = t # ts \<and> snd (rotate_same_level d cur) =
      d\<lparr>d_rt := rt, d_current := Some \<lparr>r_id = t, r_prio = r_prio cur, r_class = Rt\<rparr>\<rparr>
      \<and> pc_wf rt \<and> pc_ready rt = (pc_ready (d_rt d))(r_prio cur := ts @ [r_id cur])"
proof -
  let ?p = "r_prio cur" and ?rt0 = "pc_enqueue (d_rt d) (r_id cur) (r_prio cur)"
  have wf0: "pc_wf ?rt0" using wf by (rule rt.inv_enqueue)
  from rt.peek_Some_iff [OF wf] assms(4) obtain t ts where
    t: "pc_ready (d_rt d) ?p = t # ts" "\<forall>q < ?p. pc_ready (d_rt d) q = []"
    by (cases "pc_ready (d_rt d) ?p") auto
  have p: "pc_peek_top ?rt0 = Some ?p"
    using t by (simp add: rt.peek_Some_iff [OF wf0] rt.ready_enqueue [OF wf])
  from rt.pick_after_peek [OF wf0 p] obtain to rt where pk: "pc_pick_next ?rt0 = (Some to, rt)" "pc_wf rt"
    by blast
  have to: "to = t" using rt.pick_head [OF wf0 p] pk t by (simp add: rt.ready_enqueue [OF wf])
  have rd: "pc_ready rt = (pc_ready (d_rt d))(?p := ts @ [r_id cur])"
    using rt.pick_rest [OF wf0 p] pk t by (simp add: rt.ready_enqueue [OF wf])
  have tot: "add_mset (?p, r_id cur) (ready_total (pc_ready (d_rt d))) = add_mset (?p, t) (ready_total (pc_ready rt))"
  proof -
    have "hd (pc_ready ?rt0 ?p) = t" using t by (simp add: rt.ready_enqueue [OF wf])
    then show ?thesis using rt.total_pick [OF wf0 p] pk rt.total_enqueue [OF wf, of "r_id cur" ?p] by simp
  qed
  show "point_ok d (Some (r_id cur)) (load d) (rotate_same_level d cur)"
    using tot pk to t rd assms(2,3) by (auto simp: rotate_same_level_def point_defs)
  show "\<exists>t ts rt. pc_ready (d_rt d) ?p = t # ts \<and> snd (rotate_same_level d cur) =
      d\<lparr>d_rt := rt, d_current := Some \<lparr>r_id = t, r_prio = ?p, r_class = Rt\<rparr>\<rparr>
      \<and> pc_wf rt \<and> pc_ready rt = (pc_ready (d_rt d))(?p := ts @ [r_id cur])"
    using t(1) pk to rd by (auto simp: rotate_same_level_def)
qed

lemma point_ok_ticks:
  "point_ok (d\<lparr>d_ticks := n\<rparr>) from ld r = point_ok d from ld r"
  by (simp add: point_ok_def)

lemma load_ticks [simp]: "load (d\<lparr>d_ticks := n\<rparr>) = load d"
  by (simp add: load_def)

lemma reschedule_current_ok:
  assumes "pc_wf (d_rt d)"
  shows "point_ok d (current d) (load d) (reschedule_current d)"
proof (cases "d_current d")
  case None
  with dispatch_after_removed_ok [OF assms, of None] show ?thesis
    by (simp add: reschedule_current_def dispatch_fresh_def current_def load_def running_load_def)
next
  case (Some cur)
  with preempt_to_rt_ok [OF assms Some] continue_ok [OF assms Some, of "d_ticks d"] show ?thesis
    by (simp add: reschedule_current_def current_def)
qed

lemma on_timer_tick_ok:
  assumes "pc_wf (d_rt d)"
  shows "point_ok d (current d) (load d) (on_timer_tick d)"
proof (cases "d_current d")
  case None
  let ?d = "d\<lparr>d_ticks := saturating_add (d_ticks d) 1\<rparr>"
  from None dispatch_after_removed_ok [of ?d None] assms show ?thesis
    by (simp add: on_timer_tick_def dispatch_fresh_def current_def load_def running_load_def
        point_ok_ticks Let_def)
next
  case (Some cur)
  let ?d = "d\<lparr>d_ticks := saturating_add (d_ticks d) 1\<rparr>" and ?z = "d\<lparr>d_ticks := 0\<rparr>"
  have eq: "preempts (d\<lparr>d_ticks := n\<rparr>) cur = preempts d cur" for n by (simp add: preempts_def)
  from Some preempt_to_rt_ok [of ?d cur] continue_ok [OF assms Some] rotate_same_level_ok(1) [of ?z cur] assms
  show ?thesis
    by (auto simp: on_timer_tick_def current_def point_ok_ticks Let_def eq)
qed

lemma yield_current_ok:
  assumes "pc_wf (d_rt d)"
  shows "point_ok d (current d) (load d) (yield_current d)"
proof (cases "d_current d")
  case None
  with dispatch_after_removed_ok [OF assms, of None] show ?thesis
    by (simp add: yield_current_def dispatch_fresh_def current_def load_def running_load_def)
next
  case (Some cur)
  show ?thesis
  proof (cases "r_class cur")
    case Idle
    with Some reschedule_current_ok [OF assms] show ?thesis by (simp add: yield_current_def)
  next
    case Rt
    let ?d = "d\<lparr>d_rt := pc_enqueue (d_rt d) (r_id cur) (r_prio cur)\<rparr>"
    from dispatch_after_removed_ok [of ?d "Some (r_id cur)"] rt.inv_enqueue [OF assms]
      rt.peek_after_enqueue [OF assms, of "r_id cur" "r_prio cur"] Rt Some
    show ?thesis
      by (auto simp: yield_current_def current_def load_def running_load_def point_ok_def
          rt.total_enqueue [OF assms])
  qed
qed

lemma block_current_ok:
  assumes "pc_wf (d_rt d)"
  shows "point_ok d (current d) (load d - running_load (d_current d)) (block_current d)"
  using dispatch_after_removed_ok [of "d\<lparr>d_current := None, d_ticks := 0\<rparr>" "current d"] assms
  by (simp add: block_current_def current_def load_def point_ok_def)

section \<open>Sequences of calls\<close>

datatype sched_point = Tick | Reschedule | Wake thread_id priority | Yield | Block | Finish

datatype admin_call =
  Set_idle thread_id | Admit thread_id priority | Remove_ready thread_id priority
| Set_running thread_id priority class_id

fun point_step :: "dispatcher \<Rightarrow> sched_point \<Rightarrow> decision \<times> dispatcher" where
  "point_step d Tick = on_timer_tick d"
| "point_step d Reschedule = reschedule_current d"
| "point_step d (Wake t p) = wake_rt d t p"
| "point_step d Yield = yield_current d"
| "point_step d Block = block_current d"
| "point_step d Finish = finish_current d"

fun admin_step :: "dispatcher \<Rightarrow> admin_call \<Rightarrow> dispatcher" where
  "admin_step d (Set_idle t) = set_idle d t"
| "admin_step d (Admit t p) = admit d t p"
| "admin_step d (Remove_ready t p) = snd (remove_ready_rt d t p)"
| "admin_step d (Set_running t p class) = set_running d t p class"

fun sched_run :: "dispatcher \<Rightarrow> (admin_call + sched_point) list \<Rightarrow> dispatcher" where
  "sched_run d [] = d"
| "sched_run d (Inl a # xs) = sched_run (admin_step d a) xs"
| "sched_run d (Inr x # xs) = sched_run (snd (point_step d x)) xs"

text \<open>The threads a scheduling point leaves in the dispatcher.\<close>

fun load_after :: "dispatcher \<Rightarrow> sched_point \<Rightarrow> (priority \<times> thread_id) multiset" where
  "load_after d (Wake t p) = add_mset (p, t) (load d)"
| "load_after d Block = load d - running_load (d_current d)"
| "load_after d Finish = load d - running_load (d_current d)"
| "load_after d _ = load d"

lemma point_step_ok:
  assumes "pc_wf (d_rt d)"
  shows "point_ok d (current d) (load_after d x) (point_step d x)"
proof (cases x)
  case (Wake t p)
  let ?d = "d\<lparr>d_rt := pc_enqueue (d_rt d) t p\<rparr>"
  from reschedule_current_ok [of ?d] rt.inv_enqueue [OF assms] Wake show ?thesis
    by (simp add: wake_rt_def point_ok_def current_def load_def rt.total_enqueue [OF assms])
qed (use on_timer_tick_ok [OF assms] reschedule_current_ok [OF assms] yield_current_ok [OF assms]
      block_current_ok [OF assms] in \<open>simp_all add: finish_current_def\<close>)

lemma admin_step_wf: "pc_wf (d_rt d) \<Longrightarrow> pc_wf (d_rt (admin_step d a))"
  using rt.inv_enqueue rt.inv_dequeue
  by (cases a) (simp_all add: set_idle_def admit_def remove_ready_rt_def set_running_def split_beta)

lemma sched_run_wf: "pc_wf (d_rt d) \<Longrightarrow> pc_wf (d_rt (sched_run d xs))"
proof (induction d xs rule: sched_run.induct)
  case (3 d x xs)
  from point_step_ok [OF 3(2), of x] have "pc_wf (d_rt (snd (point_step d x)))"
    by (auto simp: point_ok_def split: prod.splits)
  with 3 show ?case by simp
qed (simp_all add: admin_step_wf)

text \<open>
  C13: strict priority, and no thread lost or invented. Start a dispatcher with any quantum and
  drive it with any sequence of calls, then take any scheduling point: afterwards no ready
  thread is more urgent than the running real-time thread, the idle thread runs only when
  nothing is ready, and nothing runs only when there is no idle thread either; the decision
  names the previously running thread and the one running now; and the threads held, running
  one included, are those held before, plus the woken one for a wake, minus the running one
  for a block or exit.
\<close>

theorem scheduling_point_strict_priority:
  "let d = sched_run (dispatcher_new quantum) xs; (dec, d') = point_step d x
   in strict_priority d' \<and> decision_ok (current d) dec d' \<and> load d' = load_after d x"
proof -
  have "pc_wf (d_rt (sched_run (dispatcher_new quantum) xs))"
    by (rule sched_run_wf) (simp add: dispatcher_new_def)
  from point_step_ok [OF this, of x] show ?thesis
    by (auto simp: point_ok_def Let_def split: prod.splits)
qed

section \<open>Round robin\<close>

definition tick :: "dispatcher \<Rightarrow> dispatcher" where
  "tick d = snd (on_timer_tick d)"

text \<open>
  \<open>rr d p q base xs\<close>: a fresh quantum of a dispatcher whose most urgent level is \<open>p\<close>; the
  threads of that level are \<open>xs\<close>, the running one first.
\<close>

definition rr :: "dispatcher \<Rightarrow> priority \<Rightarrow> u32 \<Rightarrow> (priority \<Rightarrow> thread_id list) \<Rightarrow> thread_id list \<Rightarrow> bool" where
  "rr d p quantum base xs \<longleftrightarrow>
     xs \<noteq> [] \<and> d_current d = Some \<lparr>r_id = hd xs, r_prio = p, r_class = Rt\<rparr>
     \<and> pc_wf (d_rt d) \<and> pc_ready (d_rt d) = base(p := tl xs) \<and> (\<forall>q < p. base q = [])
     \<and> d_quantum d = quantum \<and> d_ticks d = 0"

lemma rr_not_preempts:
  assumes "rr d p quantum base xs"
  shows "\<not> preempts (d\<lparr>d_ticks := n\<rparr>) \<lparr>r_id = t, r_prio = p, r_class = Rt\<rparr>"
proof -
  have "\<not> top_prio < p" if "pc_peek_top (d_rt d) = Some top_prio" for top_prio
    using that assms rt.peek_Some_iff [of "d_rt d" top_prio]
    by (auto simp: rr_def split: if_splits)
  then show ?thesis by (auto simp: preempts_def split: option.splits)
qed

lemma rr_ticks:
  assumes rr: "rr d p quantum base xs" and "j < unat quantum"
  shows "(tick ^^ j) d = d\<lparr>d_ticks := of_nat j\<rparr>"
  using assms(2)
proof (induction j)
  case 0
  with rr show ?case by (simp add: rr_def)
next
  case (Suc j)
  have q: "unat quantum < 2 ^ 32" using unat_u32_bound [of quantum] by simp
  with Suc.prems have "unat (of_nat j :: u32) = j" by (simp add: unat_of_nat)
  with Suc.prems q have sat: "saturating_add (of_nat j) (1::u32) = of_nat (Suc j)"
    by (intro unat_eqI) (simp add: unat_saturating_add unat_of_nat del: of_nat_Suc)
  have lt: "\<not> quantum \<le> of_nat (Suc j)"
    using Suc.prems q by (simp add: word_le_nat_alt unat_of_nat del: of_nat_Suc)
  have "tick (d\<lparr>d_ticks := of_nat j\<rparr>) = d\<lparr>d_ticks := of_nat (Suc j)\<rparr>"
    using rr rr_not_preempts [OF rr] sat lt
    by (simp add: tick_def on_timer_tick_def Let_def rr_def del: of_nat_Suc)
  with Suc show ?case by simp
qed

lemma rr_quantum:
  assumes rr: "rr d p quantum base xs" and "0 < quantum"
  shows "rr ((tick ^^ unat quantum) d) p quantum base (rotate1 xs)"
proof -
  obtain n where n: "unat quantum = Suc n"
    using assms(2) by (cases "unat quantum") (simp_all add: word_less_nat_alt)
  then have run: "(tick ^^ unat quantum) d = tick (d\<lparr>d_ticks := of_nat n\<rparr>)"
    using rr_ticks [OF rr, of n] by simp
  have q: "unat quantum < 2 ^ 32" using unat_u32_bound [of quantum] by simp
  with n have sat: "saturating_add (of_nat n) (1::u32) = quantum"
    by (intro unat_eqI) (simp add: unat_saturating_add unat_of_nat)
  obtain x ts where xs: "xs = x # ts" using rr by (cases xs) (auto simp: rr_def)
  let ?cur = "\<lparr>r_id = x, r_prio = p, r_class = Rt\<rparr>" and ?d0 = "d\<lparr>d_ticks := 0\<rparr>"
  have cur: "d_current d = Some ?cur" and wf: "pc_wf (d_rt d)"
    and rd: "pc_ready (d_rt d) = base(p := ts)" and base: "\<forall>q < p. base q = []"
    using rr by (simp_all add: rr_def xs)
  have tk: "tick (d\<lparr>d_ticks := of_nat n\<rparr>) =
      (if pc_peek_top (d_rt d) = Some p then snd (rotate_same_level ?d0 ?cur) else ?d0)"
    using rr rr_not_preempts [OF rr, of quantum x] sat cur
    by (simp add: tick_def on_timer_tick_def Let_def rr_def)
  have top: "pc_peek_top (d_rt d) = Some p \<longleftrightarrow> ts \<noteq> []"
    using rt.peek_Some_iff [OF wf, of p] rd base by simp
  show ?thesis
  proof (cases "ts = []")
    case True
    with rr tk top run xs show ?thesis by (simp add: rr_def)
  next
    case False
    with top have "pc_peek_top (d_rt ?d0) = Some (r_prio ?cur)" by simp
    from rotate_same_level_ok(2) [of ?d0 ?cur, OF _ _ _ this] wf cur rd obtain t us rt' where
      r: "ts = t # us" "snd (rotate_same_level ?d0 ?cur) =
        ?d0\<lparr>d_rt := rt', d_current := Some \<lparr>r_id = t, r_prio = p, r_class = Rt\<rparr>\<rparr>"
        "pc_wf rt'" "pc_ready rt' = base(p := us @ [x])"
      by auto
    with rr tk top run xs base False show ?thesis by (simp add: rr_def)
  qed
qed

lemma rr_quanta:
  assumes "rr d p quantum base xs" and "0 < quantum"
  shows "rr ((tick ^^ (k * unat quantum)) d) p quantum base (rotate k xs)"
proof (induction k)
  case 0
  with assms show ?case by simp
next
  case (Suc k)
  have "(tick ^^ (Suc k * unat quantum)) d = (tick ^^ unat quantum) ((tick ^^ (k * unat quantum)) d)"
    by (simp add: funpow_add)
  with rr_quantum [OF Suc assms(2)] show ?case by simp
qed

text \<open>
  C22: round robin among equals. At the start of a quantum of a running real-time thread, with
  nothing more urgent ready, let \<open>xs\<close> be the threads of its level, running one first. After
  \<open>k\<close> quanta of timer ticks and nothing else, the threads of the level are \<open>xs\<close> rotated \<open>k\<close>
  times, the running one first, every other level is unchanged and a fresh quantum starts;
  so every thread of the level runs for one quantum in each round.
\<close>

theorem round_robin:
  assumes "pc_wf (d_rt d)" and "d_current d = Some \<lparr>r_id = t, r_prio = p, r_class = Rt\<rparr>"
    and "\<forall>q < p. pc_ready (d_rt d) q = []" and "d_ticks d = 0" and "0 < d_quantum d"
  shows "let xs = t # pc_ready (d_rt d) p; d' = (tick ^^ (k * unat (d_quantum d))) d
    in d_current d' = Some \<lparr>r_id = xs ! (k mod length xs), r_prio = p, r_class = Rt\<rparr>
      \<and> pc_ready (d_rt d') = (pc_ready (d_rt d))(p := tl (rotate k xs)) \<and> d_ticks d' = 0"
proof -
  let ?xs = "t # pc_ready (d_rt d) p"
  have "rr d p (d_quantum d) (pc_ready (d_rt d)) ?xs"
    using assms by (simp add: rr_def)
  from rr_quanta [OF this assms(5), of k] have
    "rr ((tick ^^ (k * unat (d_quantum d))) d) p (d_quantum d) (pc_ready (d_rt d)) (rotate k ?xs)" .
  moreover have "hd (rotate k ?xs) = ?xs ! (k mod length ?xs)"
    by (rule hd_rotate_conv_nth) simp
  ultimately show ?thesis by (simp add: rr_def Let_def)
qed

definition sample_dispatcher :: dispatcher where
  "sample_dispatcher =
     set_running (admit (admit (dispatcher_new 3) 11 128) 12 128) 10 128 Rt"

lemma sample_dispatcher_ready:
  "pc_wf (d_rt sample_dispatcher)"
  "pc_ready (d_rt sample_dispatcher) = (\<lambda>_. [])(128 := [11, 12])"
proof -
  have e: "pc_ready priority_class_new = (\<lambda>_. [])"
    using unat_prio by (simp add: pc_ready_def priority_class_new_def PRIORITY_LEVELS_def fun_eq_iff)
  have w: "pc_wf (pc_enqueue priority_class_new 11 128)" by (simp add: pc_enqueue_wf)
  show "pc_wf (d_rt sample_dispatcher)"
    using w by (simp add: sample_dispatcher_def set_running_def admit_def dispatcher_new_def pc_enqueue_wf)
  show "pc_ready (d_rt sample_dispatcher) = (\<lambda>_. [])(128 := [11, 12])"
    by (simp add: sample_dispatcher_def set_running_def admit_def dispatcher_new_def
        rt.ready_enqueue w e)
qed

theorem round_robin_witness:
  "map (\<lambda>k. current ((tick ^^ (k * 3)) sample_dispatcher)) [0, 1, 2, 3] =
     [Some 10, Some 11, Some 12, Some 10]"
proof -
  have st: "d_current sample_dispatcher = Some \<lparr>r_id = 10, r_prio = 128, r_class = Rt\<rparr>"
    "d_ticks sample_dispatcher = 0" "d_quantum sample_dispatcher = 3"
    by (simp_all add: sample_dispatcher_def set_running_def admit_def dispatcher_new_def max_def
        word_le_nat_alt)
  have below: "\<forall>q < 128. pc_ready (d_rt sample_dispatcher) q = []"
    by (auto simp: sample_dispatcher_ready)
  have "current ((tick ^^ (k * 3)) sample_dispatcher) = Some ([10, 11, 12] ! (k mod 3))" for k
    using round_robin [OF sample_dispatcher_ready(1) st(1) below st(2), of k] st(3)
    by (simp add: Let_def current_def sample_dispatcher_ready)
  from this [of 0] this [of 1] this [of 2] this [of 3] show ?thesis by simp
qed

end
