(* ===== verification/Mm_Pages.thy ===== *)
theory Mm_Pages
  imports Kumo_Prelude
begin

text \<open>
  Pages, ranges, memory objects and address regions: the value types of
  \<open>kernel/src/mm/mod.rs\<close> and the boot memory map of \<open>lib/kumo-abi/src/boot.rs\<close>.
  All addresses are 64-bit words; the checked and saturating operations are those of the
  source, and the lemmas restate the results over natural numbers, where no wrap occurs.
\<close>

unbundle bit_operations_syntax

section \<open>The boot memory map\<close>

record range =
  rg_start :: u64
  rg_len :: u64

definition range_end :: "range \<Rightarrow> u64" where
  "range_end r = saturating_add (rg_start r) (rg_len r)"

definition range_empty :: range where
  "range_empty = \<lparr>rg_start = 0, rg_len = 0\<rparr>"

definition range_is_empty :: "range \<Rightarrow> bool" where
  "range_is_empty r = (rg_len r = 0)"

datatype mem_region_kind =
  Usable | Reserved | Acpi | Mmio | Bootloader | Kernel | Initrd | Unknown

record mem_region =
  mr_range :: range
  mr_kind :: mem_region_kind

record framebuffer =
  fb_phys :: u64
  fb_len :: u64
  fb_width :: u32
  fb_height :: u32
  fb_stride :: u32

text \<open>The fields of \<open>BootInfo\<close> the memory manager reads.\<close>

record boot_info =
  bi_flags :: u32
  bi_mem_regions :: "mem_region list"
  bi_kernel_phys :: range
  bi_initrd :: range
  bi_framebuffer :: framebuffer

definition FLAG_FRAMEBUFFER_PRESENT :: u32 where "FLAG_FRAMEBUFFER_PRESENT = 1"

definition has_framebuffer :: "boot_info \<Rightarrow> bool" where
  "has_framebuffer b = (bi_flags b AND FLAG_FRAMEBUFFER_PRESENT \<noteq> 0)"

definition fb_mapping_len :: "framebuffer \<Rightarrow> u64 option" where
  "fb_mapping_len fb =
     (if fb_len fb = 0 then None
      else case checked_add (fb_len fb) 4095 of
             Some e \<Rightarrow> Some (e AND NOT 4095)
           | None \<Rightarrow> None)"

definition fb_is_plausible :: "framebuffer \<Rightarrow> bool" where
  "fb_is_plausible fb =
     (fb_phys fb \<noteq> 0 \<and> fb_phys fb AND 4095 = 0
      \<and> 1 \<le> fb_width fb \<and> fb_width fb \<le> 16384
      \<and> 1 \<le> fb_height fb \<and> fb_height fb \<le> 16384
      \<and> fb_width fb \<le> fb_stride fb \<and> fb_stride fb \<le> 16384
      \<and> ucast (fb_height fb) * ucast (fb_stride fb) * 4 \<le> fb_len fb)"

section \<open>Page arithmetic\<close>

definition PAGE_SIZE :: u64 where "PAGE_SIZE = 4096"
definition BLOCK_2M :: u64 where "BLOCK_2M = push_bit 21 1"

definition is_page_aligned :: "u64 \<Rightarrow> bool" where
  "is_page_aligned value = (value AND (PAGE_SIZE - 1) = 0)"

definition align_down :: "u64 \<Rightarrow> u64" where
  "align_down value = value AND NOT (PAGE_SIZE - 1)"

definition align_up :: "u64 \<Rightarrow> u64 option" where
  "align_up value =
     (let down = align_down value in
      if down = value then Some value else checked_add down PAGE_SIZE)"

definition contains_range :: "u64 \<Rightarrow> u64 \<Rightarrow> u64 \<Rightarrow> u64 \<Rightarrow> bool" where
  "contains_range base len start range_len =
     (case checked_add base len of
        None \<Rightarrow> False
      | Some limit \<Rightarrow>
          (case checked_add start range_len of
             None \<Rightarrow> False
           | Some e \<Rightarrow> base \<le> start \<and> start \<le> e \<and> e \<le> limit))"

definition overlaps :: "u64 \<Rightarrow> u64 \<Rightarrow> u64 \<Rightarrow> u64 \<Rightarrow> bool" where
  "overlaps a_start a_len b_start b_len =
     (let a_end = saturating_add a_start a_len; b_end = saturating_add b_start b_len
      in a_start < b_end \<and> b_start < a_end)"

subsection \<open>The same over natural numbers\<close>

lemma page_mask: "PAGE_SIZE - 1 = mask 12"
  by (simp add: PAGE_SIZE_def mask_eq_exp_minus_1)

lemma unat_PAGE_SIZE [simp]: "unat PAGE_SIZE = 4096"
  by (simp add: PAGE_SIZE_def)

lemma unat_and_mask12: "unat (v AND mask 12 :: u64) = unat v mod 4096"
proof -
  have "unat (v AND mask 12) = unat (take_bit 12 v)" by (simp only: take_bit_eq_mask)
  also have "\<dots> = take_bit 12 (unat v)" by (rule unsigned_take_bit_eq)
  finally show ?thesis by (simp add: take_bit_eq_mod)
qed

lemma is_page_aligned_nat [unat_simps]: "is_page_aligned v \<longleftrightarrow> unat v mod 4096 = 0"
proof -
  have "v AND mask 12 = 0 \<longleftrightarrow> unat (v AND mask 12) = 0" by (simp add: word_unat_eq_iff)
  then show ?thesis by (simp only: is_page_aligned_def page_mask unat_and_mask12)
qed

lemma unat_align_down [unat_simps]: "unat (align_down v) = unat v - unat v mod 4096"
  by (simp only: align_down_def page_mask unat_and_not_mask) simp

lemma align_down_eq_iff: "align_down v = v \<longleftrightarrow> unat v mod 4096 = 0"
proof -
  have "align_down v = v \<longleftrightarrow> unat v - unat v mod 4096 = unat v"
    by (simp add: word_unat_eq_iff unat_align_down)
  then show ?thesis by (auto simp: mod_le_divisor)
qed

lemma round_up_nat:
  "(n + 4095) div 4096 * 4096 = (if n mod 4096 = 0 then n else n - n mod 4096 + 4096)" for n :: nat
proof -
  define k r where "k = n div 4096" and "r = n mod 4096"
  then have n: "n = r + k * 4096" and r: "r < 4096" by simp_all
  have "(n + 4095) div 4096 = k + (r + 4095) div 4096"
    using div_mult_self1 [of 4096 "r + 4095" k] by (simp add: n)
  moreover have "(r + 4095) div 4096 = (if r = 0 then 0 else 1)"
  proof (cases "r = 0")
    case False
    then obtain m where m: "r = Suc m" by (cases r) auto
    then have "r + 4095 = m + 4096" by simp
    then have "(r + 4095) div 4096 = m div 4096 + 1" by (simp only: div_add_self2)
    with m r show ?thesis by simp
  qed simp
  ultimately have "(n + 4095) div 4096 * 4096 = (if r = 0 then n else n - r + 4096)"
    using n by simp
  then show ?thesis by (simp only: r_def)
qed

lemma align_up_Some_iff [unat_simps]:
  "align_up v = Some w \<longleftrightarrow> unat w = (unat v + 4095) div 4096 * 4096"
  by (cases "unat v mod 4096 = 0")
    (auto simp: round_up_nat align_up_def Let_def align_down_eq_iff word_unat_eq_iff
      checked_add_Some_iff unat_align_down)

lemma align_up_None_iff:
  "align_up v = None \<longleftrightarrow> 2 ^ 64 \<le> (unat v + 4095) div 4096 * 4096"
proof (cases "unat v mod 4096 = 0")
  case True
  then show ?thesis
    using unat_u64_bound [of v] by (simp add: round_up_nat align_up_def Let_def align_down_eq_iff)
next
  case False
  then show ?thesis
    by (simp add: round_up_nat align_up_def Let_def align_down_eq_iff checked_add_None_iff
        unat_align_down)
qed

lemma align_up_bounds:
  assumes "align_up v = Some w"
  shows "unat w mod 4096 = 0" and "unat v \<le> unat w" and "unat w < unat v + 4096"
proof -
  have w: "unat w = (unat v + 4095) div 4096 * 4096" using assms by (simp add: align_up_Some_iff)
  then show "unat w mod 4096 = 0" by simp
  have "unat v mod 4096 < 4096" "unat v mod 4096 \<le> unat v" by simp_all
  then show "unat v \<le> unat w" "unat w < unat v + 4096"
    unfolding w round_up_nat by (auto simp del: mod_less_divisor)
qed

lemma contains_range_nat [unat_simps]:
  "contains_range base len start n \<longleftrightarrow>
     unat base + unat len < 2 ^ 64 \<and> unat base \<le> unat start
     \<and> unat start + unat n \<le> unat base + unat len"
proof -
  show ?thesis
  proof (cases "checked_add base len")
    case None
    from None [unfolded checked_add_None_iff] None show ?thesis by (simp add: contains_range_def)
  next
    case (Some l)
    then have l: "unat l = unat base + unat len" by (simp add: checked_add_Some_iff)
    show ?thesis
    proof (cases "checked_add start n")
      case None
      from None [unfolded checked_add_None_iff] None Some l unat_u64_bound [of l] show ?thesis
        by (simp add: contains_range_def)
    next
      case (Some e)
      from Some [unfolded checked_add_Some_iff] Some \<open>checked_add base len = Some l\<close> l
        unat_u64_bound [of l]
      show ?thesis by (simp add: contains_range_def word_le_nat_alt)
    qed
  qed
qed

lemma overlaps_nat [unat_simps]:
  "overlaps a m b n \<longleftrightarrow>
     unat a < min (unat b + unat n) (2 ^ 64 - 1) \<and> unat b < min (unat a + unat m) (2 ^ 64 - 1)"
  by (simp add: overlaps_def Let_def word_less_nat_alt unat_saturating_add)

end
