(* ===== verification/Mm_Vmo.thy ===== *)
theory Mm_Vmo
  imports Mm_Pages
begin

text \<open>
  Frame ranges, memory objects (\<open>Vmo\<close>) and address regions (\<open>Vmar\<close>) of
  \<open>kernel/src/mm/mod.rs\<close>: the constructors with their error cases, and the bounds check of
  \<open>Vmar::map\<close>.
\<close>

datatype memory_error = ME_Empty | ME_InvalidRange | ME_Unaligned | ME_OutOfBounds

type_synonym page_flags = u64

record phys_frame =
  pf_start :: u64

definition phys_frame_containing :: "u64 \<Rightarrow> phys_frame" where
  "phys_frame_containing addr = \<lparr>pf_start = align_down addr\<rparr>"

definition phys_frame_end :: "phys_frame \<Rightarrow> u64" where
  "phys_frame_end f = saturating_add (pf_start f) PAGE_SIZE"

record frame_range =
  fr_start :: phys_frame
  fr_count :: u64

definition from_byte_range :: "range \<Rightarrow> memory_error + frame_range" where
  "from_byte_range r =
     (if range_is_empty r then Inl ME_Empty
      else case align_up (rg_start r) of
             None \<Rightarrow> Inl ME_InvalidRange
           | Some start \<Rightarrow>
               let e = align_down (range_end r) in
               if e \<le> start then Inl ME_InvalidRange
               else Inr \<lparr>fr_start = \<lparr>pf_start = start\<rparr>, fr_count = (e - start) div PAGE_SIZE\<rparr>)"

definition frame_range_byte_len :: "frame_range \<Rightarrow> u64" where
  "frame_range_byte_len r = saturating_mul (fr_count r) PAGE_SIZE"

record mapping =
  mp_virt :: u64
  mp_len :: u64
  mp_vmo_offset :: u64
  mp_flags :: page_flags

datatype vmo_backing =
  Anonymous | PhysicalRam u64 | MmioBacking u64 | Dma u64 | DmaPaged

record vmo =
  vmo_len :: u64
  vmo_backing :: vmo_backing

definition vmo_of_len :: "u64 \<Rightarrow> vmo_backing \<Rightarrow> memory_error + vmo" where
  "vmo_of_len len backing =
     (case align_up len of
        None \<Rightarrow> Inl ME_InvalidRange
      | Some n \<Rightarrow> Inr \<lparr>vmo_len = n, vmo_backing = backing\<rparr>)"

definition vmo_new :: "u64 \<Rightarrow> memory_error + vmo" where
  "vmo_new len = (if len = 0 then Inl ME_Empty else vmo_of_len len Anonymous)"

definition from_physical_range :: "u64 \<Rightarrow> u64 \<Rightarrow> memory_error + vmo" where
  "from_physical_range phys_base len =
     (if len = 0 then Inl ME_Empty
      else if \<not> is_page_aligned phys_base then Inl ME_Unaligned
      else vmo_of_len len (PhysicalRam phys_base))"

definition from_mmio_range :: "u64 \<Rightarrow> u64 \<Rightarrow> memory_error + vmo" where
  "from_mmio_range phys_base len =
     (if len = 0 then Inl ME_Empty
      else if \<not> is_page_aligned phys_base then Inl ME_Unaligned
      else vmo_of_len len (MmioBacking phys_base))"

definition from_dma_range :: "u64 \<Rightarrow> u64 \<Rightarrow> memory_error + vmo" where
  "from_dma_range phys_base len =
     (if len = 0 then Inl ME_Empty
      else if \<not> is_page_aligned phys_base then Inl ME_Unaligned
      else vmo_of_len len (Dma phys_base))"

definition new_dma_paged :: "u64 \<Rightarrow> memory_error + vmo" where
  "new_dma_paged len =
     (case vmo_new len of
        Inl e \<Rightarrow> Inl e
      | Inr v \<Rightarrow> Inr (v\<lparr>vmo_backing := DmaPaged\<rparr>))"

definition vmo_frame_count :: "vmo \<Rightarrow> u64" where
  "vmo_frame_count v = vmo_len v div PAGE_SIZE"

record vmar =
  va_base :: u64
  va_len :: u64

definition vmar_new :: "u64 \<Rightarrow> u64 \<Rightarrow> memory_error + vmar" where
  "vmar_new base len =
     (if len = 0 then Inl ME_Empty
      else if \<not> is_page_aligned base \<or> \<not> is_page_aligned len then Inl ME_Unaligned
      else Inr \<lparr>va_base = base, va_len = len\<rparr>)"

definition vmar_map ::
  "vmar \<Rightarrow> vmo \<Rightarrow> u64 \<Rightarrow> u64 \<Rightarrow> u64 \<Rightarrow> page_flags \<Rightarrow> memory_error + mapping" where
  "vmar_map self vmo vmo_offset virt len flags =
     (if len = 0 then Inl ME_Empty
      else if \<not> is_page_aligned vmo_offset \<or> \<not> is_page_aligned virt \<or> \<not> is_page_aligned len
      then Inl ME_Unaligned
      else if \<not> contains_range (va_base self) (va_len self) virt len then Inl ME_OutOfBounds
      else if \<not> contains_range 0 (vmo_len vmo) vmo_offset len then Inl ME_OutOfBounds
      else Inr \<lparr>mp_virt = virt, mp_len = len, mp_vmo_offset = vmo_offset, mp_flags = flags\<rparr>)"

section \<open>Properties\<close>

text \<open>
  A VMO covers what was asked for and no more than the rest of the last page. Every
  constructor fails with \<open>Empty\<close> on length 0 and with \<open>InvalidRange\<close> when rounding up leaves
  the address space; otherwise (with an aligned base) the length of the object is a nonzero
  number of whole pages, at least the request and less than one page above it.
\<close>

lemma vmo_covers_request:
  assumes "mk \<in> {vmo_new, from_physical_range base, from_mmio_range base, from_dma_range base,
      new_dma_paged}" and "is_page_aligned base"
  shows "case mk len of
      Inl e \<Rightarrow> (e = ME_Empty \<and> len = 0) \<or> (e = ME_InvalidRange \<and> 2 ^ 64 - 4096 < unat len)
    | Inr v \<Rightarrow> unat (vmo_len v) mod 4096 = 0 \<and> 0 < unat len \<and> unat len \<le> unat (vmo_len v)
        \<and> unat (vmo_len v) < unat len + 4096 \<and> unat (vmo_frame_count v) * 4096 = unat (vmo_len v)"
proof -
  have *: "case vmo_of_len len b of
      Inl e \<Rightarrow> e = ME_InvalidRange \<and> 2 ^ 64 - 4096 < unat len
    | Inr v \<Rightarrow> unat (vmo_len v) mod 4096 = 0 \<and> unat len \<le> unat (vmo_len v)
        \<and> unat (vmo_len v) < unat len + 4096 \<and> unat (vmo_frame_count v) * 4096 = unat (vmo_len v)" for b
  proof (cases "align_up len")
    case None
    then have big: "2 ^ 64 \<le> (unat len + 4095) div 4096 * 4096" by (simp add: align_up_None_iff)
    have "(unat len + 4095) div 4096 * 4096 \<le> unat len + 4095" by simp
    with big have "2 ^ 64 - 4096 < unat len" by simp
    with None show ?thesis by (simp add: vmo_of_len_def)
  next
    case (Some n)
    note bounds = align_up_bounds [OF Some]
    have "unat (n div PAGE_SIZE) * 4096 = unat n"
      using bounds(1) by (simp add: unat_div_distrib mod_eq_0_iff_dvd)
    with Some bounds show ?thesis by (simp add: vmo_of_len_def vmo_frame_count_def)
  qed
  have nz: "0 < unat len" if "len \<noteq> 0"
    using that by (metis gr0I unat_eq_zero)
  have "\<exists>b. mk len = (if len = 0 then Inl ME_Empty else vmo_of_len len b)"
    using assms
    by (elim insertE emptyE) (auto simp: vmo_new_def from_physical_range_def from_mmio_range_def
        from_dma_range_def new_dma_paged_def vmo_of_len_def split: option.splits)
  then obtain b where "mk len = (if len = 0 then Inl ME_Empty else vmo_of_len len b)" by blast
  with *[of b] nz show ?thesis by (cases "len = 0") (auto split: sum.splits)
qed

text \<open>
  A mapping never leaves its region or its object. When \<open>Vmar::map\<close> accepts, every page
  of the mapping lies inside the region and the page of the VMO behind it lies inside the
  VMO, with no wrap-around; when the request is nonempty and page-aligned but some page would
  lie outside either, it is refused with \<open>OutOfBounds\<close>.
\<close>

lemma vmar_map_in_bounds:
  assumes "len \<noteq> 0" and "is_page_aligned off" and "is_page_aligned virt" and "is_page_aligned len"
    and "unat (va_base va) + unat (va_len va) < 2 ^ 64"
  shows "case vmar_map va vmo off virt len flags of
      Inr m \<Rightarrow> m = \<lparr>mp_virt = virt, mp_len = len, mp_vmo_offset = off, mp_flags = flags\<rparr>
        \<and> (\<forall>i < unat len div 4096.
             unat (va_base va) \<le> unat virt + i * 4096
             \<and> unat virt + i * 4096 + 4096 \<le> unat (va_base va) + unat (va_len va)
             \<and> unat off + i * 4096 + 4096 \<le> unat (vmo_len vmo))
    | Inl e \<Rightarrow> e = ME_OutOfBounds
        \<and> (\<exists>i < unat len div 4096.
             unat virt + i * 4096 < unat (va_base va)
             \<or> unat (va_base va) + unat (va_len va) < unat virt + i * 4096 + 4096
             \<or> unat (vmo_len vmo) < unat off + i * 4096 + 4096)"
proof -
  define n where "n = unat len div 4096"
  have "unat len mod 4096 = 0" using assms(4) by (simp add: is_page_aligned_nat)
  then have len: "unat len = n * 4096" unfolding n_def by (metis add_0_right div_mult_mod_eq)
  have n0: "0 < n" using assms(1) len by (metis gr0I mult_is_0 unat_eq_zero)
  have last: "n - 1 < n" "(n - 1) * 4096 + 4096 = n * 4096"
    using n0 by (simp_all add: mult_eq_if)
  let ?in = "unat (va_base va) \<le> unat virt \<and> unat virt + unat len \<le> unat (va_base va) + unat (va_len va)
    \<and> unat off + unat len \<le> unat (vmo_len vmo)"
  have map: "vmar_map va vmo off virt len flags =
      (if ?in then Inr \<lparr>mp_virt = virt, mp_len = len, mp_vmo_offset = off, mp_flags = flags\<rparr>
       else Inl ME_OutOfBounds)"
    using assms unat_u64_bound [of "vmo_len vmo"] by (simp add: vmar_map_def contains_range_nat)
  show ?thesis
  proof (cases ?in)
    case True
    have "unat (va_base va) \<le> unat virt + i * 4096
        \<and> unat virt + i * 4096 + 4096 \<le> unat (va_base va) + unat (va_len va)
        \<and> unat off + i * 4096 + 4096 \<le> unat (vmo_len vmo)" if "i < n" for i
    proof -
      have "Suc i * 4096 \<le> n * 4096" using that by (intro mult_le_mono1) simp
      with True len show ?thesis by (intro conjI) simp_all
    qed
    with map True show ?thesis unfolding n_def [symmetric] by simp
  next
    case False
    then have "(unat virt + 0 * 4096 < unat (va_base va))
        \<or> unat (va_base va) + unat (va_len va) < unat virt + (n - 1) * 4096 + 4096
        \<or> unat (vmo_len vmo) < unat off + (n - 1) * 4096 + 4096"
      using last(2) len by linarith
    then have "\<exists>i < n. unat virt + i * 4096 < unat (va_base va)
        \<or> unat (va_base va) + unat (va_len va) < unat virt + i * 4096 + 4096
        \<or> unat (vmo_len vmo) < unat off + i * 4096 + 4096"
      using n0 last(1) by blast
    moreover have "vmar_map va vmo off virt len flags = Inl ME_OutOfBounds"
      using map False by (simp only: if_False)
    ultimately show ?thesis unfolding n_def [symmetric] by (simp only: sum.case simp_thms)
  qed
qed

end
