(* ===== verification/Mm_Boot_Frames.thy ===== *)
theory Mm_Boot_Frames
  imports Mm_Vmo
begin

text \<open>
  The boot memory plan and the boot frame allocator of \<open>kernel/src/mm/mod.rs\<close>: a cursor that
  walks the usable regions of the boot memory map page by page and skips excluded pages.

  \<open>region_index\<close> (\<open>usize\<close>) is a natural number. The allocator's loops are recursive functions;
  they terminate because each round either moves on to a later region or moves the cursor up
  inside a region.
\<close>

section \<open>The plan\<close>

definition push_exclusion :: "range list \<Rightarrow> range \<Rightarrow> range list" where
  "push_exclusion exclusions r = (if range_is_empty r then exclusions else exclusions @ [r])"

record kernel_memory_plan =
  kp_regions :: "mem_region list"
  kp_exclusions :: "range list"

definition from_boot_info :: "boot_info \<Rightarrow> kernel_memory_plan" where
  "from_boot_info boot =
     (let ex = push_exclusion [] (bi_kernel_phys boot);
          ex = push_exclusion ex (bi_initrd boot);
          ex = (if has_framebuffer boot
                then push_exclusion ex \<lparr>rg_start = fb_phys (bi_framebuffer boot),
                                        rg_len = fb_len (bi_framebuffer boot)\<rparr>
                else ex)
      in \<lparr>kp_regions = bi_mem_regions boot, kp_exclusions = ex\<rparr>)"

section \<open>The allocator\<close>

record boot_frame_allocator =
  ba_regions :: "mem_region list"
  ba_exclusions :: "range list"
  ba_additional :: "range list"
  ba_index :: nat
  ba_cursor :: u64
  ba_limit :: u64

function advance_to_usable_region :: "boot_frame_allocator \<Rightarrow> boot_frame_allocator" where
  "advance_to_usable_region a =
     (if ba_index a < length (ba_regions a) then
        let region = ba_regions a ! ba_index a in
        if mr_kind region \<noteq> Usable then advance_to_usable_region (a\<lparr>ba_index := ba_index a + 1\<rparr>)
        else
          (case align_up (rg_start (mr_range region)) of
             None \<Rightarrow> a\<lparr>ba_cursor := - 1, ba_limit := - 1\<rparr>
           | Some cursor \<Rightarrow>
               let limit = align_down (range_end (mr_range region)) in
               if cursor < limit then a\<lparr>ba_cursor := cursor, ba_limit := limit\<rparr>
               else advance_to_usable_region (a\<lparr>ba_index := ba_index a + 1\<rparr>))
      else a\<lparr>ba_cursor := - 1, ba_limit := - 1\<rparr>)"
  by pat_completeness auto
termination
  by (relation "measure (\<lambda>a. length (ba_regions a) - ba_index a)") auto

declare advance_to_usable_region.simps [simp del]

definition boot_frame_allocator_new :: "mem_region list \<Rightarrow> range list \<Rightarrow> boot_frame_allocator" where
  "boot_frame_allocator_new regions exclusions =
     advance_to_usable_region
       \<lparr>ba_regions = regions, ba_exclusions = exclusions, ba_additional = [],
        ba_index = 0, ba_cursor = 0, ba_limit = 0\<rparr>"

definition excluding :: "boot_frame_allocator \<Rightarrow> range list \<Rightarrow> boot_frame_allocator" where
  "excluding a ranges = a\<lparr>ba_additional := ranges\<rparr>"

definition is_excluded :: "boot_frame_allocator \<Rightarrow> u64 \<Rightarrow> bool" where
  "is_excluded a frame =
     list_ex (\<lambda>r. overlaps frame PAGE_SIZE (rg_start r) (rg_len r))
       (ba_exclusions a @ ba_additional a)"

lemma advance_cases:
  obtains (stop) "advance_to_usable_region a = a\<lparr>ba_cursor := - 1, ba_limit := - 1\<rparr>"
      and "length (ba_regions a) \<le> ba_index a \<or>
        mr_kind (ba_regions a ! ba_index a) = Usable
        \<and> align_up (rg_start (mr_range (ba_regions a ! ba_index a))) = None"
  | (take) c where "ba_index a < length (ba_regions a)"
      and "mr_kind (ba_regions a ! ba_index a) = Usable"
      and "align_up (rg_start (mr_range (ba_regions a ! ba_index a))) = Some c"
      and "c < align_down (range_end (mr_range (ba_regions a ! ba_index a)))"
      and "advance_to_usable_region a =
        a\<lparr>ba_cursor := c, ba_limit := align_down (range_end (mr_range (ba_regions a ! ba_index a)))\<rparr>"
  | (skip) "ba_index a < length (ba_regions a)"
      and "mr_kind (ba_regions a ! ba_index a) = Usable \<Longrightarrow>
        \<exists>c. align_up (rg_start (mr_range (ba_regions a ! ba_index a))) = Some c
          \<and> align_down (range_end (mr_range (ba_regions a ! ba_index a))) \<le> c"
      and "advance_to_usable_region a = advance_to_usable_region (a\<lparr>ba_index := Suc (ba_index a)\<rparr>)"
proof -
  note eq = advance_to_usable_region.simps [of a]
  let ?r = "ba_regions a ! ba_index a"
  show thesis
  proof (cases "ba_index a < length (ba_regions a)")
    case True
    show thesis
    proof (cases "mr_kind ?r = Usable")
      case usable: True
      show thesis
      proof (cases "align_up (rg_start (mr_range ?r))")
        case None
        with True usable eq show thesis by (intro stop) auto
      next
        case (Some c)
        with True usable eq show thesis
          by (cases "c < align_down (range_end (mr_range ?r))") (auto intro: take skip simp: Let_def)
      qed
    next
      case False
      with True eq show thesis by (intro skip) auto
    qed
  next
    case False
    with eq show thesis by (intro stop) auto
  qed
qed

lemma advance_invariant:
  "ba_regions (advance_to_usable_region a) = ba_regions a
   \<and> ba_exclusions (advance_to_usable_region a) = ba_exclusions a
   \<and> ba_additional (advance_to_usable_region a) = ba_additional a
   \<and> ba_index a \<le> ba_index (advance_to_usable_region a)
   \<and> (ba_cursor (advance_to_usable_region a) < ba_limit (advance_to_usable_region a) \<longrightarrow>
        ba_index (advance_to_usable_region a) < length (ba_regions a))"
proof (induction a rule: measure_induct_rule [of "\<lambda>a. length (ba_regions a) - ba_index a"])
  case (less a)
  show ?case
  proof (cases rule: advance_cases [of a])
    case skip
    let ?b = "a\<lparr>ba_index := Suc (ba_index a)\<rparr>"
    have "length (ba_regions ?b) - ba_index ?b < length (ba_regions a) - ba_index a"
      using skip(1) by simp
    from less [OF this] skip(3) show ?thesis by auto
  qed simp_all
qed

lemmas advance_fields [simp] = advance_invariant [THEN conjunct1]
  advance_invariant [THEN conjunct2, THEN conjunct1]
  advance_invariant [THEN conjunct2, THEN conjunct2, THEN conjunct1]

lemmas advance_index = advance_invariant [THEN conjunct2, THEN conjunct2, THEN conjunct2]

text \<open>The order the allocator's loops descend.\<close>

definition alloc_order :: "(boot_frame_allocator \<times> boot_frame_allocator) set" where
  "alloc_order =
     inv_image (less_than <*lex*> less_than)
       (\<lambda>a. (length (ba_regions a) - ba_index a, unat (ba_limit a) - unat (ba_cursor a)))"

lemma wf_alloc_order [simp]: "wf alloc_order"
  by (auto simp: alloc_order_def)

text \<open>The head of \<open>next_frame\<close>'s loop: move on to a later region when this one is used up.\<close>

definition refill :: "boot_frame_allocator \<Rightarrow> boot_frame_allocator" where
  "refill a =
     (if ba_limit a \<le> ba_cursor a
      then advance_to_usable_region (a\<lparr>ba_index := ba_index a + 1\<rparr>) else a)"

definition bump :: "boot_frame_allocator \<Rightarrow> boot_frame_allocator" where
  "bump a = a\<lparr>ba_cursor := saturating_add (ba_cursor a) PAGE_SIZE\<rparr>"

lemma refill_fields [simp]:
  "ba_regions (refill a) = ba_regions a" "ba_exclusions (refill a) = ba_exclusions a"
  "ba_additional (refill a) = ba_additional a"
  by (simp_all add: refill_def)

lemma bump_fields [simp]:
  "ba_regions (bump a) = ba_regions a" "ba_exclusions (bump a) = ba_exclusions a"
  "ba_additional (bump a) = ba_additional a" "ba_limit (bump a) = ba_limit a"
  "ba_index (bump a) = ba_index a"
  by (simp_all add: bump_def)

lemma bump_refill_order:
  assumes "\<not> ba_limit (refill a) \<le> ba_cursor (refill a)"
  shows "(bump (refill a), a) \<in> alloc_order"
proof -
  have c: "unat (ba_cursor (refill a)) < unat (ba_limit (refill a))"
    using assms by (simp add: word_le_nat_alt not_le)
  then have up: "unat (ba_cursor (refill a)) < unat (ba_cursor (bump (refill a)))"
    using unat_u64_bound [of "ba_limit (refill a)"] by (simp add: bump_def unat_saturating_add)
  show ?thesis
  proof (cases "ba_limit a \<le> ba_cursor a")
    case True
    then have "Suc (ba_index a) \<le> ba_index (refill a)" "ba_index (refill a) < length (ba_regions a)"
      using advance_index [of "a\<lparr>ba_index := ba_index a + 1\<rparr>"] assms by (auto simp: refill_def)
    then show ?thesis by (auto simp: alloc_order_def)
  next
    case False
    with c up show ?thesis by (auto simp: alloc_order_def refill_def)
  qed
qed

function next_frame :: "boot_frame_allocator \<Rightarrow> u64 option \<times> boot_frame_allocator" where
  "next_frame a =
     (let a1 = refill a in
      if ba_limit a1 \<le> ba_cursor a1 then (None, a1)
      else
        let frame = ba_cursor a1; a2 = bump a1 in
        if is_excluded a2 frame then next_frame a2 else (Some frame, a2))"
  by pat_completeness auto
termination
  by (relation alloc_order) (auto intro: bump_refill_order)

declare next_frame.simps [simp del]

lemma next_frame_cases:
  obtains (stop) "ba_limit (refill a) \<le> ba_cursor (refill a)" and "next_frame a = (None, refill a)"
  | (skip) "\<not> ba_limit (refill a) \<le> ba_cursor (refill a)"
      and "is_excluded a (ba_cursor (refill a))" and "next_frame a = next_frame (bump (refill a))"
  | (hit) "\<not> ba_limit (refill a) \<le> ba_cursor (refill a)"
      and "\<not> is_excluded a (ba_cursor (refill a))"
      and "next_frame a = (Some (ba_cursor (refill a)), bump (refill a))"
proof -
  have "is_excluded (bump (refill a)) f = is_excluded a f" for f
    by (simp add: is_excluded_def)
  with next_frame.simps [of a] show thesis
    by (cases "ba_limit (refill a) \<le> ba_cursor (refill a)"; cases "is_excluded a (ba_cursor (refill a))")
      (auto simp: Let_def intro: stop skip hit)
qed

lemma next_frame_invariant:
  "ba_regions (snd (next_frame a)) = ba_regions a
   \<and> ba_exclusions (snd (next_frame a)) = ba_exclusions a
   \<and> ba_additional (snd (next_frame a)) = ba_additional a
   \<and> (fst (next_frame a) \<noteq> None \<longrightarrow> (snd (next_frame a), a) \<in> alloc_order)"
proof (induction a rule: wf_induct_rule [OF wf_alloc_order])
  case (1 a)
  show ?case
  proof (cases rule: next_frame_cases [of a])
    case skip
    have "trans alloc_order" by (auto simp: alloc_order_def intro: trans_inv_image)
    with skip 1 [OF bump_refill_order [OF skip(1)]] bump_refill_order [OF skip(1)] show ?thesis
      by (auto dest: transD)
  next
    case hit
    with bump_refill_order [OF hit(1)] show ?thesis by simp
  qed simp
qed

lemma next_frame_order: "next_frame a = (Some f, a') \<Longrightarrow> (a', a) \<in> alloc_order"
  using next_frame_invariant [of a] by simp

function count_from :: "boot_frame_allocator \<Rightarrow> u64 \<Rightarrow> u64" where
  "count_from a wanted =
     (case next_frame a of
        (None, _) \<Rightarrow> wanted
      | (Some _, a') \<Rightarrow> count_from a' (saturating_add wanted 1))"
  by pat_completeness auto
termination
  by (relation "inv_image alloc_order fst") (auto intro: next_frame_order [OF sym])

declare count_from.simps [simp del]

definition count_remaining :: "boot_frame_allocator \<Rightarrow> u64" where
  "count_remaining a = count_from a 0"

definition usable_frame_count :: "kernel_memory_plan \<Rightarrow> u64" where
  "usable_frame_count plan =
     count_remaining (boot_frame_allocator_new (kp_regions plan) (kp_exclusions plan))"

function next_run_loop ::
  "boot_frame_allocator \<Rightarrow> u64 \<Rightarrow> u64 option \<Rightarrow> u64 \<Rightarrow> u64 \<Rightarrow> u64 option \<times> boot_frame_allocator" where
  "next_run_loop a wanted base held prev =
     (case next_frame a of
        (None, a') \<Rightarrow> (None, a')
      | (Some frame, a') \<Rightarrow>
          let (base', held') =
                (if base \<noteq> None \<and> frame = saturating_add prev PAGE_SIZE then (base, held + 1)
                 else (Some frame, 1))
          in if held' = wanted then (base', a')
             else next_run_loop a' wanted base' held' frame)"
  by pat_completeness auto
termination
  by (relation "inv_image alloc_order fst") (auto intro: next_frame_order [OF sym])

definition next_run :: "boot_frame_allocator \<Rightarrow> u64 \<Rightarrow> u64 option \<times> boot_frame_allocator" where
  "next_run a wanted = (if wanted = 0 then (None, a) else next_run_loop a wanted None 0 0)"

section \<open>What the allocator enumerates\<close>

definition pages :: "u64 \<Rightarrow> u64 \<Rightarrow> u64 list" where
  "pages c l = map (\<lambda>k. of_nat (k * 4096)) [unat c div 4096 ..< unat l div 4096]"

definition region_frames :: "mem_region \<Rightarrow> u64 list" where
  "region_frames r =
     (if mr_kind r = Usable then
        (case align_up (rg_start (mr_range r)) of
           None \<Rightarrow> []
         | Some c \<Rightarrow> pages c (align_down (range_end (mr_range r))))
      else [])"

definition excluded_by :: "range list \<Rightarrow> u64 \<Rightarrow> bool" where
  "excluded_by rs f = list_ex (\<lambda>r. overlaps f PAGE_SIZE (rg_start r) (rg_len r)) rs"

text \<open>The pages of the usable regions, in map order, without the excluded ones.\<close>

definition usable_frames :: "mem_region list \<Rightarrow> range list \<Rightarrow> u64 list" where
  "usable_frames regions ex =
     filter (\<lambda>f. \<not> excluded_by ex f) (concat (map region_frames regions))"

text \<open>No usable region starts in the last, incomplete page of the address space.\<close>

definition alignable :: "mem_region list \<Rightarrow> bool" where
  "alignable regions =
     list_all (\<lambda>r. mr_kind r = Usable \<longrightarrow> align_up (rg_start (mr_range r)) \<noteq> None) regions"

definition remaining :: "boot_frame_allocator \<Rightarrow> u64 list" where
  "remaining a =
     filter (\<lambda>f. \<not> is_excluded a f)
       (pages (ba_cursor a) (ba_limit a)
        @ concat (map region_frames (drop (Suc (ba_index a)) (ba_regions a))))"

definition on_pages :: "boot_frame_allocator \<Rightarrow> bool" where
  "on_pages a \<longleftrightarrow>
     ba_limit a \<le> ba_cursor a
     \<or> unat (ba_cursor a) mod 4096 = 0 \<and> unat (ba_limit a) mod 4096 = 0"

lemma in_pages_iff:
  "f \<in> set (pages c l) \<longleftrightarrow> (\<exists>k. f = of_nat (k * 4096) \<and> unat c div 4096 \<le> k \<and> k < unat l div 4096)"
  by (auto simp: pages_def)

lemma length_pages: "length (pages c l) = unat l div 4096 - unat c div 4096"
  by (simp add: pages_def)

lemma pages_sorted: "sorted_wrt (<) (pages c l)"
proof -
  have "(of_nat (j * 4096) :: u64) < of_nat (k * 4096)" if "j < k" "k < unat l div 4096" for j k
  proof -
    have "Suc k * 4096 \<le> unat l"
      using that(2) less_eq_div_iff_mult_less_eq [of 4096 "Suc k" "unat l"] by simp
    then have "k * 4096 < 2 ^ 64" using unat_u64_bound [of l] by simp
    moreover have "j * 4096 < k * 4096" using that(1) by simp
    ultimately show ?thesis by (simp add: word_less_nat_alt unat_of_nat del: of_nat_mult)
  qed
  then show ?thesis
    unfolding pages_def sorted_wrt_map by (intro sorted_wrt_mono_rel [OF _ sorted_wrt_upt]) auto
qed

lemma pages_Nil: "l \<le> c \<Longrightarrow> pages c l = []"
  by (simp add: pages_def word_le_nat_alt div_le_mono)

lemma pages_step:
  assumes "unat c mod 4096 = 0" and "unat l mod 4096 = 0" and "\<not> l \<le> c"
  shows "pages c l = c # pages (saturating_add c PAGE_SIZE) l"
    and "unat (saturating_add c PAGE_SIZE) mod 4096 = 0"
proof -
  define k m where "k = unat c div 4096" and "m = unat l div 4096"
  then have k: "unat c = k * 4096" and m: "unat l = m * 4096"
    using assms(1,2) by (auto simp: mod_eq_0_iff_dvd)
  have "k < m" using assms(3) k m by (simp add: word_le_nat_alt not_le)
  then have "Suc k * 4096 \<le> unat l" unfolding m by (intro mult_le_mono1) simp
  then have s: "unat (saturating_add c PAGE_SIZE) = Suc k * 4096"
    using unat_u64_bound [of l] by (simp add: unat_saturating_add k)
  then show "unat (saturating_add c PAGE_SIZE) mod 4096 = 0" by (simp only: mod_mult_self2_is_0)
  have c: "of_nat (k * 4096) = c" using k by (metis of_nat_unat ucast_id)
  have "unat (saturating_add c PAGE_SIZE) div 4096 = Suc k" using s by (simp only: nonzero_mult_div_cancel_right)
  with \<open>k < m\<close> c show "pages c l = c # pages (saturating_add c PAGE_SIZE) l"
    unfolding pages_def k_def [symmetric] m_def [symmetric] by (simp add: upt_rec [of k m] del: of_nat_mult)
qed

lemma region_frames_skip:
  "(mr_kind r = Usable \<Longrightarrow> \<exists>c. align_up (rg_start (mr_range r)) = Some c
     \<and> align_down (range_end (mr_range r)) \<le> c) \<Longrightarrow> region_frames r = []"
  by (auto simp: region_frames_def pages_Nil)

lemma advance_spec:
  assumes "alignable (ba_regions a)"
  defines "a' \<equiv> advance_to_usable_region a"
  shows "pages (ba_cursor a') (ba_limit a') @ concat (map region_frames (drop (Suc (ba_index a')) (ba_regions a)))
      = concat (map region_frames (drop (ba_index a) (ba_regions a)))
    \<and> on_pages a' \<and> (ba_limit a' \<le> ba_cursor a' \<longrightarrow> length (ba_regions a) \<le> ba_index a')"
  using assms(1) unfolding a'_def
proof (induction a rule: measure_induct_rule [of "\<lambda>a. length (ba_regions a) - ba_index a"])
  case (less a)
  let ?r = "ba_regions a ! ba_index a"
  show ?case
  proof (cases rule: advance_cases [of a])
    case stop
    have "length (ba_regions a) \<le> ba_index a"
      using stop(2) less.prems by (auto simp: alignable_def list_all_length not_le [symmetric])
    with stop(1) show ?thesis by (simp add: pages_Nil on_pages_def)
  next
    case (take c)
    have "drop (ba_index a) (ba_regions a) = ?r # drop (Suc (ba_index a)) (ba_regions a)"
      using take(1) by (simp add: Cons_nth_drop_Suc)
    moreover have "region_frames ?r = pages c (align_down (range_end (mr_range ?r)))"
      using take(2,3) by (simp add: region_frames_def)
    moreover have "unat (align_down (range_end (mr_range ?r))) mod 4096 = 0"
      by (simp add: unat_align_down minus_mod_eq_mult_div)
    ultimately show ?thesis
      using take(4,5) align_up_bounds(1) [OF take(3)] by (auto simp: on_pages_def dest: leD)
  next
    case skip
    let ?b = "a\<lparr>ba_index := Suc (ba_index a)\<rparr>"
    have "length (ba_regions ?b) - ba_index ?b < length (ba_regions a) - ba_index a"
      using skip(1) by simp
    note IH = less.IH [OF this]
    have "drop (ba_index a) (ba_regions a) = ?r # drop (Suc (ba_index a)) (ba_regions a)"
      using skip(1) by (simp add: Cons_nth_drop_Suc)
    then show ?thesis using IH less.prems skip(3) region_frames_skip [OF skip(2)] by simp
  qed
qed

lemma refill_spec:
  assumes "alignable (ba_regions a)" and "on_pages a"
  shows "remaining (refill a) = remaining a" and "on_pages (refill a)"
    and "ba_limit (refill a) \<le> ba_cursor (refill a) \<Longrightarrow> remaining a = []"
proof -
  let ?b = "a\<lparr>ba_index := Suc (ba_index a)\<rparr>"
  have "remaining (refill a) = remaining a \<and> on_pages (refill a)
    \<and> (ba_limit (refill a) \<le> ba_cursor (refill a) \<longrightarrow> remaining a = [])"
  proof (cases "ba_limit a \<le> ba_cursor a")
    case True
    have ex: "is_excluded (advance_to_usable_region ?b) = is_excluded a"
      by (simp add: is_excluded_def fun_eq_iff)
    from advance_spec [of ?b] assms(1) True show ?thesis
      by (auto simp: refill_def remaining_def ex pages_Nil)
  next
    case False
    with assms(2) show ?thesis by (simp add: refill_def)
  qed
  then show "remaining (refill a) = remaining a" "on_pages (refill a)"
    "ba_limit (refill a) \<le> ba_cursor (refill a) \<Longrightarrow> remaining a = []" by auto
qed

lemma bump_spec:
  assumes "on_pages a" and "\<not> ba_limit a \<le> ba_cursor a"
  shows "on_pages (bump a)"
    and "remaining a = (if is_excluded a (ba_cursor a) then remaining (bump a)
                        else ba_cursor a # remaining (bump a))"
proof -
  have al: "unat (ba_cursor a) mod 4096 = 0" "unat (ba_limit a) mod 4096 = 0"
    using assms by (auto simp: on_pages_def)
  note st = pages_step [OF al assms(2)]
  have ex: "is_excluded (bump a) = is_excluded a" by (simp add: is_excluded_def fun_eq_iff)
  show "on_pages (bump a)" using al st(2) by (simp add: on_pages_def bump_def)
  show "remaining a = (if is_excluded a (ba_cursor a) then remaining (bump a)
                        else ba_cursor a # remaining (bump a))"
    unfolding remaining_def ex using st(1) by (simp add: bump_def)
qed

lemma next_frame_spec:
  assumes "alignable (ba_regions a)" and "on_pages a"
  shows "case next_frame a of
      (None, a') \<Rightarrow> remaining a = []
    | (Some f, a') \<Rightarrow> remaining a = f # remaining a' \<and> on_pages a'"
  using assms
proof (induction a rule: wf_induct_rule [OF wf_alloc_order])
  case (1 a)
  note rf = refill_spec [OF 1(2,3)]
  have ex: "is_excluded (refill a) = is_excluded a" by (simp add: is_excluded_def fun_eq_iff)
  show ?case
  proof (cases rule: next_frame_cases [of a])
    case stop
    with rf(3) show ?thesis by simp
  next
    case skip
    note bs = bump_spec [OF rf(2) skip(1)]
    from 1(1) [OF bump_refill_order [OF skip(1)]] bs 1(2) rf(1) skip(2,3) show ?thesis
      by (auto simp: ex split: prod.splits option.splits)
  next
    case hit
    note bs = bump_spec [OF rf(2) hit(1)]
    with rf(1) hit(2,3) show ?thesis by (simp add: ex)
  qed
qed

function drain_frames :: "boot_frame_allocator \<Rightarrow> u64 list" where
  "drain_frames a =
     (case next_frame a of (None, _) \<Rightarrow> [] | (Some f, a') \<Rightarrow> f # drain_frames a')"
  by pat_completeness auto
termination
  by (relation alloc_order) (auto intro: next_frame_order [OF sym])

declare drain_frames.simps [simp del]

lemma next_frame_fields:
  "next_frame a = (r, a') \<Longrightarrow> ba_regions a' = ba_regions a \<and> ba_exclusions a' = ba_exclusions a
     \<and> ba_additional a' = ba_additional a"
  using next_frame_invariant [of a] by simp

lemma drain_remaining:
  "alignable (ba_regions a) \<Longrightarrow> on_pages a \<Longrightarrow> drain_frames a = remaining a"
proof (induction a rule: wf_induct_rule [OF wf_alloc_order])
  case (1 a)
  obtain r a' where n: "next_frame a = (r, a')" by fastforce
  show ?case
  proof (cases r)
    case None
    with n next_frame_spec [OF 1(2,3)] show ?thesis by (simp add: drain_frames.simps [of a])
  next
    case (Some f)
    with n next_frame_spec [OF 1(2,3)] have "remaining a = f # remaining a'" "on_pages a'" by simp_all
    with n Some 1(1) [of a'] 1(2) next_frame_order [of a f a'] next_frame_fields [OF n] show ?thesis
      by (simp add: drain_frames.simps [of a])
  qed
qed

lemma count_from_remaining:
  "alignable (ba_regions a) \<Longrightarrow> on_pages a \<Longrightarrow>
     unat (count_from a n) = min (unat n + length (remaining a)) (2 ^ 64 - 1)"
proof (induction a arbitrary: n rule: wf_induct_rule [OF wf_alloc_order])
  case (1 a)
  obtain r a' where st: "next_frame a = (r, a')" by fastforce
  show ?case
  proof (cases r)
    case None
    with st next_frame_spec [OF 1(2,3)] unat_u64_bound [of n] show ?thesis
      by (simp add: count_from.simps [of a])
  next
    case (Some f)
    with st next_frame_spec [OF 1(2,3)] have r: "remaining a = f # remaining a'" "on_pages a'" by simp_all
    have "unat (count_from a n) = unat (count_from a' (saturating_add n 1))"
      using st Some by (simp add: count_from.simps [of a])
    also have "\<dots> = min (unat (saturating_add n 1) + length (remaining a')) (2 ^ 64 - 1)"
      using 1(1) [of a'] 1(2) st Some r next_frame_order [of a f a'] next_frame_fields [OF st] by simp
    finally show ?thesis by (simp add: unat_saturating_add r(1))
  qed
qed

lemma new_allocator:
  assumes "alignable regions"
  shows "remaining (excluding (boot_frame_allocator_new regions ex) add) = usable_frames regions (ex @ add)"
    and "on_pages (excluding (boot_frame_allocator_new regions ex) add)"
    and "ba_regions (excluding (boot_frame_allocator_new regions ex) add) = regions"
proof -
  let ?a = "\<lparr>ba_regions = regions, ba_exclusions = ex, ba_additional = [], ba_index = 0,
    ba_cursor = 0, ba_limit = 0\<rparr>"
  have sp: "pages (ba_cursor (advance_to_usable_region ?a)) (ba_limit (advance_to_usable_region ?a))
      @ concat (map region_frames (drop (Suc (ba_index (advance_to_usable_region ?a))) regions))
      = concat (map region_frames regions)" "on_pages (advance_to_usable_region ?a)"
    using advance_spec [of ?a] assms by auto
  then show "remaining (excluding (boot_frame_allocator_new regions ex) add) = usable_frames regions (ex @ add)"
    by (simp add: remaining_def excluding_def boot_frame_allocator_new_def usable_frames_def
        is_excluded_def excluded_by_def)
  show "on_pages (excluding (boot_frame_allocator_new regions ex) add)"
    using sp(2) by (simp add: on_pages_def excluding_def boot_frame_allocator_new_def)
  show "ba_regions (excluding (boot_frame_allocator_new regions ex) add) = regions"
    by (simp add: excluding_def boot_frame_allocator_new_def)
qed

lemma region_frames_iff:
  "f \<in> set (region_frames r) \<longleftrightarrow>
     mr_kind r = Usable \<and> unat f mod 4096 = 0 \<and> unat (rg_start (mr_range r)) \<le> unat f
     \<and> unat f + 4096 \<le> unat (range_end (mr_range r))"
proof (cases "mr_kind r = Usable")
  case True
  let ?s = "unat (rg_start (mr_range r))" and ?e = "unat (range_end (mr_range r))"
  have mem: "f \<in> set (region_frames r) \<longleftrightarrow> (\<exists>k. f = of_nat (k * 4096) \<and> (?s + 4095) div 4096 \<le> k \<and> k < ?e div 4096)"
  proof (cases "align_up (rg_start (mr_range r))")
    case None
    then have "2 ^ 64 \<le> (?s + 4095) div 4096 * 4096" by (simp add: align_up_None_iff)
    moreover have "?e div 4096 * 4096 < 2 ^ 64"
      using unat_u64_bound [of "range_end (mr_range r)"]       le_less_trans [OF div_times_less_eq_dividend [of ?e 4096], of "2 ^ 64"] by simp
    ultimately have "?e div 4096 * 4096 < (?s + 4095) div 4096 * 4096" by linarith
    then have "?e div 4096 < (?s + 4095) div 4096" by (rule mult_less_cancel2 [THEN iffD1, THEN conjunct2])
    with None True show ?thesis by (auto simp: region_frames_def)
  next
    case (Some c)
    then have "unat c div 4096 = (?s + 4095) div 4096" by (simp add: align_up_Some_iff)
    moreover have "unat (align_down (range_end (mr_range r))) div 4096 = ?e div 4096"
      by (simp add: unat_align_down minus_mod_eq_mult_div)
    ultimately show ?thesis using Some True by (auto simp: region_frames_def pages_def)
  qed
  have lo: "(?s + 4095) div 4096 \<le> k \<longleftrightarrow> ?s \<le> k * 4096" for k
    using div_less_iff_less_mult [of 4096 "?s + 4095" "Suc k"] by (auto simp: less_Suc_eq_le)
  have hi: "k < ?e div 4096 \<longleftrightarrow> k * 4096 + 4096 \<le> ?e" for k
    using less_eq_div_iff_mult_less_eq [of 4096 "Suc k" ?e] by (simp add: Suc_le_eq add.commute)
  have un: "unat (of_nat (k * 4096) :: u64) = k * 4096" if "k * 4096 + 4096 \<le> ?e" for k
    using that unat_u64_bound [of "range_end (mr_range r)"] by (simp add: unat_of_nat del: of_nat_mult)
  show ?thesis
  proof
    assume "f \<in> set (region_frames r)"
    then obtain k where "f = of_nat (k * 4096)" "?s \<le> k * 4096" "k * 4096 + 4096 \<le> ?e"
      unfolding mem lo hi by blast
    with un [of k] True show "mr_kind r = Usable \<and> unat f mod 4096 = 0 \<and> ?s \<le> unat f \<and> unat f + 4096 \<le> ?e"
      by (simp del: of_nat_mult)
  next
    assume *: "mr_kind r = Usable \<and> unat f mod 4096 = 0 \<and> ?s \<le> unat f \<and> unat f + 4096 \<le> ?e"
    then have k: "unat f = unat f div 4096 * 4096" by (simp add: mod_eq_0_iff_dvd)
    then have "f = of_nat (unat f div 4096 * 4096)" by (metis of_nat_unat ucast_id)
    with * k show "f \<in> set (region_frames r)" unfolding mem lo hi by (metis (no_types))
  qed
qed (simp add: region_frames_def)

section \<open>Contiguous runs\<close>

abbreviation next_to :: "u64 \<Rightarrow> u64 \<Rightarrow> bool" where
  "next_to x y \<equiv> y = saturating_add x PAGE_SIZE"

text \<open>
  The search for a run of adjacent frames with a filter, as \<open>alloc_contiguous_frames\<close> runs it
  over the boot allocator: a rejected frame ends the run. \<open>next_run\<close> is the search without a
  filter.
\<close>

function run_loop ::
  "(u64 \<Rightarrow> bool) \<Rightarrow> boot_frame_allocator \<Rightarrow> u64 \<Rightarrow> u64 option \<Rightarrow> u64 \<Rightarrow> u64
     \<Rightarrow> u64 option \<times> boot_frame_allocator" where
  "run_loop ok a wanted base held prev =
     (case next_frame a of
        (None, a') \<Rightarrow> (None, a')
      | (Some frame, a') \<Rightarrow>
          if \<not> ok frame then run_loop ok a' wanted None 0 prev
          else
            let (base', held') =
                  (if base \<noteq> None \<and> frame = saturating_add prev PAGE_SIZE then (base, held + 1)
                   else (Some frame, 1))
            in if held' = wanted then (base', a')
               else run_loop ok a' wanted base' held' frame)"
  by pat_completeness auto
termination
  by (relation "inv_image alloc_order (fst \<circ> snd)") (auto intro: next_frame_order [OF sym])

declare next_run_loop.simps [simp del] run_loop.simps [simp del]

lemma next_run_loop_eq:
  "next_run_loop a wanted base held prev = run_loop (\<lambda>_. True) a wanted base held prev"
proof (induction a arbitrary: base held prev rule: wf_induct_rule [OF wf_alloc_order])
  case (1 a)
  then show ?case
    unfolding next_run_loop.simps [of a] run_loop.simps [of _ a]
    by (auto simp: Let_def next_frame_order split: prod.splits option.splits)
qed

text \<open>
  One round on the frames \<open>R\<close> of the run so far: extended, restarted at the new frame, or
  dropped.
\<close>

definition run_ok ::
  "(u64 \<Rightarrow> bool) \<Rightarrow> u64 list \<Rightarrow> u64 option \<Rightarrow> u64 \<Rightarrow> u64 \<Rightarrow> u64 \<Rightarrow> bool" where
  "run_ok ok R base held prev wanted \<longleftrightarrow>
     successively next_to R \<and> list_all ok R \<and> length R < unat wanted \<and> held = of_nat (length R)
     \<and> base = (if R = [] then None else Some (hd R)) \<and> (R \<noteq> [] \<longrightarrow> prev = last R)"

definition extend_run :: "u64 list \<Rightarrow> u64 \<Rightarrow> u64 list" where
  "extend_run R f = (if R \<noteq> [] \<and> next_to (last R) f then R @ [f] else [f])"

definition has_run :: "(u64 \<Rightarrow> bool) \<Rightarrow> nat \<Rightarrow> u64 list \<Rightarrow> bool" where
  "has_run ok n xs \<longleftrightarrow>
     (\<exists>pre run post. xs = pre @ run @ post \<and> successively next_to run \<and> list_all ok run \<and> length run = n)"

text \<open>
  A run longer than \<open>R\<close> that would have to cross from \<open>R\<close> to a frame that does not continue it
  starts behind \<open>R\<close>.
\<close>

lemma has_run_gap:
  assumes "has_run ok n (R @ f # L)" and "\<not> (R \<noteq> [] \<and> next_to (last R) f \<and> ok f)" and "length R < n"
  shows "has_run ok n (f # L)"
proof -
  from assms(1) obtain pre run post where r: "R @ f # L = pre @ run @ post"
    "successively next_to run" "length run = n" "list_all ok run"
    by (auto simp: has_run_def)
  show ?thesis
  proof (cases "length R \<le> length pre")
    case True
    then obtain pre' where "pre = R @ pre'" using r(1) by (auto simp: append_eq_append_conv_if append_eq_conv_conj)
        (metis append_take_drop_id)
    with r show ?thesis by (auto simp: has_run_def)
  next
    case False
    let ?m = "length R - length pre"
    have R: "R = pre @ take ?m run"
    proof -
      have "take (length R) (R @ f # L) = R" by simp
      moreover have "take (length R) (pre @ run @ post) = pre @ take ?m run"
        using False r(3) assms(3) by (simp add: min_def)
      ultimately show ?thesis using r(1) by simp
    qed
    have "drop (length R) (R @ f # L) = drop ?m run @ post"
      unfolding r(1) using False r(3) assms(3) by simp
    then have d: "f # L = drop ?m run @ post" by simp
    have nd: "drop ?m run \<noteq> []" using r(3) assms(3) by simp
    with d have hd: "hd (drop ?m run) = f" by (metis hd_append2 list.sel(1))
    with nd have "f \<in> set run" by (metis hd_in_set in_set_dropD)
    then have "ok f" using r(4) by (simp add: list_all_iff)
    have ne: "take ?m run \<noteq> []" using False r(3) assms(3) by auto
    have "successively next_to (take ?m run @ drop ?m run)" using r(2) by simp
    then have "next_to (last (take ?m run)) (hd (drop ?m run))"
      using ne nd by (simp only: successively_append_iff) auto
    moreover have "last R = last (take ?m run)" "R \<noteq> []" using R ne by (metis last_append, auto)
    ultimately show ?thesis using assms(2) hd \<open>ok f\<close> by simp
  qed
qed

lemma has_run_append: "has_run ok n L \<Longrightarrow> has_run ok n (R @ L)"
  unfolding has_run_def by (metis append.assoc)

lemma has_run_rejected:
  assumes "has_run ok n (f # L)" and "\<not> ok f" and "0 < n"
  shows "has_run ok n L"
proof -
  from assms(1) obtain pre run post where r: "f # L = pre @ run @ post"
    "successively next_to run" "list_all ok run" "length run = n"
    by (auto simp: has_run_def)
  with assms(2,3) have "pre \<noteq> []" by (cases run) auto
  then obtain pre' where "pre = f # pre'" using r(1) by (cases pre) auto
  with r show ?thesis by (auto simp: has_run_def)
qed

lemma has_run_extend:
  assumes "run_ok ok R base held prev wanted" and "ok f"
  shows "has_run ok (unat wanted) (R @ f # L) \<longleftrightarrow> has_run ok (unat wanted) (extend_run R f @ L)"
  using has_run_gap [of ok "unat wanted" R f L] has_run_append [of ok "unat wanted" "f # L" R] assms
  by (auto simp: extend_run_def run_ok_def)

lemma has_run_drop:
  assumes "run_ok ok R base held prev wanted" and "\<not> ok f"
  shows "has_run ok (unat wanted) (R @ f # L) \<longleftrightarrow> has_run ok (unat wanted) L"
  using has_run_gap [of ok "unat wanted" R f L] has_run_append [of ok "unat wanted" L "R @ [f]"]
    has_run_rejected [of ok "unat wanted" f L] assms
  by (auto simp: run_ok_def)

lemma run_ok_extend:
  assumes "run_ok ok R base held prev wanted" and "ok f"
  shows "successively next_to (extend_run R f)" and "list_all ok (extend_run R f)"
    and "extend_run R f \<noteq> []" and "last (extend_run R f) = f"
    and "length (extend_run R f) \<le> unat wanted"
    and "(if base \<noteq> None \<and> f = saturating_add prev PAGE_SIZE then (base, held + 1) else (Some f, 1))
      = (Some (hd (extend_run R f)), of_nat (length (extend_run R f)))"
proof -
  have "0 < unat wanted" using assms(1) by (auto simp: run_ok_def)
  then show "successively next_to (extend_run R f)" "list_all ok (extend_run R f)"
    "extend_run R f \<noteq> []" "last (extend_run R f) = f" "length (extend_run R f) \<le> unat wanted"
    "(if base \<noteq> None \<and> f = saturating_add prev PAGE_SIZE then (base, held + 1) else (Some f, 1))
      = (Some (hd (extend_run R f)), of_nat (length (extend_run R f)))"
    using assms by (auto simp: run_ok_def extend_run_def successively_append_iff)
qed

lemma run_loop_step:
  assumes "run_ok ok R base held prev wanted" and "next_frame a = (Some f, a')"
  shows "run_loop ok a wanted base held prev =
    (if \<not> ok f then run_loop ok a' wanted None 0 prev
     else if length (extend_run R f) = unat wanted then (Some (hd (extend_run R f)), a')
     else run_loop ok a' wanted (Some (hd (extend_run R f))) (of_nat (length (extend_run R f))) f)"
proof (cases "ok f")
  case True
  have "length (extend_run R f) < 2 ^ 64"
    using run_ok_extend(5) [OF assms(1) True] unat_u64_bound [of wanted] by simp
  then have "of_nat (length (extend_run R f)) = wanted \<longleftrightarrow> length (extend_run R f) = unat wanted"
    by (auto simp: word_unat_eq_iff unat_of_nat)
  then show ?thesis
    by (simp only: run_loop.simps [of ok a] assms(2) prod.case option.case Let_def True
        run_ok_extend(6) [OF assms(1) True] not_True_eq_False if_False)
next
  case False
  with assms(2) show ?thesis by (simp add: run_loop.simps [of ok a])
qed

text \<open>What a search returns, as a predicate on its result.\<close>

definition run_result ::
  "(u64 \<Rightarrow> bool) \<Rightarrow> u64 \<Rightarrow> u64 list \<Rightarrow> mem_region list \<Rightarrow> u64 option \<times> boot_frame_allocator \<Rightarrow> bool" where
  "run_result ok wanted xs regions r =
     (case r of
        (None, a') \<Rightarrow> \<not> has_run ok (unat wanted) xs
      | (Some b, a') \<Rightarrow> on_pages a' \<and> ba_regions a' = regions
          \<and> (\<exists>pre run. xs = pre @ run @ remaining a' \<and> successively next_to run \<and> list_all ok run
               \<and> length run = unat wanted \<and> hd run = b))"

lemma run_result_prepend:
  assumes "run_result ok wanted ys regions r" and "xs = p @ ys"
    and "has_run ok (unat wanted) xs \<longleftrightarrow> has_run ok (unat wanted) ys"
  shows "run_result ok wanted xs regions r"
proof (cases r)
  case (Pair q a')
  show ?thesis
  proof (cases q)
    case None
    with Pair assms(1,3) show ?thesis by (simp add: run_result_def)
  next
    case (Some b)
    with Pair assms(1) obtain pre run where "ys = pre @ run @ remaining a'" "successively next_to run"
      "list_all ok run" "length run = unat wanted" "hd run = b" "on_pages a'" "ba_regions a' = regions"
      by (auto simp: run_result_def)
    with Pair Some assms(2) show ?thesis
      by (simp add: run_result_def) (intro exI [of _ "p @ pre"] exI [of _ run], simp)
  qed
qed

lemma run_loop_spec:
  assumes "alignable (ba_regions a)" and "on_pages a" and "run_ok ok R base held prev wanted"
  shows "run_result ok wanted (R @ remaining a) (ba_regions a) (run_loop ok a wanted base held prev)"
  using assms
proof (induction a arbitrary: R base held prev rule: wf_induct_rule [OF wf_alloc_order])
  case (1 a)
  obtain r a' where n: "next_frame a = (r, a')" by fastforce
  show ?case
  proof (cases r)
    case None
    have "\<not> has_run ok (unat wanted) R" using 1(4) by (auto simp: has_run_def run_ok_def)
    with None n next_frame_spec [OF 1(2,3)] show ?thesis
      by (simp add: run_result_def run_loop.simps [of ok a])
  next
    case (Some f)
    let ?R = "extend_run R f"
    note n = n [unfolded Some]
    have rem: "remaining a = f # remaining a'" "on_pages a'" using next_frame_spec [OF 1(2,3)] n by simp_all
    have al: "alignable (ba_regions a')" "ba_regions a' = ba_regions a"
      using 1(2) next_frame_fields [OF n] by simp_all
    note IH = 1(1) [OF next_frame_order [OF n] al(1) rem(2)] and step = run_loop_step [OF 1(4) n]
    have "R @ f # remaining a' = (if ?R = R @ [f] then [] else R) @ ?R @ remaining a'"
      by (auto simp: extend_run_def)
    then obtain p where p: "R @ f # remaining a' = p @ ?R @ remaining a'" by blast
    show ?thesis
    proof (cases "ok f")
      case False
      have "run_ok ok [] None 0 prev wanted" using 1(4) by (auto simp: run_ok_def)
      from run_result_prepend [OF IH [OF this], of _ "R @ [f]"] False step al(2)
        has_run_drop [OF 1(4) False] show ?thesis by (simp add: rem(1))
    next
      case ok: True
      note ex = run_ok_extend [OF 1(4) ok]
      show ?thesis
      proof (cases "length ?R = unat wanted")
        case True
        with p ex rem step ok al(2) show ?thesis by (auto simp: run_result_def)
      next
        case False
        have "run_ok ok ?R (Some (hd ?R)) (of_nat (length ?R)) f wanted"
          using ex False by (simp add: run_ok_def)
        from run_result_prepend [OF IH [OF this] p has_run_extend [OF 1(4) ok]] False step ok al(2)
        show ?thesis by (simp add: rem(1))
      qed
    qed
  qed
qed

section \<open>Properties\<close>

lemma usable_frames_iff:
  "f \<in> set (usable_frames regions ex) \<longleftrightarrow>
     unat f mod 4096 = 0 \<and> \<not> excluded_by ex f
     \<and> (\<exists>r \<in> set regions. mr_kind r = Usable \<and> unat (rg_start (mr_range r)) \<le> unat f
          \<and> unat f + 4096 \<le> unat (range_end (mr_range r)))"
  by (auto simp: usable_frames_def region_frames_iff)

text \<open>
  C24: the boot frame allocator enumerates exactly the usable memory. For a memory map whose
  usable regions can be page-aligned, draining the allocator yields, in map order, the pages
  of the usable regions without the excluded ones; a page is yielded exactly when it is
  page-aligned, lies wholly inside some usable region and overlaps no exclusion; and
  \<open>count_remaining\<close> is the number of pages yielded (saturated at the largest 64-bit value).
\<close>

theorem boot_frames_exact:
  fixes ex add :: "range list"
  assumes "alignable regions"
  defines "a \<equiv> excluding (boot_frame_allocator_new regions ex) add"
  shows "drain_frames a = usable_frames regions (ex @ add)
    \<and> (f \<in> set (drain_frames a) \<longleftrightarrow>
         unat f mod 4096 = 0 \<and> \<not> excluded_by (ex @ add) f
         \<and> (\<exists>r \<in> set regions. mr_kind r = Usable \<and> unat (rg_start (mr_range r)) \<le> unat f
              \<and> unat f + 4096 \<le> unat (range_end (mr_range r))))
    \<and> unat (count_remaining a) = min (length (drain_frames a)) (2 ^ 64 - 1)"
proof -
  note new = new_allocator [OF assms(1), of ex add, folded a_def]
  have "drain_frames a = usable_frames regions (ex @ add)"
    using drain_remaining [of a] new assms(1) by simp
  moreover have "unat (count_remaining a) = min (length (remaining a)) (2 ^ 64 - 1)"
    unfolding count_remaining_def using count_from_remaining [of a 0] new assms(1) by simp
  ultimately show ?thesis using usable_frames_iff [of f regions "ex @ add"] new(1) by simp
qed


definition sample_regions :: "mem_region list" where
  "sample_regions =
     [\<lparr>mr_range = \<lparr>rg_start = 256, rg_len = 20480\<rparr>, mr_kind = Usable\<rparr>,
      \<lparr>mr_range = \<lparr>rg_start = 65536, rg_len = 8192\<rparr>, mr_kind = Reserved\<rparr>]"

definition sample_exclusions :: "range list" where
  "sample_exclusions = [\<lparr>rg_start = 8192, rg_len = 10\<rparr>]"

lemma sample_alignable: "alignable sample_regions"
  by (simp add: alignable_def sample_regions_def align_up_None_iff)

lemma sample_usable_frames: "usable_frames sample_regions sample_exclusions = [4096, 12288, 16384]"
proof -
  have u: "align_up 256 = Some 4096" by (simp add: align_up_Some_iff)
  have d: "unat (align_down (range_end \<lparr>rg_start = 256, rg_len = 20480\<rparr>)) = 20480"
    by (simp add: unat_align_down range_end_def unat_saturating_add)
  have "region_frames \<lparr>mr_range = \<lparr>rg_start = 256, rg_len = 20480\<rparr>, mr_kind = Usable\<rparr> =
      [4096, 8192, 12288, 16384]"
    by (simp add: region_frames_def u pages_def d upt_rec)
  then show ?thesis
    by (simp add: usable_frames_def sample_regions_def sample_exclusions_def region_frames_def
        excluded_by_def overlaps_nat)
qed

theorem boot_frames_exact_witness:
  "drain_frames (excluding (boot_frame_allocator_new sample_regions []) sample_exclusions) =
     [4096, 12288, 16384]"
  using boot_frames_exact [OF sample_alignable, of "[]" sample_exclusions]
  by (simp add: sample_usable_frames)


end
