(* ===== verification/Mm_Frames.thy ===== *)
theory Mm_Frames
  imports Mm_Boot_Frames
begin

text \<open>
  The physical frame service of \<open>kernel/src/mm/mod.rs\<close>: single frames, contiguous DMA runs and
  DMA page lists from one watermark, and the reuse list of frames returned by dead owners, for
  the AArch64 build (the one with the 2 MiB identity-block filter).

  The statics of the source (\<open>FRAME_WATERMARK\<close>, \<open>ISSUED_FRAMES\<close>, \<open>FREE_FRAMES\<close>,
  \<open>FRAMES_REUSED\<close>, \<open>FRAMES_FREED\<close>) and physical memory are one state record. \<open>dev_ok\<close> is the
  answer of the device registry (\<open>kernel_device_frame_allowed\<close>), \<open>grow\<close> whether the heap
  grants a free-list slot. Cache maintenance has no effect on the modelled memory.
\<close>

unbundle bit_operations_syntax

record frame_state =
  fs_watermark :: u64
  fs_issued :: u64
  fs_free :: "u64 list"
  fs_reused :: u64
  fs_freed :: u64
  fs_mem :: "u64 \<Rightarrow> u8"

text \<open>The statics at boot, over whatever memory holds.\<close>

definition frame_state_boot :: "(u64 \<Rightarrow> u8) \<Rightarrow> frame_state" where
  "frame_state_boot mem =
     \<lparr>fs_watermark = 0, fs_issued = 0, fs_free = [], fs_reused = 0, fs_freed = 0, fs_mem = mem\<rparr>"

type_synonym dev_filter = "u64 \<Rightarrow> u64 \<Rightarrow> bool"

definition write_zero :: "(u64 \<Rightarrow> u8) \<Rightarrow> u64 \<Rightarrow> u64 \<Rightarrow> u64 \<Rightarrow> u8" where
  "write_zero mem base len = (\<lambda>x. if unat base \<le> unat x \<and> unat x < unat base + unat len then 0 else mem x)"

definition free_frame :: "bool \<Rightarrow> frame_state \<Rightarrow> u64 \<Rightarrow> bool \<times> frame_state" where
  "free_frame grow st frame =
     (if frame = 0 \<or> frame mod PAGE_SIZE \<noteq> 0 then (False, st)
      else if \<not> grow then (False, st)
      else (True, st\<lparr>fs_free := fs_free st @ [frame], fs_freed := fs_freed st + 1\<rparr>))"

definition frame_in_excluded :: "u64 \<Rightarrow> range list \<Rightarrow> bool" where
  "frame_in_excluded frame excluded =
     list_ex (\<lambda>r. case checked_add (rg_start r) (rg_len r) of
                    None \<Rightarrow> True
                  | Some e \<Rightarrow> rg_start r \<le> frame \<and> frame < e) excluded"

fun take_free_scan :: "(u64 \<Rightarrow> bool) \<Rightarrow> u64 list \<Rightarrow> nat \<Rightarrow> (u64 \<times> u64 list) option" where
  "take_free_scan usable xs 0 = None"
| "take_free_scan usable xs (Suc index) =
     (let frame = xs ! index in
      if \<not> usable frame then take_free_scan usable xs index
      else Some (frame, swap_remove index xs))"

definition take_free_frame :: "(u64 \<Rightarrow> bool) \<Rightarrow> u64 list \<Rightarrow> (u64 \<times> u64 list) option" where
  "take_free_frame usable xs = take_free_scan usable xs (length xs)"

definition is_ram_kind :: "mem_region_kind \<Rightarrow> bool" where
  "is_ram_kind k = (k \<in> {Usable, Bootloader, Kernel, Initrd, Acpi})"

definition boot_framebuffer_range :: "boot_info \<Rightarrow> range" where
  "boot_framebuffer_range boot =
     (if has_framebuffer boot
      then \<lparr>rg_start = fb_phys (bi_framebuffer boot), rg_len = fb_len (bi_framebuffer boot)\<rparr>
      else range_empty)"

definition normal_identity_block :: "mem_region list \<Rightarrow> range \<Rightarrow> u64 \<Rightarrow> bool" where
  "normal_identity_block regions fb block =
     (if block AND (BLOCK_2M - 1) \<noteq> 0 \<or> overlaps block BLOCK_2M (rg_start fb) (rg_len fb) then False
      else case checked_add block BLOCK_2M of
             None \<Rightarrow> False
           | Some e \<Rightarrow>
               list_ex (\<lambda>r. is_ram_kind (mr_kind r) \<and> rg_start (mr_range r) \<le> block
                          \<and> e \<le> range_end (mr_range r)) regions)"

definition block_of :: "u64 \<Rightarrow> u64" where
  "block_of frame = frame AND NOT (BLOCK_2M - 1)"

section \<open>Allocation\<close>

function scan_frames :: "(u64 \<Rightarrow> bool) \<Rightarrow> boot_frame_allocator \<Rightarrow> u64 option" where
  "scan_frames ok a =
     (case next_frame a of
        (None, _) \<Rightarrow> None
      | (Some frame, a') \<Rightarrow> if \<not> ok frame then scan_frames ok a' else Some frame)"
  by pat_completeness auto
termination
  by (relation "inv_image alloc_order snd") (auto intro: next_frame_order [OF sym])

declare scan_frames.simps [simp del]

definition boot_frames :: "boot_info \<Rightarrow> range list \<Rightarrow> boot_frame_allocator" where
  "boot_frames boot excluded =
     (let plan = from_boot_info boot in
      excluding (boot_frame_allocator_new (kp_regions plan) (kp_exclusions plan)) excluded)"

definition alloc_zeroed_frame_excluding ::
  "dev_filter \<Rightarrow> boot_info \<Rightarrow> range list \<Rightarrow> frame_state \<Rightarrow> u64 option \<times> frame_state" where
  "alloc_zeroed_frame_excluding dev_ok boot excluded st =
     (let regions = bi_mem_regions boot; fb = boot_framebuffer_range boot in
      case take_free_frame
             (\<lambda>frame. \<not> frame_in_excluded frame excluded \<and> dev_ok (block_of frame) BLOCK_2M
                \<and> normal_identity_block regions fb (block_of frame)) (fs_free st) of
        Some (frame, free') \<Rightarrow>
          (Some frame,
           st\<lparr>fs_free := free', fs_mem := write_zero (fs_mem st) frame PAGE_SIZE,
              fs_reused := fs_reused st + 1\<rparr>)
      | None \<Rightarrow>
          (case scan_frames
                  (\<lambda>frame. \<not> (frame < fs_watermark st \<or> \<not> dev_ok frame PAGE_SIZE)
                     \<and> normal_identity_block regions fb (block_of frame))
                  (boot_frames boot excluded) of
             None \<Rightarrow> (None, st)
           | Some frame \<Rightarrow>
               (Some frame,
                st\<lparr>fs_watermark := saturating_add frame PAGE_SIZE, fs_issued := fs_issued st + 1,
                   fs_mem := write_zero (fs_mem st) frame PAGE_SIZE\<rparr>)))"

definition alloc_zeroed_frame ::
  "dev_filter \<Rightarrow> boot_info \<Rightarrow> frame_state \<Rightarrow> u64 option \<times> frame_state" where
  "alloc_zeroed_frame dev_ok boot st = alloc_zeroed_frame_excluding dev_ok boot [] st"

definition dma_frame_ok :: "dev_filter \<Rightarrow> boot_info \<Rightarrow> u64 \<Rightarrow> u64 \<Rightarrow> bool" where
  "dma_frame_ok dev_ok boot watermark frame =
     (\<not> (frame < watermark \<or> \<not> dev_ok (block_of frame) BLOCK_2M)
      \<and> normal_identity_block (bi_mem_regions boot) (boot_framebuffer_range boot) (block_of frame))"

definition alloc_contiguous_frames_excluding ::
  "dev_filter \<Rightarrow> boot_info \<Rightarrow> u64 \<Rightarrow> range list \<Rightarrow> frame_state \<Rightarrow> u64 option \<times> frame_state" where
  "alloc_contiguous_frames_excluding dev_ok boot wanted excluded st =
     (if wanted = 0 then (None, st)
      else case checked_mul wanted PAGE_SIZE of
             None \<Rightarrow> (None, st)
           | Some bytes \<Rightarrow>
               (case run_loop (dma_frame_ok dev_ok boot (fs_watermark st))
                       (boot_frames boot excluded) wanted None 0 0 of
                  (None, _) \<Rightarrow> (None, st)
                | (Some start, _) \<Rightarrow>
                    (Some start,
                     st\<lparr>fs_watermark := saturating_add start bytes,
                        fs_issued := fs_issued st + wanted,
                        fs_mem := write_zero (fs_mem st) start bytes\<rparr>)))"

function dma_pages_loop ::
  "(u64 \<Rightarrow> bool) \<Rightarrow> boot_frame_allocator \<Rightarrow> nat \<Rightarrow> u64 list \<Rightarrow> frame_state
     \<Rightarrow> u64 list \<times> frame_state" where
  "dma_pages_loop ok a pages_len filled st =
     (if \<not> length filled < pages_len then (filled, st)
      else case next_frame a of
             (None, _) \<Rightarrow> (filled, st)
           | (Some frame, a') \<Rightarrow>
               if \<not> ok frame then dma_pages_loop ok a' pages_len filled st
               else dma_pages_loop ok a' pages_len (filled @ [frame])
                      (st\<lparr>fs_watermark := saturating_add frame PAGE_SIZE,
                          fs_issued := fs_issued st + 1,
                          fs_mem := write_zero (fs_mem st) frame PAGE_SIZE\<rparr>))"
  by pat_completeness auto
termination
  by (relation "inv_image alloc_order (fst \<circ> snd)") (auto intro: next_frame_order [OF sym])

declare dma_pages_loop.simps [simp del]

text \<open>The filled prefix of the page list; the source returns its length.\<close>

definition alloc_dma_pages_excluding ::
  "dev_filter \<Rightarrow> boot_info \<Rightarrow> nat \<Rightarrow> range list \<Rightarrow> frame_state \<Rightarrow> u64 list \<times> frame_state" where
  "alloc_dma_pages_excluding dev_ok boot pages_len excluded st =
     dma_pages_loop (dma_frame_ok dev_ok boot (fs_watermark st)) (boot_frames boot excluded)
       pages_len [] st"

section \<open>Lemmas\<close>

lemma scan_frames_find:
  "alignable (ba_regions a) \<Longrightarrow> on_pages a \<Longrightarrow> scan_frames ok a = find ok (remaining a)"
proof (induction a rule: wf_induct_rule [OF wf_alloc_order])
  case (1 a)
  obtain r a' where n: "next_frame a = (r, a')" by fastforce
  show ?case
  proof (cases r)
    case None
    with n next_frame_spec [OF 1(2,3)] show ?thesis by (simp add: scan_frames.simps [of ok a])
  next
    case (Some f)
    with n next_frame_spec [OF 1(2,3)] have "remaining a = f # remaining a'" "on_pages a'" by simp_all
    with n Some 1(1) [of a'] 1(2) next_frame_order [of a f a'] next_frame_fields [OF n] show ?thesis
      by (simp add: scan_frames.simps [of ok a])
  qed
qed

lemma dma_pages_loop_spec:
  assumes "alignable (ba_regions a)" and "on_pages a" and "length filled \<le> n"
    and "dma_pages_loop ok a n filled st = (xs, st')"
  shows "xs = filled @ take (n - length filled) (filter ok (remaining a))
    \<and> fs_free st' = fs_free st
    \<and> fs_watermark st' = (if xs = filled then fs_watermark st else saturating_add (last xs) PAGE_SIZE)"
  using assms
proof (induction a arbitrary: filled st rule: wf_induct_rule [OF wf_alloc_order])
  case (1 a)
  note sp = next_frame_spec [OF 1(2,3)]
  show ?case
  proof (cases "length filled < n")
    case False
    with 1(4,5) show ?thesis by (simp add: dma_pages_loop.simps [of ok a])
  next
    case len: True
    obtain r a' where nf: "next_frame a = (r, a')" by fastforce
    show ?thesis
    proof (cases r)
      case None
      with nf sp len 1(5) show ?thesis by (simp add: dma_pages_loop.simps [of ok a])
    next
      case (Some f)
      note nf = nf [unfolded Some]
      with sp have rem: "remaining a = f # remaining a'" "on_pages a'" by simp_all
      have al: "alignable (ba_regions a')" using 1(2) next_frame_fields [OF nf] by simp
      note IH = 1(1) [OF next_frame_order [OF nf] al rem(2)]
      show ?thesis
      proof (cases "ok f")
        case False
        with IH [of filled st] 1(4,5) len nf rem(1) show ?thesis
          by (simp add: dma_pages_loop.simps [of ok a])
      next
        case True
        let ?st = "st\<lparr>fs_watermark := saturating_add f PAGE_SIZE, fs_issued := fs_issued st + 1,
          fs_mem := write_zero (fs_mem st) f PAGE_SIZE\<rparr>"
        from 1(5) len nf True have "dma_pages_loop ok a' n (filled @ [f]) ?st = (xs, st')"
          by (simp add: dma_pages_loop.simps [of ok a])
        from IH [OF _ this] len rem(1) True show ?thesis
          by (auto simp: take_Cons' split: if_splits)
      qed
    qed
  qed
qed

lemma take_free_scan_spec:
  "take_free_scan usable xs n = Some (f, ys) \<Longrightarrow> n \<le> length xs \<Longrightarrow>
     usable f \<and> mset xs = add_mset f (mset ys)"
  by (induction n) (auto simp: Let_def mset_swap_remove split: if_splits)

definition boot_usable :: "boot_info \<Rightarrow> range list \<Rightarrow> u64 list" where
  "boot_usable boot excluded =
     usable_frames (bi_mem_regions boot) (kp_exclusions (from_boot_info boot) @ excluded)"

lemma boot_frames_spec:
  assumes "alignable (bi_mem_regions boot)"
  shows "remaining (boot_frames boot ex) = boot_usable boot ex" and "on_pages (boot_frames boot ex)"
    and "alignable (ba_regions (boot_frames boot ex))"
proof -
  have "kp_regions (from_boot_info boot) = bi_mem_regions boot" by (simp add: from_boot_info_def Let_def)
  with new_allocator [OF assms, of "kp_exclusions (from_boot_info boot)" ex] assms
  show "remaining (boot_frames boot ex) = boot_usable boot ex" "on_pages (boot_frames boot ex)"
    "alignable (ba_regions (boot_frames boot ex))"
    by (simp_all add: boot_frames_def Let_def boot_usable_def)
qed

lemma usable_frame_room:
  assumes "f \<in> set (boot_usable boot ex)"
  shows "unat f + 4096 < 2 ^ 64" and "unat (saturating_add f PAGE_SIZE) = unat f + 4096"
    and "f < saturating_add f PAGE_SIZE"
proof -
  obtain r :: mem_region where "unat f + 4096 \<le> unat (range_end (mr_range r))"
    using assms by (auto simp: boot_usable_def usable_frames_iff)
  then show room: "unat f + 4096 < 2 ^ 64" using unat_u64_bound [of "range_end (mr_range r)"] by simp
  then show "unat (saturating_add f PAGE_SIZE) = unat f + 4096" by (simp add: unat_saturating_add)
  then show "f < saturating_add f PAGE_SIZE" by (simp add: word_less_nat_alt)
qed

text \<open>The frames of a run, as addresses.\<close>

definition run_frames :: "u64 \<Rightarrow> nat \<Rightarrow> u64 list" where
  "run_frames b n = map (\<lambda>i. of_nat (unat b + i * 4096)) [0..<n]"

lemma successive_run:
  assumes "successively next_to run" and "set run \<subseteq> set (boot_usable boot ex)" and "i < length run"
  shows "unat (run ! i) = unat (hd run) + i * 4096"
  using assms(3)
proof (induction i)
  case 0
  then show ?case by (simp add: hd_conv_nth)
next
  case (Suc i)
  then have "run ! Suc i = saturating_add (run ! i) PAGE_SIZE"
    using assms(1) by (simp add: successively_conv_nth)
  moreover have "run ! i \<in> set (boot_usable boot ex)" using assms(2) Suc.prems by auto
  ultimately show ?case using Suc usable_frame_room(2) [of "run ! i" boot ex] by simp
qed

lemma run_frames_eq:
  assumes "successively next_to run" and "set run \<subseteq> set (boot_usable boot ex)" and "length run = n"
  shows "run = run_frames (hd run) n"
proof (rule nth_equalityI)
  fix i assume i: "i < length run"
  have "of_nat (unat (hd run) + i * 4096) = (of_nat (unat (run ! i)) :: u64)"
    by (simp only: successive_run [OF assms(1,2) i])
  also have "\<dots> = run ! i" by simp
  finally show "run ! i = run_frames (hd run) n ! i"
    using i assms(3) by (simp add: run_frames_def del: of_nat_add of_nat_mult)
qed (simp add: run_frames_def assms(3))

section \<open>Ownership\<close>

text \<open>
  The frames in use, as the callers account for them: an allocation adds what it returned, and
  a frame may be freed only by a caller that owns it (a frame the list could not take is lost,
  not owned). A step is one call; the label lists the frames it handed out. The memory map is
  fixed at boot; the device filter, the exclusions and the heap may differ at every call.
\<close>

inductive frame_step ::
  "boot_info \<Rightarrow> frame_state \<times> u64 set \<Rightarrow> u64 list \<Rightarrow> frame_state \<times> u64 set \<Rightarrow> bool"
  for boot where
  fs_alloc: "alloc_zeroed_frame_excluding dev_ok boot ex st = (Some f, st') \<Longrightarrow>
    frame_step boot (st, own) [f] (st', insert f own)"
| fs_alloc_fail: "alloc_zeroed_frame_excluding dev_ok boot ex st = (None, st') \<Longrightarrow>
    frame_step boot (st, own) [] (st', own)"
| fs_run: "alloc_contiguous_frames_excluding dev_ok boot n ex st = (Some b, st') \<Longrightarrow>
    frame_step boot (st, own) (run_frames b (unat n)) (st', own \<union> set (run_frames b (unat n)))"
| fs_run_fail: "alloc_contiguous_frames_excluding dev_ok boot n ex st = (None, st') \<Longrightarrow>
    frame_step boot (st, own) [] (st', own)"
| fs_dma: "alloc_dma_pages_excluding dev_ok boot m ex st = (xs, st') \<Longrightarrow>
    frame_step boot (st, own) xs (st', own \<union> set xs)"
| fs_free: "f \<in> own \<Longrightarrow> free_frame grow st f = (r, st') \<Longrightarrow>
    frame_step boot (st, own) [] (st', own - {f})"

inductive frame_run ::
  "boot_info \<Rightarrow> frame_state \<times> u64 set \<Rightarrow> frame_state \<times> u64 set \<Rightarrow> bool" for boot where
  fr_refl: "frame_run boot s s"
| fr_step: "frame_run boot s s1 \<Longrightarrow> frame_step boot s1 xs s2 \<Longrightarrow> frame_run boot s s2"

definition frames_inv :: "frame_state \<times> u64 set \<Rightarrow> bool" where
  "frames_inv s =
     (case s of (st, own) \<Rightarrow>
        distinct (fs_free st) \<and> set (fs_free st) \<inter> own = {}
        \<and> (\<forall>f \<in> own \<union> set (fs_free st). f < fs_watermark st))"

text \<open>The pages of the usable regions ascend in map order (and are therefore distinct).\<close>

definition ascending :: "mem_region list \<Rightarrow> bool" where
  "ascending regions = sorted_wrt (<) (concat (map region_frames regions))"

definition step_fresh :: "u64 set \<Rightarrow> u64 list \<Rightarrow> frame_state \<times> u64 set \<Rightarrow> bool" where
  "step_fresh own xs s' \<longleftrightarrow> distinct xs \<and> set xs \<inter> own = {} \<and> frames_inv s'"

text \<open>Frames at or above the watermark, all below the new one, may be handed out.\<close>

lemma issue_fresh:
  assumes "frames_inv (st, own)" and "distinct xs"
    and "\<And>f. f \<in> set xs \<Longrightarrow> fs_watermark st \<le> f \<and> f < fs_watermark st'"
    and "fs_free st' = fs_free st" and "fs_watermark st \<le> fs_watermark st'"
  shows "step_fresh own xs (st', own \<union> set xs)"
proof -
  have "f \<notin> own \<union> set (fs_free st)" if "f \<in> set xs" for f
  proof
    assume "f \<in> own \<union> set (fs_free st)"
    then have "f < fs_watermark st" using assms(1) by (auto simp: frames_inv_def)
    with assms(3) [OF that] show False by (auto dest: leD)
  qed
  moreover have "f < fs_watermark st'" if "f \<in> own \<union> set (fs_free st)" for f
    using that assms(1,5) by (auto simp: frames_inv_def intro: order.strict_trans2)
  ultimately show ?thesis
    using assms by (auto simp: step_fresh_def frames_inv_def)
qed

lemma alloc_zeroed_fresh:
  assumes "alignable (bi_mem_regions boot)" and "frames_inv (st, own)"
    and "alloc_zeroed_frame_excluding dev_ok boot ex st = (Some f, st')"
  shows "step_fresh own [f] (st', insert f own)"
proof -
  let ?reuse = "\<lambda>frame. \<not> frame_in_excluded frame ex \<and> dev_ok (block_of frame) BLOCK_2M
    \<and> normal_identity_block (bi_mem_regions boot) (boot_framebuffer_range boot) (block_of frame)"
  show ?thesis
  proof (cases "take_free_frame ?reuse (fs_free st)")
    case (Some p)
    obtain g ys where p: "p = (g, ys)" by fastforce
    have st': "f = g" "fs_free st' = ys" "fs_watermark st' = fs_watermark st"
      using assms(3) Some p by (auto simp: alloc_zeroed_frame_excluding_def Let_def)
    have ms: "mset (fs_free st) = add_mset f (mset ys)"
      using take_free_scan_spec [of ?reuse "fs_free st" _ g ys] Some p st'(1)
      by (simp add: take_free_frame_def)
    have "mset (f # ys) = mset (fs_free st)" using ms by simp
    then have "distinct (f # ys) = distinct (fs_free st)" by (rule mset_eq_imp_distinct_iff)
    moreover have "distinct (fs_free st)" using assms(2) by (simp add: frames_inv_def)
    moreover have "set (fs_free st) = insert f (set ys)" using arg_cong [OF ms, of set_mset] by simp
    ultimately show ?thesis using assms(2) st' by (auto simp: step_fresh_def frames_inv_def)
  next
    case None
    let ?ok = "\<lambda>frame. \<not> (frame < fs_watermark st \<or> \<not> dev_ok frame PAGE_SIZE)
      \<and> normal_identity_block (bi_mem_regions boot) (boot_framebuffer_range boot) (block_of frame)"
    note sp = boot_frames_spec [OF assms(1), of ex]
    have "scan_frames ?ok (boot_frames boot ex) = Some f"
      and st': "fs_free st' = fs_free st" "fs_watermark st' = saturating_add f PAGE_SIZE"
      using assms(3) None
      by (auto simp: alloc_zeroed_frame_excluding_def Let_def split: option.splits)
    then have "find ?ok (boot_usable boot ex) = Some f"
      using scan_frames_find [OF sp(3,2), of ?ok] sp(1) by (simp only:)
    then have f: "f \<in> set (boot_usable boot ex)" "fs_watermark st \<le> f"
      unfolding find_Some_iff by (auto simp: not_less)
    have "step_fresh own [f] (st', own \<union> set [f])"
      using assms(2) st' f usable_frame_room(3) [OF f(1)] by (intro issue_fresh [of st]) auto
    then show ?thesis by simp
  qed
qed

lemma alloc_run_fresh:
  assumes "alignable (bi_mem_regions boot)" and "frames_inv (st, own)"
    and "alloc_contiguous_frames_excluding dev_ok boot n ex st = (Some b, st')"
  shows "step_fresh own (run_frames b (unat n)) (st', own \<union> set (run_frames b (unat n)))"
proof -
  let ?ok = "dma_frame_ok dev_ok boot (fs_watermark st)" and ?a = "boot_frames boot ex"
  note sp = boot_frames_spec [OF assms(1), of ex]
  from assms(3) obtain bytes a' where n0: "n \<noteq> 0" and bytes: "checked_mul n PAGE_SIZE = Some bytes"
    and loop: "run_loop ?ok ?a n None 0 0 = (Some b, a')"
    and st': "fs_free st' = fs_free st" "fs_watermark st' = saturating_add b bytes"
    by (auto simp: alloc_contiguous_frames_excluding_def split: if_splits option.splits prod.splits)
  have n: "0 < unat n" using n0 by (metis gr0I unat_eq_zero)
  then have "run_ok ?ok [] None 0 0 n" by (simp add: run_ok_def)
  from run_loop_spec [OF sp(3,2) this] loop sp(1) obtain pre run where
    run: "boot_usable boot ex = pre @ run @ remaining a'" "successively next_to run" "list_all ?ok run"
      "length run = unat n" "hd run = b"
    by (auto simp: run_result_def)
  have sub: "set run \<subseteq> set (boot_usable boot ex)" unfolding run(1) by auto
  have eq: "run = run_frames b (unat n)" using run_frames_eq [OF run(2) sub run(4)] run(5) by simp
  have at: "unat (run ! i) = unat b + i * 4096" if "i < unat n" for i
    using successive_run [OF run(2) sub] that run(4,5) by simp
  have "unat b + (unat n - 1) * 4096 + 4096 < 2 ^ 64"
    using at [of "unat n - 1"] n run(4) sub usable_frame_room(1) [of "run ! (unat n - 1)" boot ex]
    by (simp add: subset_iff)
  then have "unat b + unat n * 4096 < 2 ^ 64" using n by (cases "unat n") auto
  moreover have "unat bytes = unat n * 4096" using bytes by (simp add: checked_mul_Some_iff)
  ultimately have wm: "unat (fs_watermark st') = unat b + unat n * 4096"
    using st'(2) by (simp add: unat_saturating_add)
  have bound: "fs_watermark st \<le> f \<and> f < fs_watermark st'" if "f \<in> set run" for f
  proof -
    from that obtain i where i: "i < unat n" "f = run ! i" using run(4) by (auto simp: in_set_conv_nth)
    have "?ok f" using run(3) that by (simp add: list_all_iff)
    moreover have "i * 4096 < unat n * 4096" using i by simp
    ultimately show ?thesis using at [OF i(1)] i(2) wm
      by (simp add: dma_frame_ok_def word_less_nat_alt word_le_nat_alt not_less)
  qed
  have "distinct run"
    unfolding distinct_conv_nth using at run(4) by (metis add_left_cancel mult_cancel2 zero_neq_numeral)
  moreover have "fs_watermark st \<le> fs_watermark st'"
    using bound [of "run ! 0"] n run(4) by (metis nth_mem order.strict_implies_order order.trans)
  ultimately show ?thesis
    unfolding eq [symmetric] using assms(2) bound st'(1) by (intro issue_fresh [of st]) auto
qed

lemma alloc_dma_fresh:
  assumes "alignable (bi_mem_regions boot)" and "ascending (bi_mem_regions boot)"
    and "frames_inv (st, own)" and "alloc_dma_pages_excluding dev_ok boot m ex st = (xs, st')"
  shows "step_fresh own xs (st', own \<union> set xs)"
proof -
  let ?ok = "dma_frame_ok dev_ok boot (fs_watermark st)"
  note sp = boot_frames_spec [OF assms(1), of ex]
  from dma_pages_loop_spec [OF sp(3,2), of "[]" m ?ok st xs st'] assms(4) sp(1)
  have xs: "xs = take m (filter ?ok (boot_usable boot ex))" "fs_free st' = fs_free st"
    "fs_watermark st' = (if xs = [] then fs_watermark st else saturating_add (last xs) PAGE_SIZE)"
    by (simp_all add: alloc_dma_pages_excluding_def)
  have "sorted_wrt (<) (boot_usable boot ex)"
    using assms(2) by (simp add: boot_usable_def usable_frames_def ascending_def sorted_wrt_filter)
  then have srt: "sorted_wrt (<) xs" unfolding xs(1) by (simp add: sorted_wrt_filter sorted_wrt_take)
  have sub: "f \<in> set (boot_usable boot ex) \<and> ?ok f" if "f \<in> set xs" for f
    using that xs(1) by (auto dest: in_set_takeD)
  show ?thesis
  proof (cases "xs = []")
    case True
    with assms(3) xs show ?thesis by (simp add: step_fresh_def frames_inv_def)
  next
    case False
    have last: "f \<le> last xs" if "f \<in> set xs" for f
      using sorted_wrt_le_last [OF srt that] .
    have ub: "last xs < fs_watermark st'"
      using usable_frame_room(3) [of "last xs" boot ex] sub [of "last xs"] False xs(3) by simp
    have "fs_watermark st \<le> f \<and> f < fs_watermark st'" if "f \<in> set xs" for f
      using sub [OF that] last [OF that] ub by (simp add: dma_frame_ok_def not_less)
    moreover have "fs_watermark st \<le> last xs" using sub [of "last xs"] False by (simp add: dma_frame_ok_def not_less)
    ultimately show ?thesis
      using assms(3) xs(2) srt ub by (intro issue_fresh [of st]) (auto simp: strict_sorted_iff)
  qed
qed

lemma frame_step_fresh:
  assumes "frame_step boot (st, own) xs s'" and "alignable (bi_mem_regions boot)"
    and "ascending (bi_mem_regions boot)" and "frames_inv (st, own)"
  shows "step_fresh own xs s'"
  using assms(1)
proof cases
  case (fs_alloc_fail dev_ok ex st')
  have "st' = st"
    using fs_alloc_fail(3) by (auto simp: alloc_zeroed_frame_excluding_def Let_def split: option.splits)
  with fs_alloc_fail assms(4) show ?thesis by (simp add: step_fresh_def)
next
  case (fs_run_fail dev_ok n ex st')
  have "st' = st"
    using fs_run_fail(3)
    by (auto simp: alloc_contiguous_frames_excluding_def split: option.splits prod.splits if_splits)
  with fs_run_fail assms(4) show ?thesis by (simp add: step_fresh_def)
next
  case (fs_free f grow r st')
  then show ?thesis
    using assms(4) by (auto simp: step_fresh_def frames_inv_def free_frame_def split: if_splits)
next
  case (fs_dma dev_ok m ex st')
  with alloc_dma_fresh [OF assms(2,3,4) fs_dma(2)] show ?thesis by simp
qed (use assms alloc_zeroed_fresh alloc_run_fresh in blast)+

lemma frame_run_inv:
  "frame_run boot s s' \<Longrightarrow> alignable (bi_mem_regions boot) \<Longrightarrow> ascending (bi_mem_regions boot) \<Longrightarrow>
     frames_inv s \<Longrightarrow> frames_inv s'"
proof (induction rule: frame_run.induct)
  case (fr_step s s1 xs s2)
  obtain st own where "s1 = (st, own)" by fastforce
  with fr_step frame_step_fresh [of boot st own xs s2] show ?case by (simp add: step_fresh_def)
qed

lemma first_fit:
  assumes "alignable (bi_mem_regions boot)" and "fs_free st = []"
  shows "case (find (\<lambda>f. fs_watermark st \<le> f \<and> dev_ok f PAGE_SIZE
                 \<and> normal_identity_block (bi_mem_regions boot) (boot_framebuffer_range boot) (block_of f))
               (boot_usable boot ex),
               alloc_zeroed_frame_excluding dev_ok boot ex st) of
      (None, (g, st')) \<Rightarrow> g = None \<and> st' = st
    | (Some f, (g, st')) \<Rightarrow> g = Some f \<and> unat (fs_watermark st') = unat f + 4096
        \<and> fs_mem st' = (\<lambda>x. if unat f \<le> unat x \<and> unat x < unat f + 4096 then 0 else fs_mem st x)"
proof -
  let ?ok = "\<lambda>f. fs_watermark st \<le> f \<and> dev_ok f PAGE_SIZE
    \<and> normal_identity_block (bi_mem_regions boot) (boot_framebuffer_range boot) (block_of f)"
  let ?ok' = "\<lambda>f. \<not> (f < fs_watermark st \<or> \<not> dev_ok f PAGE_SIZE)
    \<and> normal_identity_block (bi_mem_regions boot) (boot_framebuffer_range boot) (block_of f)"
  have "?ok' = ?ok" by (auto simp: not_less)
  then have scan: "scan_frames ?ok' (boot_frames boot ex) = find ?ok (boot_usable boot ex)"
    using scan_frames_find [OF boot_frames_spec(3,2) [OF assms(1)], of ?ok' ex]
    by (simp only: boot_frames_spec(1) [OF assms(1)])
  have free: "take_free_frame u (fs_free st) = None" for u
    by (simp add: take_free_frame_def assms(2))
  show ?thesis
  proof (cases "find ?ok (boot_usable boot ex)")
    case None
    then show ?thesis
      by (simp only: alloc_zeroed_frame_excluding_def Let_def free option.case scan prod.case)
  next
    case (Some f)
    then have "f \<in> set (boot_usable boot ex)" by (auto simp: find_Some_iff)
    then have "unat (saturating_add f PAGE_SIZE) = unat f + 4096" by (rule usable_frame_room(2))
    then show ?thesis
      by (simp only: alloc_zeroed_frame_excluding_def Let_def free option.case scan prod.case Some)
        (simp add: write_zero_def)
  qed
qed

section \<open>Properties\<close>

text \<open>
  C6: no physical frame has two owners. On a memory map whose usable pages can be aligned and
  ascend in map order, start from any watermark with an empty reuse list and run any sequence
  of single-frame, contiguous-run and DMA-page allocations and of frees by owners, with any
  exclusions, device filters and heap outcomes: the frames handed out by the next call are
  pairwise distinct and none of them is still owned, whether they come from the watermark or
  from the reuse list.
\<close>

theorem frames_never_shared:
  assumes "alignable (bi_mem_regions boot)" and "ascending (bi_mem_regions boot)"
    and "fs_free st0 = []" and "frame_run boot (st0, {}) (st, own)"
    and "frame_step boot (st, own) xs s'"
  shows "distinct xs \<and> set xs \<inter> own = {}"
proof -
  have "frames_inv (st0, {})" using assms(3) by (simp add: frames_inv_def)
  from frame_run_inv [OF assms(4,1,2) this] have "frames_inv (st, own)" .
  from frame_step_fresh [OF assms(5,1,2) this] show ?thesis by (simp add: step_fresh_def)
qed

text \<open>
  A single-frame allocation is first fit and zeroes. With an empty reuse list the frame
  returned is the first page, in map order, of the usable memory outside the exclusions that
  is not below the watermark and passes the device and identity-block filters, and none is
  returned exactly when there is no such page; the page reads zero afterwards, no other byte
  of memory changes, the watermark is the end of the page, and a failure changes nothing.
\<close>

lemma alloc_zeroed_frame_first_fit:
  assumes "alignable (bi_mem_regions boot)" and "fs_free st = []"
  shows "case (find (\<lambda>f. fs_watermark st \<le> f \<and> dev_ok f PAGE_SIZE
                 \<and> normal_identity_block (bi_mem_regions boot) (boot_framebuffer_range boot) (block_of f))
               (boot_usable boot ex),
               alloc_zeroed_frame_excluding dev_ok boot ex st) of
      (None, (g, st')) \<Rightarrow> g = None \<and> st' = st
    | (Some f, (g, st')) \<Rightarrow> g = Some f \<and> unat (fs_watermark st') = unat f + 4096
        \<and> fs_mem st' = (\<lambda>x. if unat f \<le> unat x \<and> unat x < unat f + 4096 then 0 else fs_mem st x)"
  using first_fit [OF assms] .

section \<open>An unsorted memory map\<close>

lemma block_mask: "BLOCK_2M - 1 = mask 21"
  by (simp add: BLOCK_2M_def mask_eq_exp_minus_1)

lemma block_of_page:
  assumes "unat f div 2 ^ 21 = q" and "q < 1024"
  shows "block_of f = of_nat (q * 2 ^ 21)"
proof -
  have "block_of f = push_bit 21 (drop_bit 21 f)"
    by (rule bit_word_eqI) (auto simp: block_of_def block_mask bit_simps)
  also have "drop_bit 21 f = of_nat q"
    using assms by (simp add: word_unat_eq_iff drop_bit_eq_div unat_div_distrib unat_of_nat)
  finally show ?thesis by (simp add: push_bit_eq_mult)
qed

definition unsorted_boot :: boot_info where
  "unsorted_boot =
     \<lparr>bi_flags = 0,
      bi_mem_regions =
        [\<lparr>mr_range = \<lparr>rg_start = 0x400000, rg_len = 0x200000\<rparr>, mr_kind = Usable\<rparr>,
         \<lparr>mr_range = \<lparr>rg_start = 0x200000, rg_len = 0x200000\<rparr>, mr_kind = Usable\<rparr>],
      bi_kernel_phys = range_empty, bi_initrd = range_empty,
      bi_framebuffer = \<lparr>fb_phys = 0, fb_len = 0, fb_width = 0, fb_height = 0, fb_stride = 0\<rparr>\<rparr>"

lemma unsorted_usable: "boot_usable unsorted_boot [] = pages 0x400000 0x600000 @ pages 0x200000 0x400000"
proof -
  have e: "align_up 0x400000 = Some 0x400000" "align_up 0x200000 = Some 0x200000"
    "align_down 0x600000 = 0x600000" "align_down 0x400000 = 0x400000"
    by (simp_all add: align_up_Some_iff align_down_eq_iff)
  show ?thesis
    by (simp add: boot_usable_def usable_frames_def unsorted_boot_def from_boot_info_def Let_def
        push_exclusion_def range_is_empty_def range_empty_def has_framebuffer_def excluded_by_def
        region_frames_def range_end_def saturating_add_def e)
qed

lemma unsorted_ok:
  assumes "f \<in> set (boot_usable unsorted_boot [])"
  shows "normal_identity_block (bi_mem_regions unsorted_boot) (boot_framebuffer_range unsorted_boot) (block_of f)"
proof -
  from assms obtain k where k: "f = of_nat (k * 4096)" "512 \<le> k" "k < 1536"
    by (fastforce simp: unsorted_usable in_pages_iff)
  then have "unat f = k * 4096" by (simp add: unat_of_nat del: of_nat_mult)
  moreover have "k * 4096 div 2097152 = (k div 512 :: nat)"
    using div_mult_mult2 [of 4096 k 512] by simp
  moreover have "k div 512 = 1 \<or> k div 512 = 2"
  proof -
    have "1 \<le> k div 512" using div_le_mono [OF k(2), of 512] by simp
    moreover have "k div 512 < 3" using k(3) by (simp add: div_less_iff_less_mult)
    ultimately show ?thesis by linarith
  qed
  ultimately have "block_of f = 0x200000 \<or> block_of f = 0x400000"
    using block_of_page [of f 1] block_of_page [of f 2] by auto
  then show ?thesis
    by (auto simp: normal_identity_block_def BLOCK_2M_def overlaps_nat unsorted_boot_def
        boot_framebuffer_range_def has_framebuffer_def range_empty_def checked_add_def is_ram_kind_def
        range_end_def saturating_add_def)
qed

text \<open>
  C23: the DMA page list is not safe on an unsorted map. On a map whose higher usable region
  comes first, one request that crosses into the lower region leaves the watermark below the
  frames already handed out from the higher one, and the next single-frame allocation
  returns a frame that the DMA list still owns.
\<close>

theorem dma_pages_unsorted_reissue:
  "let (xs, st') = alloc_dma_pages_excluding (\<lambda>_ _. True) unsorted_boot 513 [] (frame_state_boot mem);
      (f, st'') = alloc_zeroed_frame (\<lambda>_ _. True) unsorted_boot st'
    in f = Some 0x400000 \<and> 0x400000 \<in> set xs \<and> length xs = 513"
proof -
  define st where "st = frame_state_boot mem"
  then have st: "fs_free st = []" "fs_watermark st = 0" by (simp_all add: frame_state_boot_def)
  let ?dev = "\<lambda>_ _. True" and ?b = unsorted_boot
  let ?hi = "pages 0x400000 0x600000" and ?lo = "pages 0x200000 0x400000"
  have al: "alignable (bi_mem_regions ?b)"
    by (simp add: alignable_def unsorted_boot_def align_up_None_iff)
  have lo: "?lo = 0x200000 # pages 0x201000 0x400000"
    using pages_step(1) [of "0x200000" "0x400000"] by (simp add: PAGE_SIZE_def saturating_add_def word_le_nat_alt)
  have hi: "?hi = 0x400000 # pages 0x401000 0x600000"
    using pages_step(1) [of "0x400000" "0x600000"] by (simp add: PAGE_SIZE_def saturating_add_def word_le_nat_alt)
  have len: "length ?hi = 512" by (simp add: length_pages)
  obtain xs st' where d: "alloc_dma_pages_excluding ?dev ?b 513 [] st = (xs, st')" by fastforce
  have filt: "filter (dma_frame_ok ?dev ?b (fs_watermark st)) (boot_usable ?b []) = boot_usable ?b []"
    using unsorted_ok st(2) by (intro filter_True) (auto simp: dma_frame_ok_def)
  have "xs = [] @ take (513 - length ([] :: u64 list)) (boot_usable ?b []) \<and> fs_free st' = fs_free st
      \<and> fs_watermark st' = (if xs = [] then fs_watermark st else saturating_add (last xs) PAGE_SIZE)"
    by (rule dma_pages_loop_spec [OF boot_frames_spec(3,2) [OF al] _
          d [unfolded alloc_dma_pages_excluding_def], unfolded boot_frames_spec(1) [OF al] filt]) simp
  then have xs: "xs = take 513 (boot_usable ?b [])" "fs_free st' = []"
    "fs_watermark st' = (if xs = [] then fs_watermark st else saturating_add (last xs) PAGE_SIZE)"
    unfolding st(1) by (elim conjE, simp)+
  have xs2: "xs = ?hi @ [0x200000]" unfolding xs(1) unsorted_usable by (simp add: len lo)
  then have wm: "fs_watermark st' = 0x201000" using xs(3) by (simp add: PAGE_SIZE_def saturating_add_def)
  have ok: "normal_identity_block (bi_mem_regions ?b) (boot_framebuffer_range ?b) (block_of 0x400000)"
    by (rule unsorted_ok) (simp add: unsorted_usable hi)
  have "boot_usable ?b [] = 0x400000 # (pages 0x401000 0x600000 @ ?lo)" by (simp add: unsorted_usable hi)
  with first_fit [OF al xs(2), of ?dev "[]"] wm ok
  have "fst (alloc_zeroed_frame ?dev ?b st') = Some 0x400000"
    by (auto simp: alloc_zeroed_frame_def word_le_nat_alt split: prod.splits)
  then show ?thesis
    using d xs2 hi len unfolding st_def [symmetric] by (cases "alloc_zeroed_frame ?dev ?b st'") (simp add: Let_def)
qed

subsection \<open>Witnesses\<close>

definition sample_boot :: boot_info where
  "sample_boot =
     unsorted_boot\<lparr>bi_mem_regions :=
       [\<lparr>mr_range = \<lparr>rg_start = 0x200000, rg_len = 0x200000\<rparr>, mr_kind = Usable\<rparr>]\<rparr>"

lemma sample_boot_map:
  "alignable (bi_mem_regions sample_boot)" "ascending (bi_mem_regions sample_boot)"
  "boot_usable sample_boot [] = pages 0x200000 0x400000"
proof -
  have e: "align_up 0x200000 = Some 0x200000" "align_down 0x400000 = 0x400000"
    by (simp_all add: align_up_Some_iff align_down_eq_iff)
  have r: "concat (map region_frames (bi_mem_regions sample_boot)) = pages 0x200000 0x400000"
    by (simp add: sample_boot_def unsorted_boot_def region_frames_def range_end_def saturating_add_def e)
  show "alignable (bi_mem_regions sample_boot)"
    by (simp add: alignable_def sample_boot_def unsorted_boot_def align_up_None_iff)
  show "ascending (bi_mem_regions sample_boot)" by (simp add: ascending_def r pages_sorted)
  show "boot_usable sample_boot [] = pages 0x200000 0x400000"
    unfolding boot_usable_def usable_frames_def r
    by (simp add: sample_boot_def unsorted_boot_def from_boot_info_def Let_def push_exclusion_def
        range_is_empty_def range_empty_def has_framebuffer_def excluded_by_def)
qed

lemma sample_first_frame:
  "find (\<lambda>f. 0 \<le> f \<and> True \<and> normal_identity_block (bi_mem_regions sample_boot)
      (boot_framebuffer_range sample_boot) (block_of f)) (boot_usable sample_boot []) = Some 0x200000"
proof -
  have "pages 0x200000 0x400000 = 0x200000 # pages 0x201000 0x400000"
    using pages_step(1) [of "0x200000" "0x400000"] by (simp add: PAGE_SIZE_def saturating_add_def word_le_nat_alt)
  moreover have "block_of 0x200000 = 0x200000" using block_of_page [of "0x200000" 1] by simp
  moreover have "normal_identity_block (bi_mem_regions sample_boot)
      (boot_framebuffer_range sample_boot) 0x200000"
    by (simp add: sample_boot_def unsorted_boot_def normal_identity_block_def
        BLOCK_2M_def overlaps_nat boot_framebuffer_range_def has_framebuffer_def range_empty_def
        checked_add_def is_ram_kind_def range_end_def saturating_add_def)
  ultimately show ?thesis by (simp add: sample_boot_map(3))
qed

theorem frames_never_shared_witness:
  "\<exists>s'. frame_step sample_boot (frame_state_boot (\<lambda>_. 7), {}) [0x200000] s'
     \<and> distinct [0x200000 :: u64] \<and> set [0x200000 :: u64] \<inter> {} = {}"
proof -
  have f: "fs_free (frame_state_boot (\<lambda>_. 7)) = []" by (simp add: frame_state_boot_def)
  from first_fit [OF sample_boot_map(1) f, of "\<lambda>_ _. True" "[]"] sample_first_frame
  obtain st' where "alloc_zeroed_frame_excluding (\<lambda>_ _. True) sample_boot [] (frame_state_boot (\<lambda>_. 7)) =
      (Some 0x200000, st')" by (auto simp: frame_state_boot_def split: prod.splits)
  then have st: "frame_step sample_boot (frame_state_boot (\<lambda>_. 7), {}) [0x200000] (st', {0x200000})"
    by (rule fs_alloc)
  from frames_never_shared [OF sample_boot_map(1,2) f fr_refl st] st show ?thesis by blast
qed

end
