(* ===== verification/Task.thy ===== *)
theory Task
  imports Abi_Sys Mm_Vmo
begin

text \<open>
  Jobs, processes, kernel stacks and threads of \<open>kernel/src/task.rs\<close>: the resident-actor
  bound, the bookkeeping of a process's address space (exact mappings, free and writable
  ranges, the search for a free span) and the life cycle of a thread.

  The mappings and the user stack are address ranges as the source records them. \<open>usize\<close> is
  64 bits wide. The saved CPU context of a thread belongs to the HAL and is not modelled; the
  address and the success of the stack allocation are arguments.
\<close>

unbundle bit_operations_syntax

section \<open>Jobs\<close>

definition RESIDENT_MAX :: u32 where "RESIDENT_MAX = 288"

definition validate_resident_limit :: "u32 \<Rightarrow> u32 \<Rightarrow> errno + unit" where
  "validate_resident_limit limit live =
     (if limit = 0 \<or> RESIDENT_MAX < limit then Inl E_InvalidArgs
      else if limit < live then Inl E_BadState
      else Inr ())"

record job =
  jb_object :: kernel_object
  jb_parent :: "ko_id option"
  jb_resident_limit :: u32

definition job_root :: "object_manager \<Rightarrow> job \<times> object_manager" where
  "job_root objects =
     (case create objects Job of (ob, objects') \<Rightarrow>
        (\<lparr>jb_object = ob, jb_parent = None, jb_resident_limit = RESIDENT_MAX\<rparr>, objects'))"

definition job_child :: "object_manager \<Rightarrow> job \<Rightarrow> job \<times> object_manager" where
  "job_child objects parent =
     (case create objects Job of (ob, objects') \<Rightarrow>
        (\<lparr>jb_object = ob, jb_parent = Some (ko_koid (jb_object parent)),
          jb_resident_limit = jb_resident_limit parent\<rparr>, objects'))"

definition set_resident_limit :: "job \<Rightarrow> u32 \<Rightarrow> job" where
  "set_resident_limit j limit = j\<lparr>jb_resident_limit := limit\<rparr>"

section \<open>Processes\<close>

definition PAGE_WRITE :: page_flags where "PAGE_WRITE = 2"
definition PAGE_EXECUTE :: page_flags where "PAGE_EXECUTE = 4"
definition PAGE_DEVICE :: page_flags where "PAGE_DEVICE = 16"

definition page_flags_contains :: "page_flags \<Rightarrow> page_flags \<Rightarrow> bool" where
  "page_flags_contains self needed = mask_contains self needed"

record process =
  pr_object :: kernel_object
  pr_job :: ko_id
  pr_root_vmar :: vmar
  pr_handles :: handle_table
  pr_mappings :: "(mapping \<times> ko_id) list"
  pr_user_stack :: "(u64 \<times> u64) option"
  pr_ttbr0 :: "u64 option"

definition process_new :: "object_manager \<Rightarrow> job \<Rightarrow> vmar \<Rightarrow> process \<times> object_manager" where
  "process_new objects jb root_vmar =
     (case create objects Process of (ob, objects') \<Rightarrow>
        (\<lparr>pr_object = ob, pr_job = ko_koid (jb_object jb), pr_root_vmar = root_vmar,
          pr_handles = handle_table_new, pr_mappings = [], pr_user_stack = None, pr_ttbr0 = None\<rparr>,
         objects'))"

definition process_from_parts :: "ko_id \<Rightarrow> vmar \<Rightarrow> process" where
  "process_from_parts koid root_vmar =
     \<lparr>pr_object = kernel_object_new koid Process, pr_job = 0, pr_root_vmar = root_vmar,
      pr_handles = handle_table_new, pr_mappings = [], pr_user_stack = None, pr_ttbr0 = None\<rparr>"

definition add_mapping :: "process \<Rightarrow> mapping \<Rightarrow> ko_id \<Rightarrow> process" where
  "add_mapping p m vmo_koid = p\<lparr>pr_mappings := pr_mappings p @ [(m, vmo_koid)]\<rparr>"

definition mapping_exact :: "process \<Rightarrow> u64 \<Rightarrow> u64 \<Rightarrow> (mapping \<times> ko_id) option" where
  "mapping_exact p virt len =
     find (\<lambda>(m, _). mp_virt m = virt \<and> mp_len m = len) (pr_mappings p)"

definition remove_mapping_exact ::
  "process \<Rightarrow> u64 \<Rightarrow> u64 \<Rightarrow> (mapping \<times> ko_id) option \<times> process" where
  "remove_mapping_exact p virt len =
     (case find_index (\<lambda>(m, _). mp_virt m = virt \<and> mp_len m = len) (pr_mappings p) of
        None \<Rightarrow> (None, p)
      | Some index \<Rightarrow>
          (Some (pr_mappings p ! index), p\<lparr>pr_mappings := remove_nth index (pr_mappings p)\<rparr>))"

definition set_user_stack :: "process \<Rightarrow> u64 \<Rightarrow> u64 \<Rightarrow> process" where
  "set_user_stack p start len = p\<lparr>pr_user_stack := Some (start, len)\<rparr>"

definition process_signal :: "process \<Rightarrow> signals \<Rightarrow> process" where
  "process_signal p s = p\<lparr>pr_object := kernel_object_signal (pr_object p) s\<rparr>"

subsection \<open>Ranges of the address space\<close>

definition option_list :: "'a option \<Rightarrow> 'a list" where
  "option_list x = (case x of None \<Rightarrow> [] | Some y \<Rightarrow> [y])"

definition user_range_is_free :: "process \<Rightarrow> u64 \<Rightarrow> u64 \<Rightarrow> bool" where
  "user_range_is_free p start len =
     (case checked_add start len of
        None \<Rightarrow> False
      | Some e \<Rightarrow>
          let overlap = (\<lambda>other_start other_len.
                case checked_add other_start other_len of
                  None \<Rightarrow> True
                | Some other_end \<Rightarrow> start < other_end \<and> other_start < e)
          in \<not> list_ex (\<lambda>(m, _). overlap (mp_virt m) (mp_len m)) (pr_mappings p)
             \<and> \<not> (case pr_user_stack p of
                     None \<Rightarrow> False
                   | Some (stack_start, stack_len) \<Rightarrow> overlap stack_start stack_len))"

text \<open>\<open>Iterator::max\<close>.\<close>

fun max_of :: "u64 list \<Rightarrow> u64 option" where
  "max_of [] = None"
| "max_of (x # xs) = Some (fold max xs x)"

definition writable_ranges :: "process \<Rightarrow> (u64 \<times> u64) list" where
  "writable_ranges p =
     map (\<lambda>(m, _). (mp_virt m, mp_len m))
       (filter (\<lambda>(m, _). page_flags_contains (mp_flags m) PAGE_WRITE
                  \<and> \<not> page_flags_contains (mp_flags m) PAGE_EXECUTE
                  \<and> \<not> page_flags_contains (mp_flags m) PAGE_DEVICE) (pr_mappings p))
     @ option_list (pr_user_stack p)"

definition mapped_end :: "process \<Rightarrow> u64 \<Rightarrow> u64 option" where
  "mapped_end p cursor =
     max_of (List.map_filter
       (\<lambda>(base, bytes). case checked_add base bytes of
            None \<Rightarrow> None
          | Some limit \<Rightarrow> if base \<le> cursor \<and> cursor < limit then Some limit else None)
       (writable_ranges p))"

lemma fold_max_in: "fold max xs (x :: 'a :: linorder) \<in> set (x # xs)"
  by (induction xs arbitrary: x) (auto simp: max_def)

lemma max_of_in: "max_of xs = Some m \<Longrightarrow> m \<in> set xs"
  using fold_max_in by (cases xs) fastforce+

lemma mapped_end_above:
  assumes "mapped_end p cursor = Some limit"
  shows "cursor < limit" and "\<exists>(b, n) \<in> set (writable_ranges p). checked_add b n = Some limit \<and> b \<le> cursor"
proof -
  from max_of_in [OF assms [unfolded mapped_end_def]] obtain b n where
    "(b, n) \<in> set (writable_ranges p)" "checked_add b n = Some limit" "b \<le> cursor" "cursor < limit"
    by (auto simp: List.map_filter_def split: option.splits if_splits)
  then show "cursor < limit"
    "\<exists>(b, n) \<in> set (writable_ranges p). checked_add b n = Some limit \<and> b \<le> cursor" by auto
qed

function covered_from :: "process \<Rightarrow> u64 \<Rightarrow> u64 \<Rightarrow> bool" where
  "covered_from p cursor e =
     (if cursor < e then
        (case mapped_end p cursor of
           None \<Rightarrow> False
         | Some limit \<Rightarrow> covered_from p (min e limit) e)
      else True)"
  by pat_completeness auto
termination
proof (relation "measure (\<lambda>(p, cursor, e). unat e - unat cursor)", goal_cases)
  case (2 p cursor e limit)
  have "cursor < limit" using mapped_end_above(1) 2(2) by simp
  with 2(1) show ?case by (auto simp: word_less_nat_alt min_def word_le_nat_alt)
qed simp

declare covered_from.simps [simp del]

definition user_range_is_writable :: "process \<Rightarrow> u64 \<Rightarrow> u64 \<Rightarrow> bool" where
  "user_range_is_writable p start len =
     (case checked_add start len of
        None \<Rightarrow> False
      | Some e \<Rightarrow>
          if len = 0 \<or> start < va_base (pr_root_vmar p)
             \<or> (case checked_add (va_base (pr_root_vmar p)) (va_len (pr_root_vmar p)) of
                  None \<Rightarrow> True
                | Some limit \<Rightarrow> limit < e)
          then False
          else covered_from p start e)"

subsection \<open>The search for a free span\<close>

definition is_power_of_two :: "u64 \<Rightarrow> bool" where
  "is_power_of_two x = list_ex (\<lambda>k. x = push_bit k 1) [0..<64]"

fun above_mappings :: "u64 \<Rightarrow> (mapping \<times> ko_id) list \<Rightarrow> u64 option" where
  "above_mappings candidate [] = Some candidate"
| "above_mappings candidate ((m, _) # ms) =
     (case checked_add (mp_virt m) (mp_len m) of
        None \<Rightarrow> None
      | Some e \<Rightarrow> above_mappings (max candidate e) ms)"

definition above_stack :: "u64 \<Rightarrow> (u64 \<times> u64) option \<Rightarrow> u64 option" where
  "above_stack candidate stack =
     (case stack of
        None \<Rightarrow> Some candidate
      | Some (stack_start, stack_len) \<Rightarrow>
          map_option (max candidate) (checked_add stack_start stack_len))"

text \<open>The caller has refused alignment 0, so the loop moves up in every round.\<close>

function span_search :: "process \<Rightarrow> u64 \<Rightarrow> u64 \<Rightarrow> u64 \<Rightarrow> u64 \<Rightarrow> u64 option" where
  "span_search p vmar_end len align candidate =
     (if align = 0 then None
      else if (case checked_add candidate len of None \<Rightarrow> False | Some e \<Rightarrow> e \<le> vmar_end) then
        if user_range_is_free p candidate len then Some candidate
        else (case checked_add candidate align of
                None \<Rightarrow> None
              | Some candidate' \<Rightarrow> span_search p vmar_end len align candidate')
      else None)"
  by pat_completeness auto
termination
proof (relation "measure (\<lambda>(p, v, l, a, c). 2 ^ 64 - unat c)", goal_cases)
  case (2 p vmar_end len align candidate candidate')
  have "unat candidate' = unat candidate + unat align" using 2(4) by (simp add: checked_add_Some_iff)
  moreover have "0 < unat align" using 2(1) by (metis gr0I unat_eq_zero)
  moreover have "unat candidate' < 2 ^ 64" using unat_u64_bound [of candidate'] by simp
  ultimately show ?case by simp
qed simp

declare span_search.simps [simp del]

definition find_free_span :: "process \<Rightarrow> u64 \<Rightarrow> u64 \<Rightarrow> u64 option" where
  "find_free_span p len align =
     (if len = 0 \<or> align = 0 \<or> \<not> is_power_of_two align then None
      else
        let vmar_base = va_base (pr_root_vmar p) in
        case checked_add vmar_base (va_len (pr_root_vmar p)) of
          None \<Rightarrow> None
        | Some vmar_end \<Rightarrow>
            (case above_mappings (max vmar_base align) (pr_mappings p) of
               None \<Rightarrow> None
             | Some candidate \<Rightarrow>
                 (case above_stack candidate (pr_user_stack p) of
                    None \<Rightarrow> None
                  | Some candidate \<Rightarrow>
                      let m = align - 1 in
                      case checked_add candidate m of
                        None \<Rightarrow> None
                      | Some candidate \<Rightarrow>
                          span_search p vmar_end len align (candidate AND NOT m))))"

section \<open>Stacks and threads\<close>

datatype task_error = TE_EmptyStack | TE_StackTooSmall | TE_StackOutsideHeap | TE_StackAllocation

definition align_up_usize :: "u64 \<Rightarrow> u64 \<Rightarrow> u64 option" where
  "align_up_usize v align =
     (case checked_sub align 1 of
        None \<Rightarrow> None
      | Some m \<Rightarrow> map_option (\<lambda>x. x AND NOT m) (checked_add v m))"

definition align_down_usize :: "u64 \<Rightarrow> u64 \<Rightarrow> u64" where
  "align_down_usize v align = v AND NOT (align - 1)"

record kernel_stack =
  ks_ptr :: u64
  ks_len :: u64

text \<open>
  \<open>alloc\<close> is the allocator's answer to the request for a buffer of the rounded size: its
  address, or none. \<open>heap_lo\<close> and \<open>heap_hi\<close> are the bounds the heap reports (equal before
  it is set up).
\<close>

definition kernel_stack_new ::
  "(u64 \<Rightarrow> u64 option) \<Rightarrow> u64 \<Rightarrow> u64 \<Rightarrow> u64 \<Rightarrow> task_error + kernel_stack" where
  "kernel_stack_new alloc heap_lo heap_hi size' =
     (if size' = 0 then Inl TE_EmptyStack
      else if size' < PAGE_SIZE then Inl TE_StackTooSmall
      else case align_up_usize size' 16 of
             None \<Rightarrow> Inl TE_StackTooSmall
           | Some n \<Rightarrow>
               (case alloc n of
                  None \<Rightarrow> Inl TE_StackAllocation
                | Some lo \<Rightarrow>
                    if heap_lo \<noteq> heap_hi
                       \<and> (lo < heap_lo \<or> heap_hi < saturating_add lo n)
                    then Inl TE_StackOutsideHeap
                    else Inr \<lparr>ks_ptr = lo, ks_len = n\<rparr>))"

definition stack_top :: "kernel_stack \<Rightarrow> u64" where
  "stack_top s = align_down_usize (ks_ptr s + ks_len s) 16"

datatype thread_state = New | Ready | Running | Blocked | Terminated

record thread =
  th_object :: kernel_object
  th_process :: ko_id
  th_state :: thread_state
  th_stack :: kernel_stack

definition thread_new ::
  "(u64 \<Rightarrow> u64 option) \<Rightarrow> u64 \<Rightarrow> u64 \<Rightarrow> object_manager \<Rightarrow> process \<Rightarrow> u64
     \<Rightarrow> (task_error + thread) \<times> object_manager" where
  "thread_new alloc heap_lo heap_hi objects p stack_size =
     (case kernel_stack_new alloc heap_lo heap_hi stack_size of
        Inl e \<Rightarrow> (Inl e, objects)
      | Inr stack \<Rightarrow>
          (case create objects Thread of (ob, objects') \<Rightarrow>
             (Inr \<lparr>th_object = ob, th_process = ko_koid (pr_object p), th_state = New,
                   th_stack = stack\<rparr>, objects')))"

definition thread_block :: "thread \<Rightarrow> thread" where
  "thread_block t = (if th_state t \<noteq> Terminated then t\<lparr>th_state := Blocked\<rparr> else t)"

definition thread_ready :: "thread \<Rightarrow> thread" where
  "thread_ready t = (if th_state t \<noteq> Terminated then t\<lparr>th_state := Ready\<rparr> else t)"

definition thread_run :: "thread \<Rightarrow> thread" where
  "thread_run t = (if th_state t \<noteq> Terminated then t\<lparr>th_state := Running\<rparr> else t)"

definition thread_terminate :: "thread \<Rightarrow> thread" where
  "thread_terminate t =
     t\<lparr>th_state := Terminated, th_object := kernel_object_signal (th_object t) SIGNAL_TERMINATED\<rparr>"

section \<open>Lemmas\<close>

definition used_ranges :: "process \<Rightarrow> (u64 \<times> u64) list" where
  "used_ranges p = map (\<lambda>(m, _). (mp_virt m, mp_len m)) (pr_mappings p) @ option_list (pr_user_stack p)"

abbreviation range_top :: "u64 \<times> u64 \<Rightarrow> nat" where
  "range_top r \<equiv> unat (fst r) + unat (snd r)"

lemma used_ranges_all:
  "(\<forall>r \<in> set (used_ranges p). Q (fst r) (snd r)) \<longleftrightarrow>
     (\<forall>(m, k) \<in> set (pr_mappings p). Q (mp_virt m) (mp_len m))
     \<and> (case pr_user_stack p of None \<Rightarrow> True | Some (b, n) \<Rightarrow> Q b n)"
  by (auto simp: used_ranges_def option_list_def split: option.splits)

lemma user_range_is_free_iff:
  "user_range_is_free p s n \<longleftrightarrow>
     unat s + unat n < 2 ^ 64
     \<and> (\<forall>r \<in> set (used_ranges p). range_top r < 2 ^ 64
          \<and> (unat s + unat n \<le> unat (fst r) \<or> range_top r \<le> unat s))"
proof (cases "checked_add s n")
  case None
  from None [unfolded checked_add_None_iff] None show ?thesis by (simp add: user_range_is_free_def)
next
  case (Some e)
  then have e: "unat e = unat s + unat n" by (simp add: checked_add_Some_iff)
  have ov: "(case checked_add b l of None \<Rightarrow> True | Some oe \<Rightarrow> s < oe \<and> b < e) \<longleftrightarrow>
      \<not> (unat b + unat l < 2 ^ 64 \<and> (unat s + unat n \<le> unat b \<or> unat b + unat l \<le> unat s))" for b l
  proof (cases "checked_add b l")
    case None
    from None [unfolded checked_add_None_iff] None show ?thesis by simp
  next
    case (Some oe)
    then have "unat oe = unat b + unat l" by (simp add: checked_add_Some_iff)
    with Some e unat_u64_bound [of oe] show ?thesis by (auto simp: word_less_nat_alt)
  qed
  show ?thesis
    unfolding user_range_is_free_def Some option.case Let_def ov
      used_ranges_all [where Q = "\<lambda>b l. unat b + unat l < 2 ^ 64
        \<and> (unat s + unat n \<le> unat b \<or> unat b + unat l \<le> unat s)"]
    using e unat_u64_bound [of e] by (auto simp: list_ex_iff split: option.splits)
qed

text \<open>An address is covered when it lies in a writable range that does not wrap.\<close>

definition covered :: "process \<Rightarrow> nat \<Rightarrow> bool" where
  "covered p x \<longleftrightarrow>
     (\<exists>r \<in> set (writable_ranges p). range_top r < 2 ^ 64 \<and> unat (fst r) \<le> x \<and> x < range_top r)"

lemma mapped_end_None_iff: "mapped_end p c = None \<longleftrightarrow> \<not> covered p (unat c)"
proof -
  have max_None: "max_of xs = None \<longleftrightarrow> xs = []" for xs by (cases xs) auto
  have "(case checked_add b n of None \<Rightarrow> None
        | Some l \<Rightarrow> if b \<le> c \<and> c < l then Some l else None) = None
      \<longleftrightarrow> \<not> (unat b + unat n < 2 ^ 64 \<and> unat b \<le> unat c \<and> unat c < unat b + unat n)" for b n
  proof (cases "checked_add b n")
    case None
    from None [unfolded checked_add_None_iff] None show ?thesis by simp
  next
    case (Some l)
    then have "unat l = unat b + unat n" by (simp add: checked_add_Some_iff)
    with Some unat_u64_bound [of l] show ?thesis by (auto simp: word_less_nat_alt word_le_nat_alt)
  qed
  then show ?thesis
    unfolding mapped_end_def max_None covered_def
    by (auto simp: List.map_filter_def filter_empty_conv split: prod.splits)
qed

lemma covered_from_iff:
  "covered_from p c e \<longleftrightarrow> (\<forall>x. unat c \<le> x \<and> x < unat e \<longrightarrow> covered p x)"
proof (induction p c e rule: covered_from.induct)
  case (1 p c e)
  show ?case
  proof (cases "c < e")
    case False
    then show ?thesis by (auto simp: covered_from.simps [of p c e] word_less_nat_alt)
  next
    case lt: True
    show ?thesis
    proof (cases "mapped_end p c")
      case None
      then have "\<not> covered p (unat c)" by (simp add: mapped_end_None_iff)
      with None lt show ?thesis by (auto simp: covered_from.simps [of p c e] word_less_nat_alt)
    next
      case (Some l)
      from mapped_end_above [OF Some] obtain b n where r: "(b, n) \<in> set (writable_ranges p)"
        "unat l = unat b + unat n" "b \<le> c" "c < l" by (auto simp: checked_add_Some_iff)
      have cov: "covered p x" if "unat c \<le> x" "x < unat l" for x
        unfolding covered_def using r that unat_u64_bound [of l]
        by (intro bexI [of _ "(b, n)"]) (auto simp: word_le_nat_alt)
      have mn: "unat (min e l) = min (unat e) (unat l)" by (auto simp: min_def word_le_nat_alt)
      have cl: "unat c < unat l" using r(4) by (simp add: word_less_nat_alt)
      have st: "covered_from p c e = covered_from p (min e l) e"
        using lt Some by (simp add: covered_from.simps [of p c e])
      show ?thesis
        unfolding st 1 [OF lt Some] mn
      proof (intro iffI allI impI)
        fix x assume *: "\<forall>x. min (unat e) (unat l) \<le> x \<and> x < unat e \<longrightarrow> covered p x"
          and x: "unat c \<le> x \<and> x < unat e"
        show "covered p x"
          using * x cov by (cases "x < unat l") auto
      next
        fix x assume *: "\<forall>x. unat c \<le> x \<and> x < unat e \<longrightarrow> covered p x"
          and x: "min (unat e) (unat l) \<le> x \<and> x < unat e"
        then have "unat c \<le> x" using cl by (auto simp: min_def split: if_splits)
        with * x show "covered p x" by blast
      qed
    qed
  qed
qed

text \<open>The lowest address above a floor and a list of ranges.\<close>

fun above :: "u64 \<Rightarrow> (u64 \<times> u64) list \<Rightarrow> u64 option" where
  "above c [] = Some c"
| "above c ((b, n) # rs) =
     (case checked_add b n of None \<Rightarrow> None | Some e \<Rightarrow> above (max c e) rs)"

lemma above_append: "above c (xs @ ys) = (case above c xs of None \<Rightarrow> None | Some d \<Rightarrow> above d ys)"
  by (induction c xs rule: above.induct) (auto split: option.splits)

lemma above_mappings_eq: "above_mappings c ms = above c (map (\<lambda>(m, _). (mp_virt m, mp_len m)) ms)"
  by (induction c ms rule: above_mappings.induct) (auto split: option.splits)

lemma above_stack_eq: "above_stack c st = above c (option_list st)"
  by (auto simp: above_stack_def option_list_def split: option.splits)

lemma above_used:
  "(case above_mappings c (pr_mappings p) of None \<Rightarrow> None | Some d \<Rightarrow> above_stack d (pr_user_stack p))
     = above c (used_ranges p)"
  by (simp add: used_ranges_def above_append above_mappings_eq above_stack_eq split: option.split)

lemma above_spec:
  assumes "\<forall>r \<in> set rs. range_top r < 2 ^ 64"
  shows "\<exists>d. above c rs = Some d \<and> unat c \<le> unat d \<and> (\<forall>r \<in> set rs. range_top r \<le> unat d)
    \<and> (\<forall>x. unat c \<le> x \<and> (\<forall>r \<in> set rs. range_top r \<le> x) \<longrightarrow> unat d \<le> x)"
  using assms
proof (induction c rs rule: above.induct)
  case (2 c b n rs)
  then have lt: "unat b + unat n < 2 ^ 64" by simp
  then obtain e where e: "checked_add b n = Some e" "unat e = unat b + unat n"
    by (cases "checked_add b n") (auto simp: checked_add_None_iff checked_add_Some_iff)
  from 2(1) [OF e(1)] 2(2) obtain d where d: "above (max c e) rs = Some d" "unat (max c e) \<le> unat d"
    "\<forall>r \<in> set rs. range_top r \<le> unat d"
    "\<forall>x. unat (max c e) \<le> x \<and> (\<forall>r \<in> set rs. range_top r \<le> x) \<longrightarrow> unat d \<le> x"
    by auto
  have mx: "unat (max c e) = max (unat c) (unat e)" by (auto simp: max_def word_le_nat_alt)
  from d e mx show ?case by auto
qed auto

lemma span_search_hit:
  assumes "align \<noteq> 0" and "unat c + unat len \<le> unat vmar_end" and "user_range_is_free p c len"
  shows "span_search p vmar_end len align c = Some c"
proof -
  have "unat c + unat len < 2 ^ 64" using assms(2) unat_u64_bound [of vmar_end] by simp
  then obtain e where "checked_add c len = Some e" "unat e = unat c + unat len"
    by (cases "checked_add c len") (auto simp: checked_add_None_iff checked_add_Some_iff)
  with assms show ?thesis by (simp add: span_search.simps [of p vmar_end len align c] word_le_nat_alt)
qed

lemma span_search_out:
  assumes "unat vmar_end < unat c + unat len"
  shows "span_search p vmar_end len align c = None"
proof (cases "checked_add c len")
  case None
  then show ?thesis by (simp add: span_search.simps [of p vmar_end len align c])
next
  case (Some e)
  then have "\<not> e \<le> vmar_end" using assms by (simp add: checked_add_Some_iff word_le_nat_alt)
  with Some show ?thesis by (simp add: span_search.simps [of p vmar_end len align c])
qed

section \<open>Properties\<close>

text \<open>
  C26: \<open>find_free_span\<close> returns the lowest aligned span above everything in use. For a nonzero
  length, a power-of-two alignment, a VMAR that does not wrap and a process whose mappings and
  stack do not wrap: the address returned is aligned, at or above the VMAR's base and at least
  the alignment (so page 0 stays unmapped), the span ends inside the VMAR and is free, and no
  aligned address that lies above all mappings and the stack is lower; when none is returned,
  no such address has room in the VMAR.
\<close>

theorem find_free_span_lowest:
  assumes "len \<noteq> 0" and "align = push_bit k 1" and "k < 64"
    and "unat (va_base (pr_root_vmar p)) + unat (va_len (pr_root_vmar p)) < 2 ^ 64"
    and "\<forall>r \<in> set (used_ranges p). range_top r < 2 ^ 64"
  defines "vmar_top \<equiv> unat (va_base (pr_root_vmar p)) + unat (va_len (pr_root_vmar p))"
    and "fits \<equiv> \<lambda>c :: u64. unat c mod unat align = 0 \<and> unat (va_base (pr_root_vmar p)) \<le> unat c
      \<and> unat align \<le> unat c \<and> (\<forall>r \<in> set (used_ranges p). range_top r \<le> unat c)"
  shows "case find_free_span p len align of
      Some c \<Rightarrow> fits c \<and> unat c + unat len \<le> vmar_top \<and> user_range_is_free p c len
        \<and> (\<forall>x. fits x \<longrightarrow> unat c \<le> unat x)
    | None \<Rightarrow> (\<forall>x. fits x \<longrightarrow> vmar_top < unat x + unat len)"
proof -
  let ?A = "2 ^ k :: nat" and ?floor = "max (va_base (pr_root_vmar p)) align"
  have "?A < 2 ^ 64" using assms(3) by (rule power_strict_increasing) simp
  then have "unat (of_nat ?A :: u64) = ?A" by (simp add: unat_of_nat del: of_nat_power)
  then have A: "unat align = ?A" by (simp add: assms(2))
  have A0: "0 < ?A" and an: "align \<noteq> 0" using A by (auto simp: word_unat_eq_iff)
  have p2: "is_power_of_two align" using assms(2,3) by (auto simp: is_power_of_two_def list_ex_iff)
  have m: "align - 1 = mask k" by (simp add: assms(2) mask_eq_exp_minus_1)
  have um: "unat (mask k :: u64) = ?A - 1" using A an by (simp flip: m add: unat_minus_one)
  obtain vend where vend: "checked_add (va_base (pr_root_vmar p)) (va_len (pr_root_vmar p)) = Some vend"
    "unat vend = vmar_top"
    using assms(4) unfolding vmar_top_def
    by (cases "checked_add (va_base (pr_root_vmar p)) (va_len (pr_root_vmar p))")
      (auto simp: checked_add_None_iff checked_add_Some_iff)
  from above_spec [OF assms(5), of ?floor] obtain d where d: "above ?floor (used_ranges p) = Some d"
    "unat ?floor \<le> unat d" "\<forall>r \<in> set (used_ranges p). range_top r \<le> unat d"
    "\<And>x. unat ?floor \<le> x \<Longrightarrow> (\<forall>r \<in> set (used_ranges p). range_top r \<le> x) \<Longrightarrow> unat d \<le> x"
    by blast
  have fl: "unat ?floor = max (unat (va_base (pr_root_vmar p))) ?A"
    using A by (auto simp: max_def word_le_nat_alt)
  have fits_d: "unat d \<le> unat x \<and> unat x mod ?A = 0" if "fits x" for x
    using that d(4) [of "unat x"] by (simp add: fits_def fl A)
  obtain d0 where ab: "above_mappings ?floor (pr_mappings p) = Some d0" "above_stack d0 (pr_user_stack p) = Some d"
    using d(1) above_used [where c = ?floor and p = p] by (auto split: option.splits)
  have eq: "find_free_span p len align =
      (case checked_add d (mask k) of
         None \<Rightarrow> None
       | Some c \<Rightarrow> span_search p vend len align (c AND NOT (mask k)))"
    using ab assms(1) an p2 vend(1) m by (simp add: find_free_span_def Let_def)
  let ?up = "(unat d + (?A - 1)) - (unat d + (?A - 1)) mod ?A"
  have least: "?up \<le> unat x" if "fits x" for x
    using fits_d [OF that] A0 by (intro round_up_least) auto
  show ?thesis
  proof (cases "checked_add d (mask k)")
    case None
    have "\<not> fits x" for x
    proof
      assume fx: "fits x"
      have "unat x < 2 ^ 64" using unat_u64_bound [of x] by simp
      with least [OF fx] have "?up < 2 ^ 64" by (rule le_less_trans)
      moreover have "2 ^ 64 \<le> unat d + (?A - 1)" using None [unfolded checked_add_None_iff] um by simp
      then have "2 ^ 64 div ?A * ?A \<le> (unat d + (?A - 1)) div ?A * ?A" by (intro mult_le_mono1 div_le_mono)
      moreover have "(2::nat) ^ 64 div ?A * ?A = 2 ^ 64"
        using assms(3) by (intro dvd_div_mult_self le_imp_power_dvd) simp
      ultimately have "2 ^ 64 \<le> ?up" by (simp only: minus_mod_eq_div_mult)
      with \<open>?up < 2 ^ 64\<close> show False by (rule leD [THEN notE, rotated])
    qed
    with eq None show ?thesis by simp
  next
    case (Some c)
    let ?c = "c AND NOT (mask k)"
    have c: "unat ?c = ?up"
      using Some [unfolded checked_add_Some_iff] um by (simp only: unat_and_not_mask)
    have fits: "fits ?c"
      unfolding fits_def c A using round_up_ge [OF A0, of "unat d"] d(2,3) fl by fastforce
    have run: "find_free_span p len align = span_search p vend len align ?c" using eq Some by simp
    show ?thesis
    proof (cases "unat ?c + unat len \<le> vmar_top")
      case True
      have "user_range_is_free p ?c len"
        using fits True assms(4,5) by (auto simp: user_range_is_free_iff fits_def vmar_top_def)
      with span_search_hit [OF an, of ?c len vend p] True vend(2) fits least c run show ?thesis by simp
    next
      case False
      then have "vmar_top < unat x + unat len" if "fits x" for x using least [OF that] c by simp
      with span_search_out [of vend ?c len p align] False vend(2) run show ?thesis by simp
    qed
  qed
qed

text \<open>
  C27: \<open>user_range_is_writable\<close> is exact. It accepts an output buffer exactly when the buffer is
  nonempty, does not wrap, lies inside the VMAR (which does not wrap), and every single byte
  of it lies in a mapping that is writable, not executable and not device memory, or in the
  user stack; the loop over the mappings terminates.
\<close>

theorem user_range_is_writable_exact:
  "user_range_is_writable p start len \<longleftrightarrow>
     len \<noteq> 0
     \<and> unat (va_base (pr_root_vmar p)) + unat (va_len (pr_root_vmar p)) < 2 ^ 64
     \<and> unat (va_base (pr_root_vmar p)) \<le> unat start
     \<and> unat start + unat len \<le> unat (va_base (pr_root_vmar p)) + unat (va_len (pr_root_vmar p))
     \<and> list_all (covered p) [unat start ..< unat start + unat len]"
proof (cases "checked_add start len")
  case None
  from None [unfolded checked_add_None_iff] None show ?thesis by (auto simp: user_range_is_writable_def)
next
  case (Some e)
  then have e: "unat e = unat start + unat len" by (simp add: checked_add_Some_iff)
  let ?b = "va_base (pr_root_vmar p)" and ?n = "va_len (pr_root_vmar p)"
  have lim: "(case checked_add ?b ?n of None \<Rightarrow> True | Some l \<Rightarrow> l < e) \<longleftrightarrow>
      \<not> (unat ?b + unat ?n < 2 ^ 64 \<and> unat start + unat len \<le> unat ?b + unat ?n)"
  proof (cases "checked_add ?b ?n")
    case None
    from None [unfolded checked_add_None_iff] None show ?thesis by simp
  next
    case (Some l)
    then have "unat l = unat ?b + unat ?n" by (simp add: checked_add_Some_iff)
    with Some e unat_u64_bound [of l] show ?thesis by (auto simp: word_less_nat_alt)
  qed
  have cov: "covered_from p start e \<longleftrightarrow> list_all (covered p) [unat start ..< unat start + unat len]"
    by (auto simp: covered_from_iff e list_all_iff)
  show ?thesis
    unfolding user_range_is_writable_def Some option.case lim cov
    by (auto simp: word_less_nat_alt)
qed

definition sample_process :: process where
  "sample_process =
     set_user_stack (process_from_parts 7 \<lparr>va_base = 0x10000, va_len = 0x100000\<rparr>) 0x20000 0x1800"

lemmas sample_process_eval =
  sample_process_def set_user_stack_def process_from_parts_def used_ranges_def option_list_def

theorem find_free_span_lowest_witness:
  "find_free_span sample_process 0x1000 0x1000 = Some 0x22000
   \<and> user_range_is_free sample_process 0x22000 0x1000"
proof -
  have fields: "pr_root_vmar sample_process = \<lparr>va_base = 0x10000, va_len = 0x100000\<rparr>"
    "pr_mappings sample_process = []" "pr_user_stack sample_process = Some (0x20000, 0x1800)"
    by (simp_all add: sample_process_eval)
  have "is_power_of_two 0x1000"
    unfolding is_power_of_two_def list_ex_iff by (intro bexI [of _ 12]) simp_all
  moreover have "user_range_is_free sample_process 0x22000 0x1000"
    by (simp add: user_range_is_free_def fields checked_add_def)
  ultimately have c: "find_free_span sample_process 0x1000 0x1000 = Some 0x22000"
    by (simp add: find_free_span_def fields checked_add_def above_stack_def max_def
        span_search.simps [where candidate = "0x22000"])
  have hyps: "(0x1000 :: u64) \<noteq> 0" "(0x1000 :: u64) = push_bit 12 1" "(12 :: nat) < 64"
    "unat (va_base (pr_root_vmar sample_process)) + unat (va_len (pr_root_vmar sample_process)) < 2 ^ 64"
    "\<forall>r \<in> set (used_ranges sample_process). range_top r < 2 ^ 64"
    by (simp_all add: fields used_ranges_def option_list_def)
  from find_free_span_lowest [OF hyps] show ?thesis unfolding c option.case by blast
qed

datatype thread_op = Op_block | Op_ready | Op_run | Op_terminate

fun thread_do :: "thread_op \<Rightarrow> thread \<Rightarrow> thread" where
  "thread_do Op_block t = thread_block t"
| "thread_do Op_ready t = thread_ready t"
| "thread_do Op_run t = thread_run t"
| "thread_do Op_terminate t = thread_terminate t"

lemma thread_do_state:
  "th_state (fold thread_do ops t) = Terminated \<longleftrightarrow> th_state t = Terminated \<or> Op_terminate \<in> set ops"
proof (induction ops arbitrary: t)
  case (Cons x ops)
  then show ?case
    by (cases x) (auto simp: thread_block_def thread_ready_def thread_run_def thread_terminate_def)
qed simp

lemma thread_do_signals:
  "ko_signals (th_object (fold thread_do ops t)) =
     (if Op_terminate \<in> set ops then ko_signals (th_object t) OR SIGNAL_TERMINATED
      else ko_signals (th_object t))"
proof (induction ops arbitrary: t)
  case (Cons x ops)
  then show ?case
    by (cases x) (auto simp: thread_block_def thread_ready_def thread_run_def thread_terminate_def
        kernel_object_signal_def or.assoc)
qed simp

text \<open>
  Termination is final and always signalled. For a thread made by \<open>Thread::new\<close> and any
  sequence of block, ready, run and terminate calls, the thread is terminated exactly when
  terminate was among the calls, its object then carries exactly the \<open>TERMINATED\<close> signal, and
  it carries no signal in any other case.
\<close>

lemma thread_termination_final:
  assumes "thread_new alloc lo hi objects p stack_size = (Inr t, objects')"
  shows "(th_state (fold thread_do ops t) = Terminated \<longleftrightarrow> Op_terminate \<in> set ops)
    \<and> ko_signals (th_object (fold thread_do ops t)) =
        (if Op_terminate \<in> set ops then SIGNAL_TERMINATED else 0)"
proof -
  have "th_state t = New" "ko_signals (th_object t) = 0"
    using assms by (auto simp: thread_new_def create_def kernel_object_new_def Let_def
        split: sum.splits prod.splits)
  then show ?thesis by (simp add: thread_do_state thread_do_signals)
qed

end
