(* ===== verification/Ipc_Channel.thy ===== *)
theory Ipc_Channel
  imports Handle_Table
begin

text \<open>
  Messages (\<open>lib/kumo-ipc/src/lib.rs\<close>) and channel pairs (\<open>kernel/src/ipc.rs\<close>): the two
  endpoints of a channel with their inboxes, and the operations write, read, call and close on
  a pair.

  An inbox is a list of messages in arrival order; the capacity a vector keeps is not
  observable and not modelled. One direction of a channel is a mailbox: the contract is the
  locale \<open>mailbox\<close>, interpreted below for either direction of a pair.
\<close>

unbundle bit_operations_syntax

section \<open>Messages\<close>

definition MAX_INLINE_BYTES :: nat where "MAX_INLINE_BYTES = 4096"
definition MAX_MESSAGE_HANDLES :: nat where "MAX_MESSAGE_HANDLES = 64"

definition FLAG_EXPECTS_REPLY :: u32 where "FLAG_EXPECTS_REPLY = 1"
definition FLAG_IS_REPLY :: u32 where "FLAG_IS_REPLY = 2"

record message_header =
  mh_ordinal :: u32
  mh_flags :: u32
  mh_bytes_len :: u32
  mh_handles_len :: u32

definition message_header_new :: "u32 \<Rightarrow> u32 \<Rightarrow> u32 \<Rightarrow> message_header" where
  "message_header_new ordinal bytes_len handles_len =
     \<lparr>mh_ordinal = ordinal, mh_flags = 0, mh_bytes_len = bytes_len, mh_handles_len = handles_len\<rparr>"

definition expects_reply :: "message_header \<Rightarrow> message_header" where
  "expects_reply h = h\<lparr>mh_flags := mh_flags h OR FLAG_EXPECTS_REPLY\<rparr>"

definition is_reply :: "message_header \<Rightarrow> message_header" where
  "is_reply h = h\<lparr>mh_flags := mh_flags h OR FLAG_IS_REPLY\<rparr>"

datatype message_error = TooManyBytes | TooManyHandles

record message =
  ms_header :: message_header
  ms_bytes :: "u8 list"
  ms_handles :: "handle list"

definition message_new :: "u32 \<Rightarrow> u8 list \<Rightarrow> handle list \<Rightarrow> message_error + message" where
  "message_new ordinal bytes handles =
     (if MAX_INLINE_BYTES < length bytes then Inl TooManyBytes
      else if MAX_MESSAGE_HANDLES < length handles then Inl TooManyHandles
      else Inr \<lparr>ms_header = message_header_new ordinal (of_nat (length bytes)) (of_nat (length handles)),
                ms_bytes = bytes, ms_handles = handles\<rparr>)"

definition message_call :: "u32 \<Rightarrow> u8 list \<Rightarrow> handle list \<Rightarrow> message_error + message" where
  "message_call ordinal bytes handles =
     (case message_new ordinal bytes handles of
        Inl e \<Rightarrow> Inl e
      | Inr msg \<Rightarrow> Inr (msg\<lparr>ms_header := expects_reply (ms_header msg)\<rparr>))"

datatype ipc_error =
  IE_BadHandle | IE_WrongType | IE_AccessDenied | IE_TableFull | IE_TooManyBytes
  | IE_TooManyHandles | IE_ShouldWait | IE_PeerClosed | IE_NotChannel

fun ipc_from_object :: "object_error \<Rightarrow> ipc_error" where
  "ipc_from_object OE_BadHandle = IE_BadHandle"
| "ipc_from_object OE_WrongType = IE_WrongType"
| "ipc_from_object OE_AccessDenied = IE_AccessDenied"
| "ipc_from_object OE_TableFull = IE_TableFull"

fun map_message_error :: "message_error \<Rightarrow> ipc_error" where
  "map_message_error TooManyBytes = IE_TooManyBytes"
| "map_message_error TooManyHandles = IE_TooManyHandles"

record kernel_message =
  km_header :: message_header
  km_bytes :: "u8 list"
  km_handles :: "handle list"
  km_transfers :: "owned_handle_entry list"

definition from_borrowed :: "message \<Rightarrow> ipc_error + kernel_message" where
  "from_borrowed msg =
     (if MAX_INLINE_BYTES < length (ms_bytes msg) then Inl IE_TooManyBytes
      else if MAX_MESSAGE_HANDLES < length (ms_handles msg) then Inl IE_TooManyHandles
      else Inr \<lparr>km_header = ms_header msg, km_bytes = ms_bytes msg, km_handles = ms_handles msg,
                km_transfers = []\<rparr>)"

definition kernel_message_new :: "u32 \<Rightarrow> u8 list \<Rightarrow> handle list \<Rightarrow> ipc_error + kernel_message" where
  "kernel_message_new ordinal bytes handles =
     (case message_new ordinal bytes handles of
        Inl e \<Rightarrow> Inl (map_message_error e)
      | Inr msg \<Rightarrow> from_borrowed msg)"

definition kernel_message_call :: "u32 \<Rightarrow> u8 list \<Rightarrow> handle list \<Rightarrow> ipc_error + kernel_message" where
  "kernel_message_call ordinal bytes handles =
     (case message_call ordinal bytes handles of
        Inl e \<Rightarrow> Inl (map_message_error e)
      | Inr msg \<Rightarrow> from_borrowed msg)"

definition reply_to :: "kernel_message \<Rightarrow> u8 list \<Rightarrow> handle list \<Rightarrow> ipc_error + kernel_message" where
  "reply_to request bytes handles =
     (case kernel_message_new (mh_ordinal (km_header request)) bytes handles of
        Inl e \<Rightarrow> Inl e
      | Inr reply \<Rightarrow> Inr (reply\<lparr>km_header := is_reply (km_header reply)\<rparr>))"

definition attach_transfers :: "kernel_message \<Rightarrow> owned_handle_entry list \<Rightarrow> kernel_message" where
  "attach_transfers m transfers = m\<lparr>km_transfers := transfers\<rparr>"

section \<open>Channel pairs\<close>

datatype channel_end = Left | Right

fun peer :: "channel_end \<Rightarrow> channel_end" where
  "peer Left = Right"
| "peer Right = Left"

record endpoint_state =
  ep_object :: kernel_object
  ep_inbox :: "kernel_message list"
  ep_open :: bool
  ep_references :: "lineage option"

record channel_pair =
  cp_left :: endpoint_state
  cp_right :: endpoint_state

definition endpoint_new :: "kernel_object \<Rightarrow> endpoint_state" where
  "endpoint_new ob = \<lparr>ep_object = ob, ep_inbox = [], ep_open = True, ep_references = None\<rparr>"

definition channel_pair_new :: "object_manager \<Rightarrow> channel_pair \<times> object_manager" where
  "channel_pair_new objects =
     (case create objects Channel of (left, objects1) \<Rightarrow>
      case create objects1 Channel of (right, objects2) \<Rightarrow>
        (\<lparr>cp_left = endpoint_new left, cp_right = endpoint_new right\<rparr>, objects2))"

fun endpoint :: "channel_pair \<Rightarrow> channel_end \<Rightarrow> endpoint_state" where
  "endpoint c Left = cp_left c"
| "endpoint c Right = cp_right c"

text \<open>\<open>endpoint_mut\<close>: the pair after an update through the reference.\<close>

fun update_endpoint :: "channel_end \<Rightarrow> (endpoint_state \<Rightarrow> endpoint_state) \<Rightarrow> channel_pair \<Rightarrow> channel_pair" where
  "update_endpoint Left f c = c\<lparr>cp_left := f (cp_left c)\<rparr>"
| "update_endpoint Right f c = c\<lparr>cp_right := f (cp_right c)\<rparr>"

abbreviation pair_object :: "channel_pair \<Rightarrow> channel_end \<Rightarrow> kernel_object" where
  "pair_object c e \<equiv> ep_object (endpoint c e)"

abbreviation pair_koid :: "channel_pair \<Rightarrow> channel_end \<Rightarrow> ko_id" where
  "pair_koid c e \<equiv> ko_koid (pair_object c e)"

definition set_references :: "channel_pair \<Rightarrow> lineage option \<Rightarrow> lineage option \<Rightarrow> channel_pair" where
  "set_references c left right =
     update_endpoint Right (\<lambda>e. e\<lparr>ep_references := right\<rparr>)
       (update_endpoint Left (\<lambda>e. e\<lparr>ep_references := left\<rparr>) c)"

definition pair_signals :: "channel_pair \<Rightarrow> channel_end \<Rightarrow> signals" where
  "pair_signals c e =
     (let s = (if ep_inbox (endpoint c e) \<noteq> [] then SIGNAL_READABLE else 0)
      in if ep_open (endpoint c (peer e)) then s OR SIGNAL_WRITABLE else s OR SIGNAL_PEER_CLOSED)"

definition pair_write :: "channel_pair \<Rightarrow> channel_end \<Rightarrow> kernel_message \<Rightarrow> (ipc_error + unit) \<times> channel_pair" where
  "pair_write c from m =
     (if \<not> ep_open (endpoint c (peer from)) then (Inl IE_PeerClosed, c)
      else (Inr (), update_endpoint (peer from) (\<lambda>e. e\<lparr>ep_inbox := ep_inbox e @ [m]\<rparr>) c))"

definition pair_read :: "channel_pair \<Rightarrow> channel_end \<Rightarrow> (ipc_error + kernel_message) \<times> channel_pair" where
  "pair_read c e =
     (case ep_inbox (endpoint c e) of
        m # rest \<Rightarrow> (Inr m, update_endpoint e (\<lambda>s. s\<lparr>ep_inbox := rest\<rparr>) c)
      | [] \<Rightarrow> if ep_open (endpoint c (peer e)) then (Inl IE_ShouldWait, c) else (Inl IE_PeerClosed, c))"

definition pair_call ::
  "channel_pair \<Rightarrow> channel_end \<Rightarrow> kernel_message \<Rightarrow> (kernel_message \<Rightarrow> ipc_error + kernel_message)
     \<Rightarrow> (ipc_error + kernel_message) \<times> channel_pair" where
  "pair_call c from request server =
     (case pair_write c from request of
        (Inl e, c1) \<Rightarrow> (Inl e, c1)
      | (Inr _, c1) \<Rightarrow>
          (case pair_read c1 (peer from) of
             (Inl e, c2) \<Rightarrow> (Inl e, c2)
           | (Inr request', c2) \<Rightarrow>
               (case server request' of
                  Inl e \<Rightarrow> (Inl e, c2)
                | Inr reply \<Rightarrow>
                    (case pair_write c2 (peer from) (reply\<lparr>km_header := is_reply (km_header reply)\<rparr>) of
                       (Inl e, c3) \<Rightarrow> (Inl e, c3)
                     | (Inr _, c3) \<Rightarrow> pair_read c3 from))))"

definition pair_close :: "channel_pair \<Rightarrow> channel_end \<Rightarrow> channel_pair" where
  "pair_close c e = update_endpoint e (\<lambda>s. s\<lparr>ep_open := False\<rparr>) c"

section \<open>Lemmas\<close>

lemma peer_peer [simp]: "peer (peer e) = e"
  by (cases e) auto

lemma peer_neq [simp]: "peer e \<noteq> e" "e \<noteq> peer e"
  by (cases e; simp)+

lemma end_cases: "x = e \<or> x = peer e"
  by (cases x; cases e) auto

lemma endpoint_update [simp]:
  "endpoint (update_endpoint e f c) x = (if x = e then f (endpoint c e) else endpoint c x)"
  by (cases e; cases x) auto

lemma pair_eqI: "(\<And>e. endpoint c e = endpoint d e) \<Longrightarrow> c = (d :: channel_pair)"
proof (cases c; cases d)
  fix a b x y
  assume "\<And>e. endpoint c e = endpoint d e" and "c = \<lparr>cp_left = a, cp_right = b\<rparr>" "d = \<lparr>cp_left = x, cp_right = y\<rparr>"
  then have "endpoint \<lparr>cp_left = a, cp_right = b\<rparr> e = endpoint \<lparr>cp_left = x, cp_right = y\<rparr> e" for e by simp
  from this [of Left] this [of Right] show "c = d"
    using \<open>c = \<lparr>cp_left = a, cp_right = b\<rparr>\<close> \<open>d = \<lparr>cp_left = x, cp_right = y\<rparr>\<close> by simp
qed

lemma endpoint_new_pair [simp]:
  "ep_inbox (endpoint (fst (channel_pair_new objects)) e) = []"
  "ep_open (endpoint (fst (channel_pair_new objects)) e)"
  by (cases e; simp add: channel_pair_new_def endpoint_new_def split: prod.splits)+

lemma pair_write_error: "pair_write c from m = (Inl e, c') \<Longrightarrow> c' = c \<and> e = IE_PeerClosed"
  by (auto simp: pair_write_def split: if_splits)

lemma pair_read_error:
  "pair_read c e = (Inl x, c') \<Longrightarrow> c' = c \<and> ep_inbox (endpoint c e) = []
     \<and> x = (if ep_open (endpoint c (peer e)) then IE_ShouldWait else IE_PeerClosed)"
  by (auto simp: pair_read_def split: if_splits list.splits)

lemma pair_read_ok:
  "pair_read c e = (Inr m, c') \<Longrightarrow>
     ep_inbox (endpoint c e) = m # ep_inbox (endpoint c' e)
     \<and> c' = update_endpoint e (\<lambda>s. s\<lparr>ep_inbox := ep_inbox (endpoint c' e)\<rparr>) c"
  by (auto simp: pair_read_def split: if_splits list.splits)

section \<open>A direction of a channel is a mailbox\<close>

text \<open>
  The contract between a sender and a receiver: an accepted message goes to the back, a read
  takes the front, a refused operation changes nothing and a read is refused only when there is
  nothing to read. \<open>other\<close> is whatever else may happen to the object in between.
\<close>

datatype ('m, 'o) mail_op = Mail_push 'm | Mail_pop | Mail_other 'o

text \<open>
  A run of operations: the messages accepted and the messages delivered, in order, and the
  final state.
\<close>

fun mail_run ::
  "('s \<Rightarrow> 'm \<Rightarrow> ('e + unit) \<times> 's) \<Rightarrow> ('s \<Rightarrow> ('e + 'm) \<times> 's) \<Rightarrow> ('o \<Rightarrow> 's \<Rightarrow> 's)
     \<Rightarrow> 's \<Rightarrow> ('m, 'o) mail_op list \<Rightarrow> 'm list \<times> 'm list \<times> 's" where
  "mail_run push pop other s [] = ([], [], s)"
| "mail_run push pop other s (Mail_push m # ops) =
     (case push s m of (r, s') \<Rightarrow>
      case mail_run push pop other s' ops of (sent, got, z) \<Rightarrow>
        ((case r of Inr _ \<Rightarrow> m # sent | Inl _ \<Rightarrow> sent), got, z))"
| "mail_run push pop other s (Mail_pop # ops) =
     (case pop s of (r, s') \<Rightarrow>
      case mail_run push pop other s' ops of (sent, got, z) \<Rightarrow>
        (sent, (case r of Inr m \<Rightarrow> m # got | Inl _ \<Rightarrow> got), z))"
| "mail_run push pop other s (Mail_other x # ops) = mail_run push pop other (other x s) ops"

locale mailbox =
  fixes push :: "'s \<Rightarrow> 'm \<Rightarrow> ('e + unit) \<times> 's"
    and pop :: "'s \<Rightarrow> ('e + 'm) \<times> 's"
    and other :: "'o \<Rightarrow> 's \<Rightarrow> 's"
    and content :: "'s \<Rightarrow> 'm list"
  assumes push_ok: "push s m = (Inr u, s') \<Longrightarrow> content s' = content s @ [m]"
    and push_error: "push s m = (Inl e, s') \<Longrightarrow> content s' = content s"
    and pop_ok: "pop s = (Inr m, s') \<Longrightarrow> content s = m # content s'"
    and pop_error: "pop s = (Inl e, s') \<Longrightarrow> content s' = content s \<and> content s = []"
    and other_frame: "content (other x s) = content s"
begin

lemma mail_run_fifo:
  "mail_run push pop other s ops = (sent, got, z) \<Longrightarrow> content s @ sent = got @ content z"
proof (induction ops arbitrary: s sent got z)
  case (Cons x ops)
  show ?case
  proof (cases x)
    case (Mail_push m)
    obtain r s' where p: "push s m = (r, s')" by (cases "push s m")
    obtain sent' got' z' where q: "mail_run push pop other s' ops = (sent', got', z')"
      by (cases "mail_run push pop other s' ops") auto
    from Cons.IH [OF q] Cons.prems p q push_ok push_error show ?thesis
      by (cases r) (fastforce simp: Mail_push)+
  next
    case Mail_pop
    obtain r s' where p: "pop s = (r, s')" by (cases "pop s")
    obtain sent' got' z' where q: "mail_run push pop other s' ops = (sent', got', z')"
      by (cases "mail_run push pop other s' ops") auto
    from Cons.IH [OF q] Cons.prems p q pop_ok pop_error show ?thesis
      by (cases r) (fastforce simp: Mail_pop)+
  next
    case (Mail_other y)
    with Cons.IH [of "other y s"] Cons.prems show ?thesis by (simp add: other_frame)
  qed
qed simp

end

text \<open>
  For one direction of a pair the other operations are the traffic in the opposite direction
  and the closing of either end.
\<close>

datatype pair_other = Back_write kernel_message | Back_read | Close_end channel_end

fun pair_other_do :: "channel_end \<Rightarrow> pair_other \<Rightarrow> channel_pair \<Rightarrow> channel_pair" where
  "pair_other_do from (Back_write m) c = snd (pair_write c (peer from) m)"
| "pair_other_do from Back_read c = snd (pair_read c from)"
| "pair_other_do from (Close_end e) c = pair_close c e"

abbreviation direction_run ::
  "channel_end \<Rightarrow> channel_pair \<Rightarrow> (kernel_message, pair_other) mail_op list
     \<Rightarrow> kernel_message list \<times> kernel_message list \<times> channel_pair" where
  "direction_run from \<equiv>
     mail_run (\<lambda>c. pair_write c from) (\<lambda>c. pair_read c (peer from)) (pair_other_do from)"

interpretation direction: mailbox "\<lambda>c. pair_write c src" "\<lambda>c. pair_read c (peer src)"
  "pair_other_do src" "\<lambda>c. ep_inbox (endpoint c (peer src))" for src
proof unfold_locales
  fix x c
  show "ep_inbox (endpoint (pair_other_do src x c) (peer src)) = ep_inbox (endpoint c (peer src))"
    by (cases x) (auto simp: pair_write_def pair_read_def pair_close_def split: list.splits)
qed (auto simp: pair_write_def pair_read_def split: if_splits list.splits)

section \<open>Properties\<close>

text \<open>
  C16: a channel is a reliable first-in first-out queue in each direction. On a fresh channel,
  and for any interleaving of writes and reads in one direction with writes and reads in the
  other and with closing either end, the messages delivered to the receiving end are exactly
  the accepted ones, unaltered and in the order they were accepted, except those still waiting
  in its inbox; and what was sent before an end closed can still be read after it closed, after
  which a read reports the closed peer.
\<close>

theorem channel_fifo:
  assumes "direction_run from (fst (channel_pair_new objects)) ops = (sent, got, c)"
  shows "sent = got @ ep_inbox (endpoint c (peer from))
    \<and> fst (pair_read c (peer from)) =
        (case ep_inbox (endpoint c (peer from)) of
           m # _ \<Rightarrow> Inr m
         | [] \<Rightarrow> Inl (if ep_open (endpoint c from) then IE_ShouldWait else IE_PeerClosed))"
  using direction.mail_run_fifo [OF assms] by (auto simp: pair_read_def split: list.splits)

definition sample_message :: kernel_message where
  "sample_message = \<lparr>km_header = message_header_new 1 1 0, km_bytes = [7], km_handles = [], km_transfers = []\<rparr>"

theorem channel_fifo_witness:
  "\<exists>c. direction_run Left (fst (channel_pair_new object_manager_new))
       [Mail_push sample_message, Mail_other (Close_end Left), Mail_pop, Mail_other Back_read]
     = ([sample_message], [sample_message], c)
   \<and> fst (pair_read c Right) = Inl IE_PeerClosed"
proof -
  let ?ops = "[Mail_push sample_message, Mail_other (Close_end Left), Mail_pop, Mail_other Back_read]"
  obtain c where c: "direction_run Left (fst (channel_pair_new object_manager_new)) ?ops
      = ([sample_message], [sample_message], c)"
    and "\<not> ep_open (endpoint c Left)"
    by (simp add: channel_pair_new_def pair_write_def pair_read_def pair_close_def create_def
        endpoint_new_def)
  with channel_fifo [OF c] show ?thesis by auto
qed

text \<open>
  A synchronous call on an idle channel is one round trip. With both ends open and both
  inboxes empty, the server sees exactly the request, and the caller receives exactly the
  server's reply, marked as a reply, leaving both inboxes empty; a server error is returned to
  the caller with both inboxes empty as well.
\<close>

lemma pair_call_round_trip:
  assumes "ep_open (endpoint c from)" and "ep_open (endpoint c (peer from))"
    and "ep_inbox (endpoint c from) = []" and "ep_inbox (endpoint c (peer from)) = []"
  shows "pair_call c from request server =
    ((case server request of
        Inl e \<Rightarrow> Inl e
      | Inr reply \<Rightarrow> Inr (reply\<lparr>km_header := is_reply (km_header reply)\<rparr>)), c)"
proof -
  have clear: "update_endpoint e (\<lambda>s. s\<lparr>ep_inbox := []\<rparr>) (update_endpoint e (\<lambda>s. s\<lparr>ep_inbox := ep_inbox s @ [m]\<rparr>) c) = c"
    if "ep_inbox (endpoint c e) = []" for e m
    using that by (intro pair_eqI) simp
  from assms clear [OF assms(3)] clear [OF assms(4)] show ?thesis
    by (simp add: pair_call_def pair_write_def pair_read_def split: sum.splits)
qed

end
