(* ===== verification/Ipc_Registry.thy ===== *)
theory Ipc_Registry
  imports Ipc_Channel
begin

text \<open>
  The registry of channels and ports (\<open>IpcRegistry\<close> of \<open>kernel/src/ipc.rs\<close>): creation,
  message transfer between a process and a channel, ports, closing and reclamation.

  The operations take the calling process's handle table, the only part of the process they
  touch. A \<open>&mut ChannelPair\<close> found by id is the index of the pair. \<open>held\<close> says of a
  reference lineage whether some handle table or staged grant still owns it; together with the
  queued transfers, which the registry holds itself, it decides \<open>HandleReferences::is_referenced\<close>.
  \<open>room\<close> is whether the heap grants the receiver's list of new handles.
\<close>

section \<open>Ports\<close>

record port_packet =
  pk_source :: ko_id
  pk_signals :: signals

record port =
  po_object :: kernel_object
  po_packets :: "port_packet list"
  po_references :: "lineage option"

definition port_new :: "object_manager \<Rightarrow> port \<times> object_manager" where
  "port_new objects =
     (case create objects Port of (ob, objects') \<Rightarrow>
        (\<lparr>po_object = ob, po_packets = [], po_references = None\<rparr>, objects'))"

fun coalesce :: "ko_id \<Rightarrow> signals \<Rightarrow> port_packet list \<Rightarrow> port_packet list" where
  "coalesce source s [] = [\<lparr>pk_source = source, pk_signals = s\<rparr>]"
| "coalesce source s (p # ps) =
     (if pk_source p = source then p\<lparr>pk_signals := or (pk_signals p) s\<rparr> # ps
      else p # coalesce source s ps)"

definition queue_signal :: "port \<Rightarrow> ko_id \<Rightarrow> signals \<Rightarrow> port" where
  "queue_signal p source s = p\<lparr>po_packets := coalesce source s (po_packets p)\<rparr>"

definition port_take :: "port \<Rightarrow> (ipc_error + port_packet) \<times> port" where
  "port_take p =
     (case po_packets p of
        [] \<Rightarrow> (Inl IE_ShouldWait, p)
      | packet # rest \<Rightarrow> (Inr packet, p\<lparr>po_packets := rest\<rparr>))"

definition port_signals :: "port \<Rightarrow> signals" where
  "port_signals p = (if po_packets p = [] then 0 else SIGNAL_READABLE)"

section \<open>The registry\<close>

record ipc_registry =
  ir_channels :: "channel_pair list"
  ir_ports :: "port list"

definition ipc_registry_new :: ipc_registry where
  "ipc_registry_new = \<lparr>ir_channels = [], ir_ports = []\<rparr>"

record channel_endpoints =
  ce_pair :: nat
  ce_end :: channel_end
  ce_end_koid :: ko_id
  ce_peer :: channel_end
  ce_peer_koid :: ko_id
  ce_peer_kernel_retained :: bool

text \<open>The loops over the channels that return at the first hit.\<close>

fun scan_channels :: "(channel_pair \<Rightarrow> 'a option) \<Rightarrow> channel_pair list \<Rightarrow> ipc_error + 'a" where
  "scan_channels f [] = Inl IE_NotChannel"
| "scan_channels f (c # cs) = (case f c of Some x \<Rightarrow> Inr x | None \<Rightarrow> scan_channels f cs)"

definition channel_end_for :: "ipc_registry \<Rightarrow> ko_id \<Rightarrow> ipc_error + channel_end" where
  "channel_end_for reg koid =
     scan_channels (\<lambda>c. if pair_koid c Left = koid then Some Left
                        else if pair_koid c Right = koid then Some Right else None)
       (ir_channels reg)"

definition peer_koid_for :: "ipc_registry \<Rightarrow> ko_id \<Rightarrow> ipc_error + ko_id" where
  "peer_koid_for reg koid =
     scan_channels (\<lambda>c. if pair_koid c Left = koid then Some (pair_koid c Right)
                        else if pair_koid c Right = koid then Some (pair_koid c Left) else None)
       (ir_channels reg)"

definition channel_signals_by_koid :: "ipc_registry \<Rightarrow> ko_id \<Rightarrow> ipc_error + signals" where
  "channel_signals_by_koid reg koid =
     scan_channels (\<lambda>c. if pair_koid c Left = koid then Some (pair_signals c Left)
                        else if pair_koid c Right = koid then Some (pair_signals c Right) else None)
       (ir_channels reg)"

definition channel_mut_by_koid :: "ipc_registry \<Rightarrow> ko_id \<Rightarrow> ipc_error + nat" where
  "channel_mut_by_koid reg koid =
     (case find_index (\<lambda>c. pair_koid c Left = koid \<or> pair_koid c Right = koid) (ir_channels reg) of
        Some i \<Rightarrow> Inr i
      | None \<Rightarrow> Inl IE_NotChannel)"

fun endpoints_scan :: "ko_id \<Rightarrow> nat \<Rightarrow> channel_pair list \<Rightarrow> ipc_error + channel_endpoints" where
  "endpoints_scan koid pair [] = Inl IE_NotChannel"
| "endpoints_scan koid pair (c # cs) =
     (case find (\<lambda>e. pair_koid c e = koid) [Left, Right] of
        Some e \<Rightarrow>
          Inr \<lparr>ce_pair = pair, ce_end = e, ce_end_koid = koid, ce_peer = peer e,
               ce_peer_koid = pair_koid c (peer e),
               ce_peer_kernel_retained = (ep_references (endpoint c (peer e)) = None)\<rparr>
      | None \<Rightarrow> endpoints_scan koid (Suc pair) cs)"

definition endpoints_for :: "ipc_registry \<Rightarrow> ko_id \<Rightarrow> ipc_error + channel_endpoints" where
  "endpoints_for reg koid = endpoints_scan koid 0 (ir_channels reg)"

definition port_mut_by_koid :: "ipc_registry \<Rightarrow> ko_id \<Rightarrow> ipc_error + nat" where
  "port_mut_by_koid reg koid =
     (case find_index (\<lambda>p. ko_koid (po_object p) = koid) (ir_ports reg) of
        Some i \<Rightarrow> Inr i
      | None \<Rightarrow> Inl IE_BadHandle)"

definition set_channel :: "ipc_registry \<Rightarrow> nat \<Rightarrow> channel_pair \<Rightarrow> ipc_registry" where
  "set_channel reg i c = reg\<lparr>ir_channels := (ir_channels reg)[i := c]\<rparr>"

subsection \<open>Creation\<close>

definition CHANNEL_RIGHTS :: rights where
  "CHANNEL_RIGHTS = or (or (or (or RIGHT_READ RIGHT_WRITE) RIGHT_TRANSFER) RIGHT_DUPLICATE) RIGHT_WAIT"

text \<open>
  \<open>fresh\<close> and \<open>fresh'\<close> are the reference counts allocated for the endpoints; \<open>grow\<close> the
  answers to the table's requests for room.
\<close>

definition root_channel_create ::
  "(handle_table \<Rightarrow> bool) \<Rightarrow> lineage \<Rightarrow> ipc_registry \<Rightarrow> object_manager \<Rightarrow> handle_table
     \<Rightarrow> (ipc_error + handle \<times> u64 \<times> channel_end) \<times> ipc_registry \<times> object_manager \<times> handle_table" where
  "root_channel_create grow fresh reg objects t =
     (case channel_pair_new objects of (channel, objects') \<Rightarrow>
      case insert_channel grow fresh t (pair_object channel Right) CHANNEL_RIGHTS of
        (Inl e, t1) \<Rightarrow> (Inl (ipc_from_object e), reg, objects', t1)
      | (Inr (right, right_references), t1) \<Rightarrow>
          let channel' = set_references channel None (Some right_references)
          in (Inr (right, pair_koid channel' Left, Left),
              reg\<lparr>ir_channels := ir_channels reg @ [channel']\<rparr>, objects', t1))"

definition channel_create ::
  "(handle_table \<Rightarrow> bool) \<Rightarrow> lineage \<Rightarrow> lineage \<Rightarrow> ipc_registry \<Rightarrow> object_manager \<Rightarrow> handle_table
     \<Rightarrow> (ipc_error + handle \<times> handle) \<times> ipc_registry \<times> object_manager \<times> handle_table" where
  "channel_create grow fresh fresh' reg objects t =
     (case channel_pair_new objects of (channel, objects') \<Rightarrow>
      case insert_channel grow fresh t (pair_object channel Left) CHANNEL_RIGHTS of
        (Inl e, t1) \<Rightarrow> (Inl (ipc_from_object e), reg, objects', t1)
      | (Inr (left, left_references), t1) \<Rightarrow>
          (case insert_channel grow fresh' t1 (pair_object channel Right) CHANNEL_RIGHTS of
             (Inl e, t2) \<Rightarrow> (Inl (ipc_from_object e), reg, objects', t2)
           | (Inr (right, right_references), t2) \<Rightarrow>
               (Inr (left, right),
                reg\<lparr>ir_channels := ir_channels reg @
                      [set_references channel (Some left_references) (Some right_references)]\<rparr>,
                objects', t2)))"

definition port_create ::
  "(handle_table \<Rightarrow> bool) \<Rightarrow> lineage \<Rightarrow> ipc_registry \<Rightarrow> object_manager \<Rightarrow> handle_table
     \<Rightarrow> (ipc_error + handle) \<times> ipc_registry \<times> object_manager \<times> handle_table" where
  "port_create grow fresh reg objects t =
     (case port_new objects of (port, objects') \<Rightarrow>
      case insert_referenced grow fresh t (po_object port) (or (or RIGHT_WAIT RIGHT_TRANSFER) RIGHT_DUPLICATE) of
        (Inl e, t1) \<Rightarrow> (Inl (ipc_from_object e), reg, objects', t1)
      | (Inr (h, references), t1) \<Rightarrow>
          (Inr h, reg\<lparr>ir_ports := ir_ports reg @ [port\<lparr>po_references := Some references\<rparr>]\<rparr>, objects', t1))"

subsection \<open>Port operations\<close>

definition port_wait :: "ipc_registry \<Rightarrow> handle_table \<Rightarrow> handle \<Rightarrow> (ipc_error + port_packet) \<times> ipc_registry" where
  "port_wait reg t port =
     (case require t port Port RIGHT_WAIT of
        Inl e \<Rightarrow> (Inl (ipc_from_object e), reg)
      | Inr entry \<Rightarrow>
          (case port_mut_by_koid reg (he_koid entry) of
             Inl e \<Rightarrow> (Inl e, reg)
           | Inr i \<Rightarrow>
               (case port_take (ir_ports reg ! i) of (r, p) \<Rightarrow>
                  (r, reg\<lparr>ir_ports := (ir_ports reg)[i := p]\<rparr>))))"

definition port_queue_signal ::
  "ipc_registry \<Rightarrow> handle_table \<Rightarrow> handle \<Rightarrow> ko_id \<Rightarrow> signals \<Rightarrow> (ipc_error + unit) \<times> ipc_registry" where
  "port_queue_signal reg t port source s =
     (case require t port Port RIGHT_WAIT of
        Inl e \<Rightarrow> (Inl (ipc_from_object e), reg)
      | Inr entry \<Rightarrow>
          (case port_mut_by_koid reg (he_koid entry) of
             Inl e \<Rightarrow> (Inl e, reg)
           | Inr i \<Rightarrow>
               (Inr (), reg\<lparr>ir_ports := (ir_ports reg)[i := queue_signal (ir_ports reg ! i) source s]\<rparr>)))"

definition port_queue_signal_by_koid :: "ipc_registry \<Rightarrow> ko_id \<Rightarrow> ko_id \<Rightarrow> signals \<Rightarrow> ipc_registry" where
  "port_queue_signal_by_koid reg port_koid source s =
     (case port_mut_by_koid reg port_koid of
        Inl _ \<Rightarrow> reg
      | Inr i \<Rightarrow> reg\<lparr>ir_ports := (ir_ports reg)[i := queue_signal (ir_ports reg ! i) source s]\<rparr>)"

subsection \<open>Message transfer\<close>

fun collect_transfers :: "handle_table \<Rightarrow> handle list \<Rightarrow> handle list \<Rightarrow> ipc_error + owned_handle_entry list" where
  "collect_transfers t seen [] = Inr []"
| "collect_transfers t seen (h # hs) =
     (if h \<in> set seen then Inl IE_BadHandle
      else case get t h of
             Inl e \<Rightarrow> Inl (ipc_from_object e)
           | Inr entry \<Rightarrow>
               if \<not> rights_contains (he_rights entry) RIGHT_TRANSFER then Inl IE_AccessDenied
               else case clone_entry t h of
                      Inl e \<Rightarrow> Inl (ipc_from_object e)
                    | Inr owner \<Rightarrow>
                        (case collect_transfers t (seen @ [h]) hs of
                           Inl e \<Rightarrow> Inl e
                         | Inr rest \<Rightarrow> Inr (owner # rest)))"

definition channel_write ::
  "ipc_registry \<Rightarrow> handle_table \<Rightarrow> handle \<Rightarrow> message
     \<Rightarrow> (ipc_error + unit) \<times> ipc_registry \<times> handle_table" where
  "channel_write reg t channel msg =
     (case require t channel Channel RIGHT_WRITE of
        Inl e \<Rightarrow> (Inl (ipc_from_object e), reg, t)
      | Inr entry \<Rightarrow>
          (case channel_end_for reg (he_koid entry) of
             Inl e \<Rightarrow> (Inl e, reg, t)
           | Inr end' \<Rightarrow>
               (case collect_transfers t [] (ms_handles msg) of
                  Inl e \<Rightarrow> (Inl e, reg, t)
                | Inr transfers \<Rightarrow>
                    (case from_borrowed msg of
                       Inl e \<Rightarrow> (Inl e, reg, t)
                     | Inr m \<Rightarrow>
                         (case channel_mut_by_koid reg (he_koid entry) of
                            Inl e \<Rightarrow> (Inl e, reg, t)
                          | Inr i \<Rightarrow>
                              (case pair_write (ir_channels reg ! i) end' (attach_transfers m transfers) of
                                 (Inl e, c) \<Rightarrow> (Inl e, set_channel reg i c, t)
                               | (Inr _, c) \<Rightarrow>
                                   (case drop_each close t (ms_handles msg) of
                                      (Inl e, t') \<Rightarrow> (Inl (ipc_from_object e), set_channel reg i c, t')
                                    | (Inr _, t') \<Rightarrow> (Inr (), set_channel reg i c, t'))))))))"

definition install_transfers ::
  "(handle_table \<Rightarrow> bool) \<Rightarrow> bool \<Rightarrow> kernel_message \<Rightarrow> handle_table
     \<Rightarrow> (ipc_error + unit) \<times> kernel_message \<times> handle_table" where
  "install_transfers grow room m t =
     (if \<not> room then (Inl IE_TableFull, m, t)
      else case put_each (insert_entry grow) t (km_transfers m) [] of
             (Inl (error, installed), t1) \<Rightarrow>
               (case drop_each close t1 installed of
                  (Inl e, t2) \<Rightarrow> (Inl (ipc_from_object e), m, t2)
                | (Inr _, t2) \<Rightarrow> (Inl (ipc_from_object error), m, t2))
           | (Inr installed, t1) \<Rightarrow>
               (Inr (),
                m\<lparr>km_handles := installed,
                  km_header := (km_header m)\<lparr>mh_handles_len := of_nat (length installed)\<rparr>,
                  km_transfers := []\<rparr>, t1))"

definition channel_read ::
  "(handle_table \<Rightarrow> bool) \<Rightarrow> bool \<Rightarrow> ipc_registry \<Rightarrow> handle_table \<Rightarrow> handle
     \<Rightarrow> (ipc_error + kernel_message) \<times> ipc_registry \<times> handle_table" where
  "channel_read grow room reg t channel =
     (case require t channel Channel RIGHT_READ of
        Inl e \<Rightarrow> (Inl (ipc_from_object e), reg, t)
      | Inr entry \<Rightarrow>
          (case channel_end_for reg (he_koid entry) of
             Inl e \<Rightarrow> (Inl e, reg, t)
           | Inr end' \<Rightarrow>
               (case channel_mut_by_koid reg (he_koid entry) of
                  Inl e \<Rightarrow> (Inl e, reg, t)
                | Inr i \<Rightarrow>
                    let c = ir_channels reg ! i in
                    case ep_inbox (endpoint c end') of
                      [] \<Rightarrow>
                        (case pair_read c end' of (r, c') \<Rightarrow> (r, set_channel reg i c', t))
                    | m # rest \<Rightarrow>
                        (case install_transfers grow room m t of
                           (Inl e, m', t') \<Rightarrow>
                             (Inl e, set_channel reg i
                                (update_endpoint end' (\<lambda>s. s\<lparr>ep_inbox := m' # rest\<rparr>) c), t')
                         | (Inr _, m', t') \<Rightarrow>
                             (case pair_read (update_endpoint end' (\<lambda>s. s\<lparr>ep_inbox := m' # rest\<rparr>) c) end' of
                                (r, c') \<Rightarrow> (r, set_channel reg i c', t'))))))"

definition channel_call ::
  "ipc_registry \<Rightarrow> handle_table \<Rightarrow> handle \<Rightarrow> message \<Rightarrow> (kernel_message \<Rightarrow> ipc_error + kernel_message)
     \<Rightarrow> (ipc_error + kernel_message) \<times> ipc_registry" where
  "channel_call reg t channel request server =
     (case require t channel Channel (or RIGHT_READ RIGHT_WRITE) of
        Inl e \<Rightarrow> (Inl (ipc_from_object e), reg)
      | Inr entry \<Rightarrow>
          (case channel_end_for reg (he_koid entry) of
             Inl e \<Rightarrow> (Inl e, reg)
           | Inr end' \<Rightarrow>
               (case from_borrowed request of
                  Inl e \<Rightarrow> (Inl e, reg)
                | Inr m \<Rightarrow>
                    (case channel_mut_by_koid reg (he_koid entry) of
                       Inl e \<Rightarrow> (Inl e, reg)
                     | Inr i \<Rightarrow>
                         (case pair_call (ir_channels reg ! i) end' m server of
                            (r, c) \<Rightarrow> (r, set_channel reg i c))))))"

definition koid_queued :: "ipc_registry \<Rightarrow> ko_id \<Rightarrow> bool" where
  "koid_queued reg koid =
     list_ex (\<lambda>c. list_ex (\<lambda>e. list_ex (\<lambda>m. list_ex (\<lambda>entry. he_koid (oh_entry entry) = koid)
                                           (km_transfers m)) (ep_inbox e)) [cp_left c, cp_right c])
       (ir_channels reg)"

definition install_call ::
  "ipc_registry \<Rightarrow> ko_id \<Rightarrow> kernel_message \<Rightarrow> (ipc_error + channel_endpoints) \<times> ipc_registry" where
  "install_call reg caller_end_koid m =
     (case endpoints_for reg caller_end_koid of
        Inl e \<Rightarrow> (Inl e, reg)
      | Inr endpoints \<Rightarrow>
          (case channel_mut_by_koid reg caller_end_koid of
             Inl e \<Rightarrow> (Inl e, reg)
           | Inr i \<Rightarrow>
               (case pair_write (ir_channels reg ! i) (ce_end endpoints) m of
                  (Inl e, c) \<Rightarrow> (Inl e, set_channel reg i c)
                | (Inr _, c) \<Rightarrow> (Inr endpoints, set_channel reg i c))))"

text \<open>\<open>Iterator::rposition\<close>.\<close>

definition find_rindex :: "('a \<Rightarrow> bool) \<Rightarrow> 'a list \<Rightarrow> nat option" where
  "find_rindex P xs = find (\<lambda>i. P (xs ! i)) (rev [0..<length xs])"

definition remove_message_with_bytes :: "ipc_registry \<Rightarrow> ko_id \<Rightarrow> u8 list \<Rightarrow> bool \<times> ipc_registry" where
  "remove_message_with_bytes reg end_koid bytes =
     (case channel_end_for reg end_koid of
        Inl _ \<Rightarrow> (False, reg)
      | Inr end' \<Rightarrow>
          (case channel_mut_by_koid reg end_koid of
             Inl _ \<Rightarrow> (False, reg)
           | Inr i \<Rightarrow>
               let inbox = ep_inbox (endpoint (ir_channels reg ! i) end') in
               case find_rindex (\<lambda>m. mh_ordinal (km_header m) = 1 \<and> mh_flags (km_header m) = 0
                                     \<and> km_bytes m = bytes) inbox of
                 Some k \<Rightarrow>
                   (True, set_channel reg i (update_endpoint end'
                            (\<lambda>s. s\<lparr>ep_inbox := remove_nth k inbox\<rparr>) (ir_channels reg ! i)))
               | None \<Rightarrow> (False, reg)))"

end
