(* ===== verification/Ipc_Transfer.thy ===== *)
theory Ipc_Transfer
  imports Ipc_Registry
begin

text \<open>
  Capability transfer through channels: sending and receiving are atomic and neither loses nor
  invents a capability. The lemmas rest on the capability-table contract (the fact prefix
  \<open>cap_tab\<close>), which the handle table fulfils.
\<close>

section \<open>Finding a channel\<close>

lemma channel_end_for_index:
  "channel_end_for reg koid =
     (case channel_mut_by_koid reg koid of
        Inl e \<Rightarrow> Inl e
      | Inr i \<Rightarrow> Inr (if pair_koid (ir_channels reg ! i) Left = koid then Left else Right))"
proof -
  have "scan_channels (\<lambda>c. if pair_koid c Left = koid then Some Left
          else if pair_koid c Right = koid then Some Right else None) cs =
     (case find_index (\<lambda>c. pair_koid c Left = koid \<or> pair_koid c Right = koid) cs of
        None \<Rightarrow> Inl IE_NotChannel
      | Some i \<Rightarrow> Inr (if pair_koid (cs ! i) Left = koid then Left else Right))" for cs
    by (induction cs) (auto split: option.splits)
  then show ?thesis
    unfolding channel_end_for_def channel_mut_by_koid_def by (simp split: option.splits)
qed

lemma channel_mut_by_koid_bound: "channel_mut_by_koid reg koid = Inr i \<Longrightarrow> i < length (ir_channels reg)"
  by (auto simp: channel_mut_by_koid_def find_index_Some_iff split: option.splits)

lemma channel_end_for_cases:
  obtains (missing) e where "channel_end_for reg koid = Inl e"
  | (found) i e where "channel_end_for reg koid = Inr e" and "channel_mut_by_koid reg koid = Inr i"
      and "i < length (ir_channels reg)" and "pair_koid (ir_channels reg ! i) e = koid"
proof (cases "channel_mut_by_koid reg koid")
  case (Inl e)
  then show ?thesis using missing [of e] by (simp add: channel_end_for_index)
next
  case (Inr i)
  then have "pair_koid (ir_channels reg ! i) Left = koid \<or> pair_koid (ir_channels reg ! i) Right = koid"
    by (auto simp: channel_mut_by_koid_def find_index_Some_iff split: option.splits)
  with Inr show ?thesis
    using found [of "if pair_koid (ir_channels reg ! i) Left = koid then Left else Right" i]
      channel_mut_by_koid_bound [OF Inr] by (auto simp: channel_end_for_index)
qed

lemma set_channel_same [simp]: "set_channel reg i (ir_channels reg ! i) = reg"
  by (simp add: set_channel_def)

section \<open>What the registry holds\<close>

definition endpoint_entries :: "endpoint_state \<Rightarrow> owned_handle_entry list" where
  "endpoint_entries s = concat (map km_transfers (ep_inbox s))"

definition pair_entries :: "channel_pair \<Rightarrow> owned_handle_entry list" where
  "pair_entries c = endpoint_entries (cp_left c) @ endpoint_entries (cp_right c)"

definition registry_entries :: "ipc_registry \<Rightarrow> owned_handle_entry list" where
  "registry_entries reg = concat (map pair_entries (ir_channels reg))"

definition queued_caps :: "ipc_registry \<Rightarrow> capability multiset" where
  "queued_caps reg = mset (map capability_of (registry_entries reg))"

lemma mset_registry_entries_set_channel:
  assumes "i < length (ir_channels reg)"
  shows "mset (registry_entries (set_channel reg i c)) + mset (pair_entries (ir_channels reg ! i)) =
    mset (registry_entries reg) + mset (pair_entries c)"
proof -
  have "ir_channels reg = take i (ir_channels reg) @ ir_channels reg ! i # drop (Suc i) (ir_channels reg)"
    using assms by (rule id_take_nth_drop)
  then have "registry_entries reg = concat (map pair_entries
      (take i (ir_channels reg) @ ir_channels reg ! i # drop (Suc i) (ir_channels reg)))"
    unfolding registry_entries_def by (rule arg_cong)
  then show ?thesis
    using assms by (simp add: registry_entries_def set_channel_def upd_conv_take_nth_drop)
qed

lemma mset_pair_entries_update:
  "mset (pair_entries (update_endpoint e f c)) + mset (endpoint_entries (endpoint c e)) =
     mset (pair_entries c) + mset (endpoint_entries (f (endpoint c e)))"
  by (cases e) (auto simp: pair_entries_def)

lemma queued_caps_update:
  assumes "i < length (ir_channels reg)"
    and "c = update_endpoint e f (ir_channels reg ! i)"
  shows "queued_caps (set_channel reg i c) + mset (map capability_of (endpoint_entries (endpoint (ir_channels reg ! i) e)))
    = queued_caps reg + mset (map capability_of (endpoint_entries (f (endpoint (ir_channels reg ! i) e))))"
proof -
  have "mset (registry_entries (set_channel reg i c)) + mset (endpoint_entries (endpoint (ir_channels reg ! i) e))
    = mset (registry_entries reg) + mset (endpoint_entries (f (endpoint (ir_channels reg ! i) e)))"
    using mset_registry_entries_set_channel [OF assms(1), of c]
      mset_pair_entries_update [of e f "ir_channels reg ! i"] assms(2)
    by (auto intro: mset_exchange)
  from arg_cong [OF this, of "image_mset capability_of"] show ?thesis
    by (simp add: queued_caps_def)
qed

section \<open>Sending\<close>

lemma collect_transfers_ok:
  assumes "table_wf t" and "collect_transfers t seen hs = Inr es"
  shows "distinct hs \<and> set hs \<inter> set seen = {} \<and> map (table_lookup t) hs = map Some es
    \<and> (\<forall>e \<in> set es. rights_contains (he_rights (oh_entry e)) RIGHT_TRANSFER)"
  using assms(2)
proof (induction hs arbitrary: seen es)
  case (Cons h hs)
  from Cons.prems obtain e rest where e: "h \<notin> set seen" "table_lookup t h = Some e"
    "rights_contains (he_rights (oh_entry e)) RIGHT_TRANSFER"
    and rest: "collect_transfers t (seen @ [h]) hs = Inr rest" "es = e # rest"
    by (auto simp: get_lookup [OF assms(1)] clone_entry_lookup [OF assms(1)]
        split: if_splits option.splits sum.splits)
  from Cons.IH [OF rest(1)] e rest(2) show ?case by auto
qed simp

lemma collected_caps:
  assumes "map (table_lookup t) hs = map Some es"
  shows "map (table_cap t) hs = map (Some \<circ> capability_of) es"
    and "map (\<lambda>h. the (table_cap t h)) hs = map capability_of es"
proof -
  have "map (map_option capability_of) (map (table_lookup t) hs) = map (map_option capability_of) (map Some es)"
    using assms by simp
  then show "map (table_cap t) hs = map (Some \<circ> capability_of) es"
    by (simp add: table_cap_def [abs_def] comp_def)
  then have "map the (map (table_cap t) hs) = map the (map (Some \<circ> capability_of) es)" by simp
  then show "map (\<lambda>h. the (table_cap t h)) hs = map capability_of es" by (simp add: comp_def)
qed

definition push_inbox :: "kernel_message \<Rightarrow> endpoint_state \<Rightarrow> endpoint_state" where
  "push_inbox m s = s\<lparr>ep_inbox := ep_inbox s @ [m]\<rparr>"

text \<open>A successful write, in full.\<close>

definition sent ::
  "ipc_registry \<Rightarrow> handle_table \<Rightarrow> handle \<Rightarrow> message \<Rightarrow> ipc_registry \<Rightarrow> handle_table \<Rightarrow> bool" where
  "sent reg t channel msg reg' t' \<longleftrightarrow>
     (\<exists>entry i e es.
        require t channel Channel RIGHT_WRITE = Inr entry
        \<and> i < length (ir_channels reg) \<and> pair_koid (ir_channels reg ! i) e = he_koid entry
        \<and> ep_open (endpoint (ir_channels reg ! i) (peer e))
        \<and> distinct (ms_handles msg) \<and> map (table_lookup t) (ms_handles msg) = map Some es
        \<and> (\<forall>x \<in> set es. rights_contains (he_rights (oh_entry x)) RIGHT_TRANSFER)
        \<and> reg' = set_channel reg i (update_endpoint (peer e)
            (push_inbox \<lparr>km_header = ms_header msg, km_bytes = ms_bytes msg,
               km_handles = ms_handles msg, km_transfers = es\<rparr>) (ir_channels reg ! i)))
     \<and> (\<forall>h. table_cap t' h = (if h \<in> set (ms_handles msg) then None else table_cap t h))
     \<and> table_wf t'
     \<and> table_caps t' + queued_caps reg' = table_caps t + queued_caps reg"

lemma queued_caps_push:
  assumes "i < length (ir_channels reg)"
  shows "queued_caps (set_channel reg i (update_endpoint e (push_inbox m) (ir_channels reg ! i))) =
    queued_caps reg + mset (map capability_of (km_transfers m))"
  using queued_caps_update [OF assms refl, of e "push_inbox m"]
  by (simp add: endpoint_entries_def push_inbox_def)

lemma drop_sent_handles:
  assumes "table_wf t" and "distinct hs" and "map (table_lookup t) hs = map Some es"
  obtains t' where "drop_each close t hs = (Inr (), t')" and "table_wf t'"
    and "table_cap t' = (\<lambda>k. if k \<in> set hs then None else table_cap t k)"
    and "table_caps t = mset (map capability_of es) + table_caps t'"
proof -
  have "table_cap t h \<noteq> None" if "h \<in> set hs" for h
  proof -
    from that have "table_lookup t h \<in> set (map (table_lookup t) hs)" by simp
    then show ?thesis unfolding assms(3) by auto
  qed
  from cap_tab.drop_each_live [OF assms(1,2) this] collected_caps(2) [OF assms(3)] that
  show ?thesis by auto
qed

lemma channel_write_ok:
  assumes wf: "table_wf t" and "channel_write reg t channel msg = (Inr u, reg', t')"
  shows "sent reg t channel msg reg' t'"
proof -
  from assms(2) obtain entry e es m where entry: "require t channel Channel RIGHT_WRITE = Inr entry"
    and e: "channel_end_for reg (he_koid entry) = Inr e"
    and es: "collect_transfers t [] (ms_handles msg) = Inr es" and m: "from_borrowed msg = Inr m"
    by (auto simp: channel_write_def split: sum.splits prod.splits)
  obtain i where i: "channel_mut_by_koid reg (he_koid entry) = Inr i" "i < length (ir_channels reg)"
    "pair_koid (ir_channels reg ! i) e = he_koid entry"
    by (rule channel_end_for_cases [of reg "he_koid entry"]) (use e in auto)
  note ok = collect_transfers_ok [OF wf es]
  from ok drop_sent_handles [OF wf, of "ms_handles msg" es] obtain t1 where
    t1: "drop_each close t (ms_handles msg) = (Inr (), t1)" "table_wf t1"
    "table_cap t1 = (\<lambda>k. if k \<in> set (ms_handles msg) then None else table_cap t k)"
    "table_caps t = mset (map capability_of es) + table_caps t1" by blast
  have m': "attach_transfers m es = \<lparr>km_header = ms_header msg, km_bytes = ms_bytes msg,
      km_handles = ms_handles msg, km_transfers = es\<rparr>"
    using m by (auto simp: from_borrowed_def attach_transfers_def split: if_splits)
  have op: "ep_open (endpoint (ir_channels reg ! i) (peer e))"
    and res: "reg' = set_channel reg i (update_endpoint (peer e) (push_inbox (attach_transfers m es))
        (ir_channels reg ! i))" "t' = t1"
    using assms(2) by (auto simp: channel_write_def entry e es m i(1) t1(1) pair_write_def
        push_inbox_def [abs_def] split: if_splits)
  have "table_caps t' + queued_caps reg' = table_caps t + queued_caps reg"
    unfolding res t1(4) queued_caps_push [OF i(2)] by (simp add: m')
  with entry i ok op t1 res show ?thesis
    unfolding sent_def m' by (intro conjI exI [of _ entry] exI [of _ i] exI [of _ e] exI [of _ es]) auto
qed

lemma channel_write_error:
  assumes wf: "table_wf t" and "channel_write reg t channel msg = (Inl x, reg', t')"
  shows "reg' = reg \<and> t' = t"
proof (cases "collect_transfers t [] (ms_handles msg)")
  case (Inl e)
  with assms(2) show ?thesis by (auto simp: channel_write_def split: sum.splits)
next
  case (Inr es)
  from collect_transfers_ok [OF wf Inr] drop_sent_handles [OF wf, of "ms_handles msg" es]
  obtain t1 where "drop_each close t (ms_handles msg) = (Inr (), t1)" by blast
  with assms(2) Inr show ?thesis
    by (auto simp: channel_write_def pair_write_def split: sum.splits prod.splits if_splits)
qed

section \<open>Receiving\<close>

text \<open>
  A successful read takes the front message of the end the handle names; its transfers become
  live handles of the receiver, named in the message in the same order, and none of them was
  ever issued by that table before.
\<close>

definition received ::
  "ipc_registry \<Rightarrow> handle_table \<Rightarrow> handle \<Rightarrow> kernel_message \<Rightarrow> ipc_registry \<Rightarrow> handle_table \<Rightarrow> bool" where
  "received reg t channel m reg' t' \<longleftrightarrow>
     (\<exists>entry i e q rest.
        require t channel Channel RIGHT_READ = Inr entry
        \<and> i < length (ir_channels reg) \<and> pair_koid (ir_channels reg ! i) e = he_koid entry
        \<and> ep_inbox (endpoint (ir_channels reg ! i) e) = q # rest
        \<and> reg' = set_channel reg i (update_endpoint e (\<lambda>s. s\<lparr>ep_inbox := rest\<rparr>) (ir_channels reg ! i))
        \<and> km_bytes m = km_bytes q \<and> km_transfers m = []
        \<and> km_header m = (km_header q)\<lparr>mh_handles_len := of_nat (length (km_handles m))\<rparr>
        \<and> length (km_handles m) = length (km_transfers q)
        \<and> map (table_cap t') (km_handles m) = map (Some \<circ> capability_of) (km_transfers q))
     \<and> distinct (km_handles m) \<and> (\<forall>h \<in> set (km_handles m). \<not> table_issued t h)
     \<and> (\<forall>h. h \<notin> set (km_handles m) \<longrightarrow> table_cap t' h = table_cap t h)
     \<and> table_wf t'
     \<and> table_caps t' + queued_caps reg' = table_caps t + queued_caps reg"

lemma install_transfers_ok:
  assumes wf: "table_wf t" and "install_transfers grow room m t = (Inr u, m', t')"
  shows "m' = m\<lparr>km_handles := km_handles m',
      km_header := (km_header m)\<lparr>mh_handles_len := of_nat (length (km_handles m'))\<rparr>, km_transfers := []\<rparr>
    \<and> length (km_handles m') = length (km_transfers m) \<and> distinct (km_handles m')
    \<and> (\<forall>h \<in> set (km_handles m'). \<not> table_issued t h)
    \<and> table_cap t' = table_cap t ++ map_of (zip (km_handles m') (map capability_of (km_transfers m)))
    \<and> table_caps t' = table_caps t + mset (map capability_of (km_transfers m)) \<and> table_wf t'"
proof -
  from assms(2) obtain hs where put: "put_each (insert_entry grow) t (km_transfers m) [] = (Inr hs, t')"
    and m': "m' = m\<lparr>km_handles := hs,
      km_header := (km_header m)\<lparr>mh_handles_len := of_nat (length hs)\<rparr>, km_transfers := []\<rparr>"
    by (auto simp: install_transfers_def split: if_splits sum.splits prod.splits)
  from cap_tab.put_each_installed [OF wf put] m' show ?thesis by auto
qed

lemma install_transfers_error:
  assumes wf: "table_wf t" and "install_transfers grow room m t = (Inl x, m', t')"
  shows "m' = m \<and> table_wf t' \<and> table_cap t' = table_cap t \<and> table_caps t' = table_caps t"
proof (cases room)
  case True
  with assms(2) obtain y hs t1 where put: "put_each (insert_entry grow) t (km_transfers m) [] = (Inl (y, hs), t1)"
    by (auto simp: install_transfers_def split: if_splits sum.splits prod.splits)
  from cap_tab.put_each_rollback [OF wf put] assms(2) put True show ?thesis
    by (auto simp: install_transfers_def split: sum.splits prod.splits)
next
  case False
  with assms show ?thesis by (simp add: install_transfers_def)
qed

lemma map_of_zip_map:
  assumes "length ks = length vs" and "distinct ks"
  shows "map (m ++ map_of (zip ks vs)) ks = map Some vs"
proof (rule nth_equalityI)
  fix i assume "i < length (map (m ++ map_of (zip ks vs)) ks)"
  then have "i < length ks" by simp
  then show "map (m ++ map_of (zip ks vs)) ks ! i = map Some vs ! i"
    using assms by (simp add: map_add_def map_of_zip_nth)
qed (use assms in simp)

lemma queued_caps_pop:
  assumes "i < length (ir_channels reg)" and "ep_inbox (endpoint (ir_channels reg ! i) e) = q # rest"
  shows "queued_caps reg =
    queued_caps (set_channel reg i (update_endpoint e (\<lambda>s. s\<lparr>ep_inbox := rest\<rparr>) (ir_channels reg ! i)))
    + mset (map capability_of (km_transfers q))"
  using queued_caps_update [OF assms(1) refl, of e "\<lambda>s. s\<lparr>ep_inbox := rest\<rparr>"]
  by (simp add: endpoint_entries_def assms(2))

lemma channel_read_ok:
  assumes wf: "table_wf t" and "channel_read grow room reg t channel = (Inr m, reg', t')"
  shows "received reg t channel m reg' t'"
proof -
  from assms(2) obtain entry e where entry: "require t channel Channel RIGHT_READ = Inr entry"
    and e: "channel_end_for reg (he_koid entry) = Inr e"
    by (auto simp: channel_read_def split: sum.splits)
  obtain i where i: "channel_mut_by_koid reg (he_koid entry) = Inr i" "i < length (ir_channels reg)"
    "pair_koid (ir_channels reg ! i) e = he_koid entry"
    by (rule channel_end_for_cases [of reg "he_koid entry"]) (use e in auto)
  let ?c = "ir_channels reg ! i"
  note run = assms(2) [unfolded channel_read_def entry e i(1) sum.case Let_def]
  from run obtain q rest where q: "ep_inbox (endpoint ?c e) = q # rest"
    by (cases "ep_inbox (endpoint ?c e)") (auto simp: pair_read_def split: if_splits)
  obtain r m1 t1 where inst: "install_transfers grow room q t = (r, m1, t1)"
    by (cases "install_transfers grow room q t") auto
  with run q obtain u where r: "r = Inr u" by (cases r) auto
  have shape: "update_endpoint e (\<lambda>s. s\<lparr>ep_inbox := rest\<rparr>) (update_endpoint e (\<lambda>s. s\<lparr>ep_inbox := m1 # rest\<rparr>) ?c)
      = update_endpoint e (\<lambda>s. s\<lparr>ep_inbox := rest\<rparr>) ?c"
    by (intro pair_eqI) simp
  have res: "m1 = m" "t1 = t'" "reg' = set_channel reg i (update_endpoint e (\<lambda>s. s\<lparr>ep_inbox := rest\<rparr>) ?c)"
    using run q inst r by (auto simp: pair_read_def shape)
  note ok = install_transfers_ok [OF wf inst [unfolded r], unfolded res(1,2)]
  have caps: "map (table_cap t') (km_handles m) = map (Some \<circ> capability_of) (km_transfers q)"
    using ok map_of_zip_map [of "km_handles m" "map capability_of (km_transfers q)" "table_cap t"] by simp
  have other: "table_cap t' h = table_cap t h" if "h \<notin> set (km_handles m)" for h
  proof -
    have "h \<notin> dom (map_of (zip (km_handles m) (map capability_of (km_transfers q))))"
      using that ok by simp
    then show ?thesis using ok by (simp add: map_add_dom_app_simps(3))
  qed
  have "table_caps t' + queued_caps reg' = table_caps t + queued_caps reg"
    using ok queued_caps_pop [OF i(2) q] res(3) by simp
  moreover have "km_bytes m = km_bytes q" "km_transfers m = []"
    "km_header m = (km_header q)\<lparr>mh_handles_len := of_nat (length (km_handles m))\<rparr>"
    by (subst ok [THEN conjunct1], simp)+
  ultimately show ?thesis
    unfolding received_def using ok entry i q res(3) caps other
    by (intro conjI exI [of _ entry] exI [of _ i] exI [of _ e] exI [of _ q] exI [of _ rest]) auto
qed

lemma channel_read_error:
  assumes wf: "table_wf t" and "channel_read grow room reg t channel = (Inl x, reg', t')"
  shows "reg' = reg \<and> table_wf t' \<and> table_cap t' = table_cap t \<and> table_caps t' = table_caps t"
proof (cases "require t channel Channel RIGHT_READ")
  case (Inl y)
  with assms show ?thesis by (auto simp: channel_read_def)
next
  case (Inr entry)
  note entry = this
  show ?thesis
  proof (cases rule: channel_end_for_cases [of reg "he_koid entry"])
    case (missing y)
    with entry assms show ?thesis by (auto simp: channel_read_def)
  next
    case (found i e)
    let ?c = "ir_channels reg ! i"
    note run = assms(2) [unfolded channel_read_def entry found(1,2) sum.case Let_def]
    show ?thesis
    proof (cases "ep_inbox (endpoint ?c e)")
      case Nil
      with run wf show ?thesis by (auto simp: pair_read_def split: if_splits)
    next
      case (Cons q rest)
      have same: "update_endpoint e (\<lambda>s. s\<lparr>ep_inbox := q # rest\<rparr>) ?c = ?c"
        using Cons by (intro pair_eqI) (auto intro: endpoint_state.equality)
      obtain r m1 t1 where inst: "install_transfers grow room q t = (r, m1, t1)"
        by (cases "install_transfers grow room q t") auto
      with run Cons obtain y where r: "r = Inl y"
        by (cases r) (auto simp: pair_read_def)
      from install_transfers_error [OF wf inst [unfolded r]] run Cons inst r same show ?thesis by auto
    qed
  qed
qed

section \<open>Properties\<close>

text \<open>
  C2: sending is all-or-nothing. On a well-formed handle table a channel write either fails and
  changes neither the table nor any inbox, or succeeds: the handle has the write right, the
  peer end is open, exactly one message (the sent header and bytes) is appended to the peer's
  inbox, the named handles were distinct, live and transferable, exactly they leave the
  sender's table, and the message owns their capabilities, so that no capability is lost or
  duplicated.
\<close>

theorem channel_write_atomic:
  assumes "table_wf t" and "channel_write reg t channel msg = (r, reg', t')"
  shows "case r of
      Inl _ \<Rightarrow> reg' = reg \<and> t' = t
    | Inr _ \<Rightarrow> sent reg t channel msg reg' t'"
  using assms channel_write_error channel_write_ok by (cases r) fastforce+

definition sample_link :: "kernel_message list \<Rightarrow> ipc_registry" where
  "sample_link inbox =
     \<lparr>ir_channels =
        [\<lparr>cp_left = endpoint_new (kernel_object_new 1 Channel),
          cp_right = (endpoint_new (kernel_object_new 2 Channel))\<lparr>ep_inbox := inbox\<rparr>\<rparr>],
      ir_ports = []\<rparr>"

definition sample_port_owner :: owned_handle_entry where
  "sample_port_owner =
     \<lparr>oh_entry = \<lparr>he_handle = 2, he_koid = 7, he_kind = Port, he_rights = RIGHT_TRANSFER\<rparr>,
      oh_reference = Some 5\<rparr>"

definition sample_end_owner :: "ko_id \<Rightarrow> owned_handle_entry" where
  "sample_end_owner koid =
     \<lparr>oh_entry = \<lparr>he_handle = 1, he_koid = koid, he_kind = Channel, he_rights = CHANNEL_RIGHTS\<rparr>,
      oh_reference = None\<rparr>"

definition sample_sender :: handle_table where
  "sample_sender = \<lparr>ht_entries = [sample_end_owner 1, sample_port_owner], ht_next_handle = 3\<rparr>"

definition sample_receiver :: handle_table where
  "sample_receiver = \<lparr>ht_entries = [sample_end_owner 2], ht_next_handle = 2\<rparr>"

definition sample_grant :: message where
  "sample_grant = \<lparr>ms_header = message_header_new 1 0 1, ms_bytes = [], ms_handles = [2]\<rparr>"

definition sample_queued :: kernel_message where
  "sample_queued =
     \<lparr>km_header = message_header_new 1 0 1, km_bytes = [], km_handles = [2], km_transfers = [sample_port_owner]\<rparr>"

lemmas sample_link_eval =
  sample_link_def sample_port_owner_def sample_end_owner_def sample_grant_def sample_queued_def endpoint_new_def kernel_object_new_def CHANNEL_RIGHTS_def
  right_defs rights_contains_def mask_contains_def channel_end_for_def channel_mut_by_koid_def

lemma sample_tables_wf: "table_wf sample_sender" "table_wf sample_receiver"
  by (simp_all add: table_wf_def table_issued_def sample_sender_def sample_receiver_def sample_link_eval)

lemma sample_lookups:
  "table_lookup sample_sender 1 = Some (sample_end_owner 1)"
  "table_lookup sample_sender 2 = Some sample_port_owner"
  "table_lookup sample_receiver 1 = Some (sample_end_owner 2)"
  by (simp_all add: table_lookup_def sample_sender_def sample_receiver_def sample_end_owner_def sample_port_owner_def)

theorem channel_write_atomic_witness:
  "\<exists>reg' t'. channel_write (sample_link []) sample_sender 1 sample_grant = (Inr (), reg', t')
     \<and> sent (sample_link []) sample_sender 1 sample_grant reg' t'"
proof -
  have hs: "ms_handles sample_grant = [2]" by (simp add: sample_grant_def)
  have lk: "map (table_lookup sample_sender) [2] = map Some [sample_port_owner]"
    by (simp add: sample_lookups)
  obtain t' where "drop_each close sample_sender [2] = (Inr (), t')"
    by (rule drop_sent_handles [OF sample_tables_wf(1) _ lk]) auto
  then obtain reg' where "channel_write (sample_link []) sample_sender 1 sample_grant = (Inr (), reg', t')"
    by (simp add: channel_write_def require_def get_lookup [OF sample_tables_wf(1)] hs
        clone_entry_lookup [OF sample_tables_wf(1)] sample_lookups from_borrowed_def
        MAX_INLINE_BYTES_def MAX_MESSAGE_HANDLES_def pair_write_def sample_link_eval del: drop_each.simps)
  with channel_write_atomic [OF sample_tables_wf(1) this] show ?thesis by auto
qed

text \<open>
  C3: receiving is all-or-nothing. On a well-formed handle table a channel read either fails,
  leaving the message queued and every handle and capability of the receiver as before, even
  when its table filled up half way through the installation; or it takes the front message:
  the receiver gets one fresh handle per transferred capability, in order, and no capability is
  lost or duplicated.
\<close>

theorem channel_read_atomic:
  assumes "table_wf t" and "channel_read grow room reg t channel = (r, reg', t')"
  shows "case r of
      Inl _ \<Rightarrow> reg' = reg \<and> table_wf t' \<and> table_cap t' = table_cap t \<and> table_caps t' = table_caps t
    | Inr m \<Rightarrow> received reg t channel m reg' t'"
  using assms channel_read_error channel_read_ok by (cases r) fastforce+

theorem channel_read_atomic_witness:
  "\<exists>m reg' t'. channel_read (\<lambda>_. True) True (sample_link [sample_queued]) sample_receiver 1 = (Inr m, reg', t')
     \<and> received (sample_link [sample_queued]) sample_receiver 1 m reg' t'
     \<and> table_cap t' 2 = Some (7, Port, RIGHT_TRANSFER, Some 5)"
proof -
  have "require sample_receiver 1 Channel RIGHT_READ = Inr (oh_entry (sample_end_owner 2))"
    by (simp add: require_def get_lookup [OF sample_tables_wf(2)] sample_lookups sample_link_eval)
  then obtain m reg' t' where run: "channel_read (\<lambda>_. True) True (sample_link [sample_queued]) sample_receiver 1 = (Inr m, reg', t')"
    and "table_cap t' 2 = Some (7, Port, RIGHT_TRANSFER, Some 5)"
    by (simp add: channel_read_def table_lookup_def sample_receiver_def
        install_transfers_def insert_entry_def insert_parts_def reserve_insert_def checked_add_def
        pair_read_def table_cap_def capability_of_def Let_def sample_link_eval)
  with channel_read_atomic [OF sample_tables_wf(2) run] show ?thesis by auto
qed

end
