(* ===== verification/Ipc_Close.thy ===== *)
theory Ipc_Close
  imports Ipc_Transfer
begin

text \<open>
  Closing an endpoint and reclaiming channels and ports (\<open>close_by_koid\<close>,
  \<open>reap_unowned_channels\<close>, \<open>take_unreferenced_ports\<close> of \<open>kernel/src/ipc.rs\<close>).

  Dropping the inbox of an endpoint nobody can read drops the capabilities queued in it, and
  with them possibly the last owner of further endpoints. \<open>close_cascade\<close> is that loop; the
  vector of koids it works through is a list whose head is the vector's last element.
\<close>

section \<open>Definitions\<close>

definition registry_lineages :: "ipc_registry \<Rightarrow> lineage list" where
  "registry_lineages reg = List.map_filter oh_reference (registry_entries reg)"

definition is_referenced :: "(lineage \<Rightarrow> bool) \<Rightarrow> ipc_registry \<Rightarrow> lineage \<Rightarrow> bool" where
  "is_referenced held reg l = (held l \<or> l \<in> set (registry_lineages reg))"

definition last_owner :: "(lineage \<Rightarrow> bool) \<Rightarrow> ipc_registry \<Rightarrow> endpoint_state \<Rightarrow> bool" where
  "last_owner held reg s =
     (case ep_references s of None \<Rightarrow> False | Some l \<Rightarrow> \<not> is_referenced held reg l)"

definition carried_koids :: "endpoint_state \<Rightarrow> ko_id list" where
  "carried_koids s =
     map (\<lambda>x. he_koid (oh_entry x)) (filter (\<lambda>x. he_kind (oh_entry x) = Channel) (endpoint_entries s))"

definition drain_inbox :: "endpoint_state \<Rightarrow> endpoint_state" where
  "drain_inbox s = s\<lparr>ep_inbox := []\<rparr>"

definition collect_carried_transfers :: "endpoint_state \<Rightarrow> ko_id list \<Rightarrow> ko_id list \<times> endpoint_state" where
  "collect_carried_transfers s carried = (rev (carried_koids s) @ carried, drain_inbox s)"

abbreviation registry_endpoint :: "ipc_registry \<Rightarrow> nat \<Rightarrow> channel_end \<Rightarrow> endpoint_state" where
  "registry_endpoint reg i e \<equiv> endpoint (ir_channels reg ! i) e"

definition set_endpoint :: "ipc_registry \<Rightarrow> nat \<Rightarrow> channel_end \<Rightarrow> endpoint_state \<Rightarrow> ipc_registry" where
  "set_endpoint reg i e s = set_channel reg i (update_endpoint e (\<lambda>_. s) (ir_channels reg ! i))"

definition peer_signal :: "ipc_registry \<Rightarrow> nat \<Rightarrow> channel_end \<Rightarrow> ko_id list" where
  "peer_signal reg i e =
     (if ep_open (registry_endpoint reg i (peer e)) then [ko_koid (ep_object (registry_endpoint reg i (peer e)))]
      else [])"

lemma mset_set_endpoint:
  assumes "i < length (ir_channels reg)"
  shows "mset (registry_entries (set_endpoint reg i e s)) + mset (endpoint_entries (registry_endpoint reg i e))
    = mset (registry_entries reg) + mset (endpoint_entries s)"
  unfolding set_endpoint_def
  using mset_registry_entries_set_channel [OF assms] mset_pair_entries_update [of e "\<lambda>_. s" "ir_channels reg ! i"]
  by (rule mset_exchange)

lemma length_set_endpoint:
  assumes "i < length (ir_channels reg)"
  shows "length (registry_entries (set_endpoint reg i e s)) + length (endpoint_entries (registry_endpoint reg i e))
    = length (registry_entries reg) + length (endpoint_entries s)"
  using arg_cong [OF mset_set_endpoint [OF assms, of e s], of size] by simp

lemma entries_simps [simp]:
  "endpoint_entries (drain_inbox s) = []" "endpoint_entries (s\<lparr>ep_open := b\<rparr>) = endpoint_entries s"
  "carried_koids (s\<lparr>ep_open := b\<rparr>) = carried_koids s"
  by (simp_all add: endpoint_entries_def drain_inbox_def carried_koids_def)

lemma length_carried_koids: "length (carried_koids s) \<le> length (endpoint_entries s)"
  by (simp add: carried_koids_def)

function close_cascade ::
  "(lineage \<Rightarrow> bool) \<Rightarrow> ipc_registry \<Rightarrow> ko_id list \<Rightarrow> ko_id list \<Rightarrow> ko_id list \<times> ipc_registry" where
  "close_cascade held reg [] signals = (signals, reg)"
| "close_cascade held reg (koid # carried) signals =
     (case channel_end_for reg koid of
        Inl _ \<Rightarrow> close_cascade held reg carried signals
      | Inr e \<Rightarrow>
          (case channel_mut_by_koid reg koid of
             Inl _ \<Rightarrow> close_cascade held reg carried signals
           | Inr i \<Rightarrow>
               let s = registry_endpoint reg i e in
               if \<not> ep_open s \<or> \<not> last_owner held reg s then close_cascade held reg carried signals
               else
                 (case collect_carried_transfers (s\<lparr>ep_open := False\<rparr>) carried of
                    (carried', s') \<Rightarrow>
                      close_cascade held (set_endpoint reg i e s') carried'
                        (signals @ peer_signal reg i e))))"
  by pat_completeness auto
termination
proof (relation "measure (\<lambda>(held, reg, carried, signals). length (registry_entries reg) + length carried)",
    goal_cases)
  case (5 held reg koid carried signals e i s carried' s')
  from 5(2) have "i < length (ir_channels reg)" by (rule channel_mut_by_koid_bound)
  from length_set_endpoint [OF this, of e s'] length_carried_koids [of "registry_endpoint reg i e"] 5(3,5)
  show ?case by (auto simp: collect_carried_transfers_def)
qed auto

declare close_cascade.simps(2) [simp del]

function reap_from :: "(lineage \<Rightarrow> bool) \<Rightarrow> ipc_registry \<Rightarrow> nat \<Rightarrow> nat \<Rightarrow> nat \<times> ipc_registry" where
  "reap_from held reg index removed =
     (if index < length (ir_channels reg) then
        let dead = (\<lambda>e. \<not> ep_open (registry_endpoint reg index e)
                      \<and> last_owner held reg (registry_endpoint reg index e)) in
        if dead Left \<and> dead Right
        then reap_from held (reg\<lparr>ir_channels := remove_nth index (ir_channels reg)\<rparr>) index (removed + 1)
        else reap_from held reg (index + 1) removed
      else (removed, reg))"
  by pat_completeness auto
termination
  by (relation "measure (\<lambda>(held, reg, index, removed). length (ir_channels reg) - index)")
    (auto simp: remove_nth_def)

declare reap_from.simps [simp del]

definition reap_unowned_channels :: "(lineage \<Rightarrow> bool) \<Rightarrow> ipc_registry \<Rightarrow> nat \<times> ipc_registry" where
  "reap_unowned_channels held reg = reap_from held reg 0 0"

definition close_by_koid ::
  "(lineage \<Rightarrow> bool) \<Rightarrow> ipc_registry \<Rightarrow> ko_id \<Rightarrow> (ipc_error + ko_id list) \<times> ipc_registry" where
  "close_by_koid held reg koid =
     (case channel_end_for reg koid of
        Inl x \<Rightarrow> (Inl x, reg)
      | Inr e \<Rightarrow>
          (case channel_mut_by_koid reg koid of
             Inl x \<Rightarrow> (Inl x, reg)
           | Inr i \<Rightarrow>
               let s = (registry_endpoint reg i e)\<lparr>ep_open := False\<rparr>;
                   signals = peer_signal reg i e;
                   (carried, s') = (if last_owner held reg s then collect_carried_transfers s [] else ([], s));
                   (signals', reg') = close_cascade held (set_endpoint reg i e s') carried signals
               in (Inr signals', snd (reap_unowned_channels held reg'))))"

fun take_ports :: "(port \<Rightarrow> bool) \<Rightarrow> port list \<Rightarrow> ko_id list \<times> port list" where
  "take_ports gone [] = ([], [])"
| "take_ports gone (p # ps) =
     (case take_ports gone ps of (removed, kept) \<Rightarrow>
        if gone p then (ko_koid (po_object p) # removed, kept) else (removed, p # kept))"

definition take_unreferenced_ports :: "(lineage \<Rightarrow> bool) \<Rightarrow> ipc_registry \<Rightarrow> ko_id list \<times> ipc_registry" where
  "take_unreferenced_ports held reg =
     (case take_ports (\<lambda>p. case po_references p of None \<Rightarrow> False | Some l \<Rightarrow> \<not> is_referenced held reg l)
             (ir_ports reg) of
        (removed, kept) \<Rightarrow> (removed, reg\<lparr>ir_ports := kept\<rparr>))"

section \<open>The registry as a family of endpoints\<close>

lemma length_set_endpoint_channels [simp]:
  "length (ir_channels (set_endpoint reg i e s)) = length (ir_channels reg)"
  by (simp add: set_endpoint_def set_channel_def)

lemma registry_endpoint_set [simp]:
  "i < length (ir_channels reg) \<Longrightarrow>
     registry_endpoint (set_endpoint reg i e s) j x = (if j = i \<and> x = e then s else registry_endpoint reg j x)"
  by (cases "j = i") (auto simp: set_endpoint_def set_channel_def)

lemma ir_ports_set_endpoint [simp]: "ir_ports (set_endpoint reg i e s) = ir_ports reg"
  by (simp add: set_endpoint_def set_channel_def)

lemma in_registry_entries:
  "x \<in> set (registry_entries reg) \<longleftrightarrow>
     (\<exists>i < length (ir_channels reg). \<exists>e. x \<in> set (endpoint_entries (registry_endpoint reg i e)))"
proof -
  have "x \<in> set (pair_entries c) \<longleftrightarrow> (\<exists>e. x \<in> set (endpoint_entries (endpoint c e)))" for c
    unfolding pair_entries_def by (auto intro: exI [of _ Left] exI [of _ Right]) (metis channel_end.exhaust endpoint.simps)
  then show ?thesis unfolding registry_entries_def by (auto simp: set_conv_nth [of "ir_channels reg"])
qed

definition koid_at :: "ipc_registry \<Rightarrow> nat \<Rightarrow> channel_end \<Rightarrow> ko_id" where
  "koid_at reg i e = ko_koid (ep_object (registry_endpoint reg i e))"

definition distinct_koids :: "ipc_registry \<Rightarrow> bool" where
  "distinct_koids reg \<longleftrightarrow>
     (\<forall>i < length (ir_channels reg). \<forall>j < length (ir_channels reg). \<forall>e x.
        koid_at reg i e = koid_at reg j x \<longrightarrow> i = j \<and> e = x)"

text \<open>A queued owner of an endpoint's lineage is a handle to that endpoint.\<close>

definition lineage_ok :: "ipc_registry \<Rightarrow> bool" where
  "lineage_ok reg \<longleftrightarrow>
     (\<forall>x \<in> set (registry_entries reg). \<forall>i < length (ir_channels reg). \<forall>e l.
        oh_reference x = Some l \<longrightarrow> ep_references (registry_endpoint reg i e) = Some l
        \<longrightarrow> he_kind (oh_entry x) = Channel \<and> he_koid (oh_entry x) = koid_at reg i e)"

definition orphan :: "(lineage \<Rightarrow> bool) \<Rightarrow> ipc_registry \<Rightarrow> nat \<Rightarrow> channel_end \<Rightarrow> bool" where
  "orphan held reg i e \<longleftrightarrow>
     ep_open (registry_endpoint reg i e) \<and> last_owner held reg (registry_endpoint reg i e)"

lemma last_owner_simps [simp]:
  "last_owner held reg (s\<lparr>ep_open := b\<rparr>) = last_owner held reg s"
  "last_owner held reg (drain_inbox s) = last_owner held reg s"
  by (simp_all add: last_owner_def drain_inbox_def)

lemma drain_inbox_simps [simp]:
  "ep_open (drain_inbox s) = ep_open s" "ep_object (drain_inbox s) = ep_object s"
  "ep_references (drain_inbox s) = ep_references s" "ep_inbox (drain_inbox s) = []"
  "drain_inbox (drain_inbox s) = drain_inbox s"
  by (simp_all add: drain_inbox_def)

lemma registry_lineages_iff:
  "l \<in> set (registry_lineages reg) \<longleftrightarrow> (\<exists>x \<in> set (registry_entries reg). oh_reference x = Some l)"
  by (force simp: registry_lineages_def List.map_filter_def)

lemma last_owner_mono:
  "set (registry_entries reg') \<subseteq> set (registry_entries reg) \<Longrightarrow> last_owner held reg s \<Longrightarrow> last_owner held reg' s"
  by (auto simp: last_owner_def is_referenced_def registry_lineages_iff split: option.splits)

section \<open>Evolution under closing\<close>

definition evolves :: "(lineage \<Rightarrow> bool) \<Rightarrow> ipc_registry \<Rightarrow> ipc_registry \<Rightarrow> bool" where
  "evolves held reg reg' \<longleftrightarrow>
     length (ir_channels reg') = length (ir_channels reg) \<and> ir_ports reg' = ir_ports reg
     \<and> set (registry_entries reg') \<subseteq> set (registry_entries reg)
     \<and> (\<forall>i < length (ir_channels reg). \<forall>e.
          registry_endpoint reg' i e = registry_endpoint reg i e
          \<or> orphan held reg' i e = False \<and> last_owner held reg' (registry_endpoint reg i e)
            \<and> registry_endpoint reg' i e = drain_inbox ((registry_endpoint reg i e)\<lparr>ep_open := False\<rparr>))"

lemma evolves_refl [simp]: "evolves held reg reg"
  by (simp add: evolves_def)

lemma evolves_endpoint:
  assumes "evolves held reg reg'" and "i < length (ir_channels reg)"
  obtains (same) "registry_endpoint reg' i e = registry_endpoint reg i e"
  | (closed) "last_owner held reg' (registry_endpoint reg i e)"
      "registry_endpoint reg' i e = drain_inbox ((registry_endpoint reg i e)\<lparr>ep_open := False\<rparr>)"
  using assms unfolding evolves_def by blast

lemma evolves_fields:
  assumes "evolves held reg reg'" and "i < length (ir_channels reg)"
  shows "ep_references (registry_endpoint reg' i e) = ep_references (registry_endpoint reg i e)"
    and "koid_at reg' i e = koid_at reg i e"
    and "ep_open (registry_endpoint reg' i e) \<Longrightarrow> ep_open (registry_endpoint reg i e)"
  by (rule evolves_endpoint [OF assms, of e]; simp add: koid_at_def)+

lemma evolves_trans:
  assumes a: "evolves held reg reg1" and b: "evolves held reg1 reg2"
  shows "evolves held reg reg2"
proof -
  have "registry_endpoint reg2 i e = registry_endpoint reg i e
      \<or> orphan held reg2 i e = False \<and> last_owner held reg2 (registry_endpoint reg i e)
        \<and> registry_endpoint reg2 i e = drain_inbox ((registry_endpoint reg i e)\<lparr>ep_open := False\<rparr>)"
    if i: "i < length (ir_channels reg)" for i e
  proof -
    from a i have i1: "i < length (ir_channels reg1)" by (simp add: evolves_def)
    have mono: "last_owner held reg1 s \<Longrightarrow> last_owner held reg2 s" for s
      using b last_owner_mono unfolding evolves_def by blast
    have same: "last_owner held reg2 (registry_endpoint reg1 i e) = last_owner held reg2 (registry_endpoint reg i e)"
      using evolves_fields(1) [OF a i] by (simp add: last_owner_def)
    show ?thesis
      by (rule evolves_endpoint [OF a i, of e]; rule evolves_endpoint [OF b i1, of e])
        (auto simp: orphan_def same drain_inbox_def dest: mono)
  qed
  with a b show ?thesis unfolding evolves_def by auto
qed

lemma set_endpoint_entries:
  assumes "i < length (ir_channels reg)"
  shows "set (registry_entries (set_endpoint reg i e s)) \<subseteq> set (registry_entries reg) \<union> set (endpoint_entries s)"
    and "set (registry_entries reg) \<subseteq>
      set (registry_entries (set_endpoint reg i e s)) \<union> set (endpoint_entries (registry_endpoint reg i e))"
  using arg_cong [OF mset_set_endpoint [OF assms, of e s], of set_mset] by auto

lemma evolves_close:
  assumes "i < length (ir_channels reg)" and "last_owner held reg (registry_endpoint reg i e)"
  shows "evolves held reg (set_endpoint reg i e (drain_inbox ((registry_endpoint reg i e)\<lparr>ep_open := False\<rparr>)))"
proof -
  let ?s = "drain_inbox ((registry_endpoint reg i e)\<lparr>ep_open := False\<rparr>)"
  have sub: "set (registry_entries (set_endpoint reg i e ?s)) \<subseteq> set (registry_entries reg)"
    using set_endpoint_entries(1) [OF assms(1), of e ?s] by simp
  with last_owner_mono [OF sub assms(2)] assms(1) show ?thesis
    by (auto simp: evolves_def orphan_def)
qed

lemma distinct_koids_evolves: "evolves held reg reg' \<Longrightarrow> distinct_koids reg \<Longrightarrow> distinct_koids reg'"
  unfolding distinct_koids_def using evolves_fields(2) by (metis evolves_def)

lemma lineage_ok_evolves:
  assumes "evolves held reg reg'" and "lineage_ok reg"
  shows "lineage_ok reg'"
proof -
  have len: "length (ir_channels reg') = length (ir_channels reg)"
    and sub: "set (registry_entries reg') \<subseteq> set (registry_entries reg)"
    using assms(1) by (auto simp: evolves_def)
  show ?thesis
    unfolding lineage_ok_def len
    using assms(2) sub evolves_fields(1,2) [OF assms(1)] unfolding lineage_ok_def by auto
qed

text \<open>
  Draining an inbox makes orphans only of endpoints whose koid was carried by it.
\<close>

lemma orphan_after_drain:
  assumes ok: "lineage_ok reg" and i: "i < length (ir_channels reg)"
    and s: "endpoint_entries s = []" "ep_open s = False" "ep_references s = ep_references (registry_endpoint reg i e)"
    and j: "j < length (ir_channels reg)" and orph: "orphan held (set_endpoint reg i e s) j x"
  shows "orphan held reg j x \<and> (j, x) \<noteq> (i, e)
    \<or> koid_at reg j x \<in> set (carried_koids (registry_endpoint reg i e))"
proof -
  from orph i s(2) have ne: "(j, x) \<noteq> (i, e)" by (auto simp: orphan_def)
  with orph i have op: "ep_open (registry_endpoint reg j x)"
    and lo: "last_owner held (set_endpoint reg i e s) (registry_endpoint reg j x)"
    by (auto simp: orphan_def split: if_splits)
  then obtain l where l: "ep_references (registry_endpoint reg j x) = Some l"
    "\<not> held l" "l \<notin> set (registry_lineages (set_endpoint reg i e s))"
    by (auto simp: last_owner_def is_referenced_def split: option.splits)
  show ?thesis
  proof (cases "l \<in> set (registry_lineages reg)")
    case False
    with l op ne show ?thesis by (auto simp: orphan_def last_owner_def is_referenced_def)
  next
    case True
    then obtain y where y: "y \<in> set (registry_entries reg)" "oh_reference y = Some l"
      by (auto simp: registry_lineages_iff)
    with l(3) set_endpoint_entries(2) [OF i, of e s] have "y \<in> set (endpoint_entries (registry_endpoint reg i e))"
      by (auto simp: registry_lineages_iff)
    moreover from ok y j l(1) have "he_kind (oh_entry y) = Channel" "he_koid (oh_entry y) = koid_at reg j x"
      unfolding lineage_ok_def by blast+
    ultimately show ?thesis by (force simp: carried_koids_def)
  qed
qed

section \<open>The cascade\<close>

text \<open>
  Every end that is open after the cascade while its peer was closed by it has been signalled.
\<close>

definition signalled :: "ipc_registry \<Rightarrow> ipc_registry \<Rightarrow> ko_id list \<Rightarrow> bool" where
  "signalled reg reg' signals \<longleftrightarrow>
     (\<forall>i < length (ir_channels reg). \<forall>e.
        ep_open (registry_endpoint reg' i e) \<longrightarrow> ep_open (registry_endpoint reg i (peer e))
        \<longrightarrow> \<not> ep_open (registry_endpoint reg' i (peer e)) \<longrightarrow> koid_at reg i e \<in> set signals)"

definition orphans_in :: "(lineage \<Rightarrow> bool) \<Rightarrow> ipc_registry \<Rightarrow> ko_id list \<Rightarrow> bool" where
  "orphans_in held reg koids \<longleftrightarrow>
     (\<forall>i < length (ir_channels reg). \<forall>e. orphan held reg i e \<longrightarrow> koid_at reg i e \<in> set koids)"

lemma channel_found:
  assumes "channel_end_for reg koid = Inr e" and "channel_mut_by_koid reg koid = Inr i"
  shows "i < length (ir_channels reg)" and "koid_at reg i e = koid"
  by (rule channel_end_for_cases [of reg koid]; use assms in \<open>auto simp: koid_at_def\<close>)+

lemma channel_not_found:
  assumes "channel_end_for reg koid = Inl y \<or> channel_mut_by_koid reg koid = Inl y"
    and "i < length (ir_channels reg)"
  shows "koid_at reg i e \<noteq> koid"
proof -
  have "find_index (\<lambda>c. pair_koid c Left = koid \<or> pair_koid c Right = koid) (ir_channels reg) = None"
    using assms(1) by (auto simp: channel_end_for_index channel_mut_by_koid_def split: option.splits)
  with assms(2) show ?thesis by (cases e) (auto simp: find_index_None_iff koid_at_def)
qed

lemma orphans_in_tl:
  assumes "orphans_in held reg (koid # carried)"
    and "\<And>i e. i < length (ir_channels reg) \<Longrightarrow> koid_at reg i e = koid \<Longrightarrow> \<not> orphan held reg i e"
  shows "orphans_in held reg carried"
  using assms unfolding orphans_in_def by fastforce

lemma signalled_refl: "signalled reg reg signals"
  by (simp add: signalled_def)

lemma signalled_trans:
  assumes "evolves held reg reg1" and "evolves held reg1 reg2" and "signalled reg reg1 signals1" and "signalled reg1 reg2 signals2"
    and "set signals1 \<subseteq> set signals2"
  shows "signalled reg reg2 signals2"
proof -
  have len: "length (ir_channels reg1) = length (ir_channels reg)" using assms(1) by (simp add: evolves_def)
  show ?thesis
    unfolding signalled_def
  proof (intro allI impI)
    fix i e assume i: "i < length (ir_channels reg)" and op: "ep_open (registry_endpoint reg2 i e)"
      and was: "ep_open (registry_endpoint reg i (peer e))" and now: "\<not> ep_open (registry_endpoint reg2 i (peer e))"
    have op1: "ep_open (registry_endpoint reg1 i e)"
      using evolves_fields(3) [OF assms(2)] i len op by simp
    show "koid_at reg i e \<in> set signals2"
    proof (cases "ep_open (registry_endpoint reg1 i (peer e))")
      case True
      then show ?thesis
        using assms(4) i len op now evolves_fields(2) [OF assms(1) i] unfolding signalled_def by metis
    next
      case False
      then show ?thesis using assms(3,5) i op1 was unfolding signalled_def by blast
    qed
  qed
qed

lemma signalled_close:
  assumes "distinct_koids reg" and "i < length (ir_channels reg)" and "\<not> ep_open s"
  shows "signalled reg (set_endpoint reg i e s) (signals @ peer_signal reg i e)"
  unfolding signalled_def
proof (intro allI impI)
  fix j x assume j: "j < length (ir_channels reg)" and op: "ep_open (registry_endpoint (set_endpoint reg i e s) j x)"
    and was: "ep_open (registry_endpoint reg j (peer x))"
    and now: "\<not> ep_open (registry_endpoint (set_endpoint reg i e s) j (peer x))"
  from was now assms(2) have "j = i" "peer x = e" by (auto split: if_splits)
  then have "x = peer e" by auto
  with op assms(2) \<open>j = i\<close> show "koid_at reg j x \<in> set (signals @ peer_signal reg i e)"
    by (auto simp: peer_signal_def koid_at_def)
qed

abbreviation closed_endpoint :: "endpoint_state \<Rightarrow> endpoint_state" where
  "closed_endpoint s \<equiv> drain_inbox (s\<lparr>ep_open := False\<rparr>)"

lemma close_cascade_Cons:
  assumes "distinct_koids reg"
  obtains (skip) "close_cascade held reg (koid # carried) signals = close_cascade held reg carried signals"
      and "\<And>i e. i < length (ir_channels reg) \<Longrightarrow> koid_at reg i e = koid \<Longrightarrow> \<not> orphan held reg i e"
  | (step) i e where "i < length (ir_channels reg)" and "koid_at reg i e = koid" and "orphan held reg i e"
      and "close_cascade held reg (koid # carried) signals =
        close_cascade held (set_endpoint reg i e (closed_endpoint (registry_endpoint reg i e)))
          (rev (carried_koids (registry_endpoint reg i e)) @ carried) (signals @ peer_signal reg i e)"
proof (cases rule: channel_end_for_cases [of reg koid])
  case (missing y)
  then show ?thesis using channel_not_found [OF disjI1 [OF missing]] by (intro skip) (simp_all add: close_cascade.simps(2))
next
  case (found i e)
  have only: "(j, x) = (i, e)" if "j < length (ir_channels reg)" "koid_at reg j x = koid" for j x
    using assms found(3,4) that unfolding distinct_koids_def koid_at_def by blast
  show ?thesis
  proof (cases "orphan held reg i e")
    case True
    then show ?thesis
      using found by (intro step [of i e])
        (simp_all add: close_cascade.simps(2) koid_at_def orphan_def Let_def collect_carried_transfers_def)
  next
    case False
    have "\<not> orphan held reg j x" if "j < length (ir_channels reg)" "koid_at reg j x = koid" for j x
      using only [OF that] False by simp
    moreover from False have "\<not> ep_open (registry_endpoint reg i e) \<or> \<not> last_owner held reg (registry_endpoint reg i e)"
      by (simp add: orphan_def)
    ultimately show ?thesis using found(1,2) by (intro skip) (simp_all add: close_cascade.simps(2) Let_def)
  qed
qed

lemma close_step_orphans:
  assumes "distinct_koids reg" and "lineage_ok reg" and "orphans_in held reg (koid # carried)"
    and i: "i < length (ir_channels reg)" "koid_at reg i e = koid"
    and ev: "evolves held reg (set_endpoint reg i e (closed_endpoint (registry_endpoint reg i e)))"
  shows "orphans_in held (set_endpoint reg i e (closed_endpoint (registry_endpoint reg i e)))
    (rev (carried_koids (registry_endpoint reg i e)) @ carried)"
  unfolding orphans_in_def
proof (intro allI impI)
  let ?reg1 = "set_endpoint reg i e (closed_endpoint (registry_endpoint reg i e))"
  fix j x assume "j < length (ir_channels ?reg1)" and o: "orphan held ?reg1 j x"
  then have j: "j < length (ir_channels reg)" by simp
  have "orphan held reg j x \<and> (j, x) \<noteq> (i, e) \<or> koid_at reg j x \<in> set (carried_koids (registry_endpoint reg i e))"
    using orphan_after_drain [OF assms(2) i(1) _ _ _ j o] by simp
  moreover have "koid_at reg j x \<noteq> koid" if "(j, x) \<noteq> (i, e)"
    using that assms(1) i j unfolding distinct_koids_def by blast
  moreover have "koid_at reg j x \<in> set (koid # carried)" if "orphan held reg j x"
    using that assms(3) j unfolding orphans_in_def by blast
  ultimately have "koid_at reg j x \<in> set (rev (carried_koids (registry_endpoint reg i e)) @ carried)" by auto
  then show "koid_at ?reg1 j x \<in> set (rev (carried_koids (registry_endpoint reg i e)) @ carried)"
    using evolves_fields(2) [OF ev j] by simp
qed

lemma close_cascade_ok:
  assumes "distinct_koids reg" and "lineage_ok reg" and "orphans_in held reg carried"
    and "close_cascade held reg carried signals = (signals', reg')"
  shows "evolves held reg reg' \<and> orphans_in held reg' [] \<and> set signals \<subseteq> set signals' \<and> signalled reg reg' signals'"
  using assms
proof (induction "length (registry_entries reg) + length carried" arbitrary: reg carried signals rule: less_induct)
  case (less reg carried signals)
  show ?case
  proof (cases carried)
    case Nil
    with less.prems show ?thesis by (simp add: signalled_refl)
  next
    case (Cons koid rest)
    from less.prems(1) show ?thesis
    proof (cases rule: close_cascade_Cons [where held = held and koid = koid and carried = rest and signals = signals])
      case skip
      have o: "orphans_in held reg rest" by (rule orphans_in_tl [OF less.prems(3) [unfolded Cons] skip(2)])
      have run: "close_cascade held reg rest signals = (signals', reg')"
        using less.prems(4) unfolding Cons skip(1) .
      show ?thesis by (rule less.hyps [OF _ less.prems(1,2) o run]) (simp add: Cons)
    next
      case (step i e)
      let ?s = "registry_endpoint reg i e"
      let ?reg1 = "set_endpoint reg i e (closed_endpoint ?s)" and ?new = "rev (carried_koids ?s) @ rest"
      let ?sig1 = "signals @ peer_signal reg i e"
      have ev: "evolves held reg ?reg1" using step by (intro evolves_close) (auto simp: orphan_def)
      have "length (registry_entries ?reg1) + length ?new < length (registry_entries reg) + length carried"
        using length_set_endpoint [OF step(1), of e "closed_endpoint ?s"] length_carried_koids [of ?s]
        by (simp add: Cons)
      moreover have "orphans_in held ?reg1 ?new"
        using less.prems(1-3) step(1,2) ev unfolding Cons by (intro close_step_orphans)
      moreover have "close_cascade held ?reg1 ?new ?sig1 = (signals', reg')"
        using less.prems(4) step(4) by (simp add: Cons)
      ultimately have res: "evolves held ?reg1 reg'" "orphans_in held reg' []" "set ?sig1 \<subseteq> set signals'"
        "signalled ?reg1 reg' signals'"
        using less.hyps [of ?reg1 ?new ?sig1] distinct_koids_evolves [OF ev less.prems(1)]
          lineage_ok_evolves [OF ev less.prems(2)] by blast+
      have "signalled reg ?reg1 ?sig1" using less.prems(1) step(1) by (intro signalled_close) auto
      from signalled_trans [OF ev res(1) this res(4,3)] evolves_trans [OF ev res(1)] res(2,3)
      show ?thesis by auto
    qed
  qed
qed

section \<open>Reaping\<close>

definition dead_pair :: "(lineage \<Rightarrow> bool) \<Rightarrow> ipc_registry \<Rightarrow> channel_pair \<Rightarrow> bool" where
  "dead_pair held reg c \<longleftrightarrow> (\<forall>e. \<not> ep_open (endpoint c e) \<and> last_owner held reg (endpoint c e))"

lemma dead_pair_alt:
  "dead_pair held reg c \<longleftrightarrow>
     (\<not> ep_open (endpoint c Left) \<and> last_owner held reg (endpoint c Left))
     \<and> (\<not> ep_open (endpoint c Right) \<and> last_owner held reg (endpoint c Right))"
  unfolding dead_pair_def by (metis channel_end.exhaust)

lemma last_owner_cong:
  "set (registry_entries reg') = set (registry_entries reg) \<Longrightarrow> last_owner held reg' = last_owner held reg"
  using last_owner_mono by (intro ext) (metis equalityD1 equalityD2)

text \<open>
  When the pairs to be removed hold no capabilities, removing one does not change who owns
  what, and the loop is a filter.
\<close>

lemma reap_from_stop: "\<not> index < length (ir_channels reg) \<Longrightarrow> reap_from held reg index removed = (removed, reg)"
  unfolding reap_from.simps [of held reg index removed] by simp

lemma reap_from_step:
  "index < length (ir_channels reg) \<Longrightarrow>
     reap_from held reg index removed =
       (if dead_pair held reg (ir_channels reg ! index)
        then reap_from held (reg\<lparr>ir_channels := remove_nth index (ir_channels reg)\<rparr>) index (removed + 1)
        else reap_from held reg (index + 1) removed)"
  unfolding reap_from.simps [of held reg index removed] Let_def dead_pair_alt by simp

lemma remove_empty_pair:
  assumes "index < length (ir_channels reg)" and "pair_entries (ir_channels reg ! index) = []"
  shows "set (registry_entries (reg\<lparr>ir_channels := remove_nth index (ir_channels reg)\<rparr>)) = set (registry_entries reg)"
proof -
  have "set (ir_channels reg) = insert (ir_channels reg ! index) (set (remove_nth index (ir_channels reg)))"
    using arg_cong [OF mset_remove_nth [OF assms(1)], of set_mset] by simp
  with assms(2) show ?thesis by (simp add: registry_entries_def)
qed

lemma reap_from_filter:
  assumes "index \<le> length (ir_channels reg)"
    and "\<And>c. c \<in> set (ir_channels reg) \<Longrightarrow> dead_pair held reg c \<Longrightarrow> pair_entries c = []"
  shows "snd (reap_from held reg index removed) =
    reg\<lparr>ir_channels := take index (ir_channels reg)
          @ filter (\<lambda>c. \<not> dead_pair held reg c) (drop index (ir_channels reg))\<rparr>"
  using assms
proof (induction "length (ir_channels reg) - index" arbitrary: reg index removed rule: less_induct)
  case (less reg index removed)
  show ?case
  proof (cases "index < length (ir_channels reg)")
    case False
    with less.prems(1) have "index = length (ir_channels reg)" by simp
    then show ?thesis by (simp add: reap_from_stop)
  next
    case True
    let ?c = "ir_channels reg ! index" and ?reg1 = "reg\<lparr>ir_channels := remove_nth index (ir_channels reg)\<rparr>"
    have drp: "drop index (ir_channels reg) = ?c # drop (Suc index) (ir_channels reg)"
      using True by (rule Cons_nth_drop_Suc [symmetric])
    show ?thesis
    proof (cases "dead_pair held reg ?c")
      case dead: True
      have same: "set (registry_entries ?reg1) = set (registry_entries reg)"
        using True less.prems(2) [OF nth_mem [OF True] dead] by (rule remove_empty_pair)
      have pred: "dead_pair held ?reg1 c = dead_pair held reg c" for c
        by (simp add: dead_pair_def last_owner_cong [OF same])
      have "snd (reap_from held ?reg1 index (removed + 1)) =
          ?reg1\<lparr>ir_channels := take index (ir_channels ?reg1)
            @ filter (\<lambda>c. \<not> dead_pair held ?reg1 c) (drop index (ir_channels ?reg1))\<rparr>"
      proof (rule less.hyps)
        show "pair_entries c = []" if "c \<in> set (ir_channels ?reg1)" "dead_pair held ?reg1 c" for c
          using that less.prems(2) set_remove_nth_subset [of index "ir_channels reg"] by (auto simp: pred)
      qed (use True in \<open>simp_all add: length_remove_nth\<close>)
      from this [unfolded pred] show ?thesis using True dead drp by (simp add: reap_from_step remove_nth_def)
    next
      case False
      have "snd (reap_from held reg (index + 1) removed) =
          reg\<lparr>ir_channels := take (index + 1) (ir_channels reg)
            @ filter (\<lambda>c. \<not> dead_pair held reg c) (drop (index + 1) (ir_channels reg))\<rparr>"
        by (rule less.hyps [OF _ _ less.prems(2)]) (use True in simp_all)
      with False True drp show ?thesis by (simp add: reap_from_step take_Suc_conv_app_nth)
    qed
  qed
qed

lemma reap_unowned_channels_filter:
  assumes "\<And>c. c \<in> set (ir_channels reg) \<Longrightarrow> dead_pair held reg c \<Longrightarrow> pair_entries c = []"
  defines "reg' \<equiv> snd (reap_unowned_channels held reg)"
  shows "ir_channels reg' = filter (\<lambda>c. \<not> dead_pair held reg c) (ir_channels reg)"
    and "set (registry_entries reg') = set (registry_entries reg)"
proof -
  show ch: "ir_channels reg' = filter (\<lambda>c. \<not> dead_pair held reg c) (ir_channels reg)"
    unfolding reg'_def reap_unowned_channels_def using reap_from_filter [OF _ assms(1), of 0] by simp
  show "set (registry_entries reg') = set (registry_entries reg)"
    unfolding registry_entries_def ch using assms(1) by fastforce
qed

section \<open>Closing\<close>

text \<open>
  A registry is settled when the closed endpoints hold no queued capabilities.
\<close>

definition settled :: "ipc_registry \<Rightarrow> bool" where
  "settled reg \<longleftrightarrow>
     (\<forall>i < length (ir_channels reg). \<forall>e.
        \<not> ep_open (registry_endpoint reg i e) \<longrightarrow> endpoint_entries (registry_endpoint reg i e) = [])"

text \<open>The direct close: the endpoint's new state, the koids to visit and the registry.\<close>

definition first_state :: "(lineage \<Rightarrow> bool) \<Rightarrow> ipc_registry \<Rightarrow> endpoint_state \<Rightarrow> endpoint_state" where
  "first_state held reg s = (if last_owner held reg s then closed_endpoint s else s\<lparr>ep_open := False\<rparr>)"

definition first_carried :: "(lineage \<Rightarrow> bool) \<Rightarrow> ipc_registry \<Rightarrow> endpoint_state \<Rightarrow> ko_id list" where
  "first_carried held reg s = (if last_owner held reg s then rev (carried_koids s) else [])"

definition first_registry :: "(lineage \<Rightarrow> bool) \<Rightarrow> ipc_registry \<Rightarrow> nat \<Rightarrow> channel_end \<Rightarrow> ipc_registry" where
  "first_registry held reg i e = set_endpoint reg i e (first_state held reg (registry_endpoint reg i e))"

lemma first_state_fields [simp]:
  "ep_object (first_state held reg s) = ep_object s"
  "ep_references (first_state held reg s) = ep_references s"
  "\<not> ep_open (first_state held reg s)"
  by (simp_all add: first_state_def)

lemma length_first_registry [simp]:
  "length (ir_channels (first_registry held reg i e)) = length (ir_channels reg)"
  by (simp add: first_registry_def)

lemma first_registry_fields:
  assumes "i < length (ir_channels reg)"
  shows "koid_at (first_registry held reg i e) j x = koid_at reg j x"
    and "ep_references (registry_endpoint (first_registry held reg i e) j x) = ep_references (registry_endpoint reg j x)"
  using assms by (auto simp: first_registry_def koid_at_def)

lemma first_registry_entries:
  assumes "i < length (ir_channels reg)"
  shows "set (registry_entries (first_registry held reg i e)) \<subseteq> set (registry_entries reg)"
    and "\<not> last_owner held reg (registry_endpoint reg i e) \<Longrightarrow>
      set (registry_entries (first_registry held reg i e)) = set (registry_entries reg)"
proof -
  let ?s = "registry_endpoint reg i e"
  have eq: "mset (registry_entries (first_registry held reg i e)) + mset (endpoint_entries ?s)
      = mset (registry_entries reg) + mset (endpoint_entries (first_state held reg ?s))"
    unfolding first_registry_def using assms by (rule mset_set_endpoint)
  show keep: "set (registry_entries (first_registry held reg i e)) = set (registry_entries reg)"
    if "\<not> last_owner held reg ?s"
    using eq that by (intro mset_eq_setD) (simp add: first_state_def)
  show "set (registry_entries (first_registry held reg i e)) \<subseteq> set (registry_entries reg)"
    using arg_cong [OF eq, of set_mset] keep by (cases "last_owner held reg ?s") (auto simp: first_state_def)
qed

lemma first_registry_wf:
  assumes "i < length (ir_channels reg)" and "distinct_koids reg" and "lineage_ok reg"
  shows "distinct_koids (first_registry held reg i e)" and "lineage_ok (first_registry held reg i e)"
proof -
  note f = first_registry_fields [OF assms(1), of held e]
  show "distinct_koids (first_registry held reg i e)"
    using assms(2) unfolding distinct_koids_def f by simp
  show "lineage_ok (first_registry held reg i e)"
    using assms(3) first_registry_entries(1) [OF assms(1), of held e] unfolding lineage_ok_def f by auto
qed

lemma first_registry_orphans:
  assumes i: "i < length (ir_channels reg)" "koid_at reg i e = koid"
    and ok: "distinct_koids reg" "lineage_ok reg" "orphans_in held reg [koid]"
  shows "orphans_in held (first_registry held reg i e) (first_carried held reg (registry_endpoint reg i e))"
  unfolding orphans_in_def
proof (intro allI impI)
  let ?s = "registry_endpoint reg i e" and ?reg1 = "first_registry held reg i e"
  fix j x assume "j < length (ir_channels ?reg1)" and o: "orphan held ?reg1 j x"
  then have j: "j < length (ir_channels reg)" by simp
  from o i(1) have ne: "(j, x) \<noteq> (i, e)" by (auto simp: orphan_def first_registry_def)
  then have "koid_at reg j x \<noteq> koid" using ok(1) i j unfolding distinct_koids_def by blast
  with ok(3) j have no: "\<not> orphan held reg j x" by (auto simp: orphans_in_def)
  have "koid_at reg j x \<in> set (first_carried held reg ?s)"
  proof (cases "last_owner held reg ?s")
    case True
    then have "endpoint_entries (first_state held reg ?s) = []" by (simp add: first_state_def)
    from orphan_after_drain [OF ok(2) i(1) this _ _ j o [unfolded first_registry_def]] no True
    show ?thesis by (simp add: first_carried_def)
  next
    case False
    from last_owner_cong [OF first_registry_entries(2) [OF i(1) False]] o no ne i(1) show ?thesis
      by (auto simp: orphan_def first_registry_def split: if_splits)
  qed
  then show "koid_at ?reg1 j x \<in> set (first_carried held reg ?s)" using first_registry_fields(1) [OF i(1)] by simp
qed

text \<open>The state after the direct close and the cascade, before reaping.\<close>

lemma close_by_koid_unfold:
  assumes "close_by_koid held reg koid = (Inr signals, reg')"
  obtains i e reg2 where "i < length (ir_channels reg)" and "koid_at reg i e = koid"
    and "close_cascade held (first_registry held reg i e) (first_carried held reg (registry_endpoint reg i e))
      (peer_signal reg i e) = (signals, reg2)"
    and "reg' = snd (reap_unowned_channels held reg2)"
proof -
  from assms obtain i e where fnd: "channel_end_for reg koid = Inr e" "channel_mut_by_koid reg koid = Inr i"
    by (auto simp: close_by_koid_def split: sum.splits)
  let ?s = "registry_endpoint reg i e"
  obtain signals' reg2 where run: "close_cascade held (first_registry held reg i e)
      (first_carried held reg ?s) (peer_signal reg i e) = (signals', reg2)" by fastforce
  have "(if last_owner held reg (?s\<lparr>ep_open := False\<rparr>) then collect_carried_transfers (?s\<lparr>ep_open := False\<rparr>) []
        else ([], ?s\<lparr>ep_open := False\<rparr>)) = (first_carried held reg ?s, first_state held reg ?s)"
    by (simp add: collect_carried_transfers_def first_carried_def first_state_def)
  then have "close_by_koid held reg koid = (Inr signals', snd (reap_unowned_channels held reg2))"
    using fnd run by (simp only: close_by_koid_def Let_def sum.case prod.case first_registry_def)
  with assms channel_found [OF fnd] run that show ?thesis by auto
qed

lemma dead_pairs_empty:
  assumes i: "i < length (ir_channels reg)" and st: "settled reg"
    and ev: "evolves held (first_registry held reg i e) reg2"
    and same: "\<not> last_owner held reg (registry_endpoint reg i e) \<Longrightarrow> reg2 = first_registry held reg i e"
    and c: "c \<in> set (ir_channels reg2)" "dead_pair held reg2 c"
  shows "pair_entries c = []"
proof -
  let ?reg1 = "first_registry held reg i e"
  from c(1) ev obtain j where j: "j < length (ir_channels reg)" "c = ir_channels reg2 ! j"
    by (auto simp: in_set_conv_nth evolves_def)
  have "endpoint_entries (registry_endpoint reg2 j x) = []" for x
  proof -
    have dead: "\<not> ep_open (registry_endpoint reg2 j x)" "last_owner held reg2 (registry_endpoint reg2 j x)"
      using c(2) by (auto simp: dead_pair_def j(2))
    have j1: "j < length (ir_channels ?reg1)" using j(1) by simp
    from ev j1 show ?thesis
    proof (cases rule: evolves_endpoint [where e = x])
      case same': same
      show ?thesis
      proof (cases "(j, x) = (i, e)")
        case True
        then have fs: "registry_endpoint reg2 j x = first_state held reg (registry_endpoint reg i e)"
          using same' i by (simp add: first_registry_def)
        have "last_owner held reg (registry_endpoint reg i e)"
        proof (rule ccontr)
          assume no: "\<not> last_owner held reg (registry_endpoint reg i e)"
          from last_owner_cong [OF first_registry_entries(2) [OF i no]] dead(2) same [OF no] no show False
            unfolding fs by (simp add: first_state_def)
        qed
        then show ?thesis unfolding fs by (simp add: first_state_def)
      next
        case False
        then have "registry_endpoint reg2 j x = registry_endpoint reg j x"
          using same' i by (auto simp: first_registry_def)
        with st j(1) dead(1) show ?thesis by (auto simp: settled_def)
      qed
    qed simp
  qed
  from this [of Left] this [of Right] show ?thesis by (simp add: pair_entries_def j(2))
qed

text \<open>What the whole call leaves behind, in terms of the registry after the cascade.\<close>

lemma close_by_koid_frame:
  assumes "distinct_koids reg" and "lineage_ok reg" and "settled reg" and "orphans_in held reg [koid]"
    and "close_by_koid held reg koid = (Inr signals, reg')"
  obtains i e reg2 where "i < length (ir_channels reg)" and "koid_at reg i e = koid"
    and "evolves held (first_registry held reg i e) reg2" and "orphans_in held reg2 []"
    and "set (peer_signal reg i e) \<subseteq> set signals" and "signalled (first_registry held reg i e) reg2 signals"
    and "ir_channels reg' = filter (\<lambda>c. \<not> dead_pair held reg2 c) (ir_channels reg2)"
    and "last_owner held reg' = last_owner held reg2"
proof -
  from assms(5) obtain i e reg2 where i: "i < length (ir_channels reg)" "koid_at reg i e = koid"
    and run: "close_cascade held (first_registry held reg i e)
      (first_carried held reg (registry_endpoint reg i e)) (peer_signal reg i e) = (signals, reg2)"
    and reg': "reg' = snd (reap_unowned_channels held reg2)"
    by (rule close_by_koid_unfold)
  let ?reg1 = "first_registry held reg i e"
  from close_cascade_ok [OF first_registry_wf [OF i(1) assms(1,2)] first_registry_orphans [OF i assms(1,2,4)] run]
  have casc: "evolves held ?reg1 reg2" "orphans_in held reg2 []" "set (peer_signal reg i e) \<subseteq> set signals"
    "signalled ?reg1 reg2 signals" by auto
  have same: "reg2 = ?reg1" if "\<not> last_owner held reg (registry_endpoint reg i e)"
    using run that by (simp add: first_carried_def)
  have empty: "pair_entries c = []" if "c \<in> set (ir_channels reg2)" "dead_pair held reg2 c" for c
    using dead_pairs_empty [OF i(1) assms(3) casc(1) same that] .
  show ?thesis
  proof (rule that [OF i casc])
    show "ir_channels reg' = filter (\<lambda>c. \<not> dead_pair held reg2 c) (ir_channels reg2)"
      unfolding reg' by (rule reap_unowned_channels_filter(1) [OF empty])
    show "last_owner held reg' = last_owner held reg2"
      unfolding reg' by (rule last_owner_cong [OF reap_unowned_channels_filter(2) [OF empty]])
  qed
qed

lemma close_keeps_owned:
  assumes i: "i < length (ir_channels reg)"
    and ev: "evolves held (first_registry held reg i e) reg2"
    and sig: "set (peer_signal reg i e) \<subseteq> set signals" "signalled (first_registry held reg i e) reg2 signals"
    and j: "j < length (ir_channels reg)" "(j, x) \<noteq> (i, e)"
    and op: "ep_open (registry_endpoint reg j x)" and own: "\<not> last_owner held reg2 (registry_endpoint reg j x)"
  shows "registry_endpoint reg2 j x = registry_endpoint reg j x"
    and "koid_at reg2 j (peer x) = koid_at reg j (peer x)"
    and "ep_open (registry_endpoint reg j (peer x)) \<Longrightarrow> \<not> ep_open (registry_endpoint reg2 j (peer x)) \<Longrightarrow>
      koid_at reg j x \<in> set signals"
proof -
  let ?reg1 = "first_registry held reg i e"
  have j1: "j < length (ir_channels ?reg1)" using j(1) by simp
  have r1: "registry_endpoint ?reg1 j x = registry_endpoint reg j x" using i j(2) by (auto simp: first_registry_def)
  from ev j1 show same: "registry_endpoint reg2 j x = registry_endpoint reg j x"
    by (cases rule: evolves_endpoint [where e = x]) (use r1 own in auto)
  show "koid_at reg2 j (peer x) = koid_at reg j (peer x)"
    using evolves_fields(2) [OF ev j1] first_registry_fields(1) [OF i] by simp
  assume was: "ep_open (registry_endpoint reg j (peer x))" and now: "\<not> ep_open (registry_endpoint reg2 j (peer x))"
  show "koid_at reg j x \<in> set signals"
  proof (cases "(j, peer x) = (i, e)")
    case True
    then have "x = peer e" by auto
    with True op sig(1) show ?thesis by (auto simp: peer_signal_def koid_at_def)
  next
    case False
    then have "ep_open (registry_endpoint ?reg1 j (peer x))" using was i by (auto simp: first_registry_def)
    moreover have "ep_open (registry_endpoint reg2 j x)" using same op by simp
    ultimately have "koid_at ?reg1 j x \<in> set signals"
      using sig(2) j1 now unfolding signalled_def by blast
    then show ?thesis using first_registry_fields(1) [OF i] by simp
  qed
qed

section \<open>Properties\<close>


definition sample_owner :: "ko_id \<Rightarrow> lineage \<Rightarrow> owned_handle_entry" where
  "sample_owner koid l =
     \<lparr>oh_entry = \<lparr>he_handle = 1, he_koid = koid, he_kind = Channel, he_rights = CHANNEL_RIGHTS\<rparr>,
      oh_reference = Some l\<rparr>"

definition sample_carrier :: "ko_id \<Rightarrow> lineage \<Rightarrow> kernel_message" where
  "sample_carrier koid l =
     \<lparr>km_header = message_header_new 1 0 1, km_bytes = [], km_handles = [1],
      km_transfers = [sample_owner koid l]\<rparr>"

definition sample_endpoint :: "ko_id \<Rightarrow> lineage \<Rightarrow> kernel_message list \<Rightarrow> endpoint_state" where
  "sample_endpoint koid l inbox =
     \<lparr>ep_object = kernel_object_new koid Channel, ep_inbox = inbox, ep_open = True, ep_references = Some l\<rparr>"

definition sample_registry :: ipc_registry where
  "sample_registry =
     \<lparr>ir_channels =
        [\<lparr>cp_left = sample_endpoint 1 11 [sample_carrier 5 15], cp_right = sample_endpoint 2 12 []\<rparr>,
         \<lparr>cp_left = sample_endpoint 3 13 [sample_carrier 1 11], cp_right = sample_endpoint 4 14 []\<rparr>,
         \<lparr>cp_left = sample_endpoint 5 15 [], cp_right = sample_endpoint 6 16 []\<rparr>],
      ir_ports = []\<rparr>"

definition sample_held :: "lineage set \<Rightarrow> lineage \<Rightarrow> bool" where
  "sample_held ls l = (l \<in> ls)"

lemma all_ends: "(\<forall>e. P e) \<longleftrightarrow> P Left \<and> P Right" for P :: "channel_end \<Rightarrow> bool"
  by (metis channel_end.exhaust)

lemmas sample_registry_eval =
  sample_registry_def sample_endpoint_def sample_carrier_def sample_owner_def kernel_object_new_def
  all_ends less_Suc_eq numeral_3_eq_3 nth_Cons'

lemmas close_eval =
  close_by_koid_def channel_end_for_def channel_mut_by_koid_def last_owner_def is_referenced_def
  registry_lineages_def registry_entries_def pair_entries_def endpoint_entries_def List.map_filter_def
  collect_carried_transfers_def carried_koids_def drain_inbox_def set_endpoint_def set_channel_def
  peer_signal_def close_cascade.simps(2) sample_held_def

lemmas reap_eval = reap_unowned_channels_def reap_from_step reap_from_stop dead_pair_alt remove_nth_def

lemma sample_registry_wf:
  "distinct_koids sample_registry" "lineage_ok sample_registry" "settled sample_registry"
  by (simp_all add: distinct_koids_def lineage_ok_def settled_def koid_at_def sample_registry_eval
      registry_entries_def pair_entries_def endpoint_entries_def)


text \<open>
  C28: closing one of two handles to an endpoint can strand a third channel. In a registry whose
  endpoint 5 is owned only by a message in the inbox of endpoint 1, and a duplicate handle to
  endpoint 1 only by a message in the inbox of endpoint 3, a process drops its own handle to
  endpoint 1, then the one to endpoint 3, then the one to endpoint 2 (the peer of 1). The
  cascade of the second close skips endpoint 1 because it is already marked closed, so its
  inbox is never drained, and the third close removes the whole pair: endpoint 5 is left open
  with no owner, and its peer, endpoint 6, which is held, is never signalled.
\<close>

theorem closed_duplicate_strands_endpoint:
  "\<exists>s1 s2 s3 reg1 reg2 reg3.
     close_by_koid (sample_held {12, 13, 14, 16}) sample_registry 1 = (Inr s1, reg1)
     \<and> close_by_koid (sample_held {12, 14, 16}) reg1 3 = (Inr s2, reg2)
     \<and> close_by_koid (sample_held {14, 16}) reg2 2 = (Inr s3, reg3)
     \<and> koid_at reg3 1 Left = 5 \<and> orphan (sample_held {14, 16}) reg3 1 Left
     \<and> ep_open (registry_endpoint reg3 1 Right) \<and> 6 \<notin> set (s1 @ s2 @ s3)"
proof -
  obtain s1 reg1 where 1: "close_by_koid (sample_held {12, 13, 14, 16}) sample_registry 1 = (Inr s1, reg1)"
    and r1: "s1 = [2]" "reg1 = sample_registry\<lparr>ir_channels := (ir_channels sample_registry)
      [0 := (ir_channels sample_registry ! 0)\<lparr>cp_left := (sample_endpoint 1 11 [sample_carrier 5 15])\<lparr>ep_open := False\<rparr>\<rparr>]\<rparr>"
    by (simp add: close_eval reap_eval sample_registry_eval Let_def)
  obtain s2 reg2 where 2: "close_by_koid (sample_held {12, 14, 16}) reg1 3 = (Inr s2, reg2)"
    and r2: "s2 = [4]" "reg2 = reg1\<lparr>ir_channels := (ir_channels reg1)
      [1 := (ir_channels reg1 ! 1)\<lparr>cp_left := (sample_endpoint 3 13 [])\<lparr>ep_open := False\<rparr>\<rparr>]\<rparr>"
    by (simp add: r1 close_eval reap_eval sample_registry_eval Let_def)
  obtain s3 reg3 where 3: "close_by_koid (sample_held {14, 16}) reg2 2 = (Inr s3, reg3)"
    and r3: "s3 = []" "reg3 = reg2\<lparr>ir_channels := tl (ir_channels reg2)\<rparr>"
    by (simp add: r1 r2 close_eval reap_eval sample_registry_eval Let_def)
  have "koid_at reg3 1 Left = 5 \<and> orphan (sample_held {14, 16}) reg3 1 Left
     \<and> ep_open (registry_endpoint reg3 1 Right) \<and> 6 \<notin> set (s1 @ s2 @ s3)"
    by (simp add: r1 r2 r3 koid_at_def orphan_def close_eval sample_registry_eval)
  with 1 2 3 show ?thesis by blast
qed

end
