(* ===== verification/Authority.thy ===== *)
theory Authority
  imports Ipc_Close
begin

text \<open>
  Authority confinement across processes. A system is the IPC registry, the object manager and
  the handle tables of all processes. The steps are the operations that touch capabilities:
  creating, duplicating and closing handles, sending and receiving them through channels,
  closing endpoints, and the stage, commit and roll-back steps by which a parent hands start
  arguments to a child. Each step carries whatever the operation returned, success or error.
\<close>

record system =
  sys_reg :: ipc_registry
  sys_objects :: object_manager
  sys_tables :: "handle_table list"

definition system_caps :: "system \<Rightarrow> capability set" where
  "system_caps s = set_mset (queued_caps (sys_reg s)) \<union> (\<Union>t \<in> set (sys_tables s). set_mset (table_caps t))"

definition system_wf :: "system \<Rightarrow> bool" where
  "system_wf s \<longleftrightarrow> list_all table_wf (sys_tables s)"

text \<open>The rights of a capability.\<close>

fun cap_rights :: "capability \<Rightarrow> rights" where
  "cap_rights (koid, kind, rs, l) = rs"

fun cap_koid :: "capability \<Rightarrow> ko_id" where
  "cap_koid (koid, kind, rs, l) = koid"

fun attenuates :: "capability \<Rightarrow> capability \<Rightarrow> bool" where
  "attenuates (koid, kind, rs, l) (koid', kind', rs', l') \<longleftrightarrow>
     koid' = koid \<and> kind' = kind \<and> l' = l \<and> rights_contains rs rs'"

inductive sys_step :: "system \<Rightarrow> system \<Rightarrow> bool" where
  send: "p < length (sys_tables s) \<Longrightarrow>
    channel_write (sys_reg s) (sys_tables s ! p) h msg = (r, reg, t) \<Longrightarrow>
    sys_step s (s\<lparr>sys_reg := reg, sys_tables := (sys_tables s)[p := t]\<rparr>)"
| receive: "p < length (sys_tables s) \<Longrightarrow>
    channel_read grow room (sys_reg s) (sys_tables s ! p) h = (r', reg, t) \<Longrightarrow>
    sys_step s (s\<lparr>sys_reg := reg, sys_tables := (sys_tables s)[p := t]\<rparr>)"
| dup: "p < length (sys_tables s) \<Longrightarrow> duplicate grow (sys_tables s ! p) h rs = (rh, t) \<Longrightarrow>
    sys_step s (s\<lparr>sys_tables := (sys_tables s)[p := t]\<rparr>)"
| close_handle: "p < length (sys_tables s) \<Longrightarrow> close (sys_tables s ! p) h = (ru, t) \<Longrightarrow>
    sys_step s (s\<lparr>sys_tables := (sys_tables s)[p := t]\<rparr>)"
| close_end: "close_by_koid held (sys_reg s) koid = (rk, reg) \<Longrightarrow> sys_step s (s\<lparr>sys_reg := reg\<rparr>)"
| new_channel: "p < length (sys_tables s) \<Longrightarrow>
    channel_create grow l l' (sys_reg s) (sys_objects s) (sys_tables s ! p) = (rc, reg, objects, t) \<Longrightarrow>
    sys_step s (s\<lparr>sys_reg := reg, sys_objects := objects, sys_tables := (sys_tables s)[p := t]\<rparr>)"
| new_port: "p < length (sys_tables s) \<Longrightarrow>
    port_create grow l (sys_reg s) (sys_objects s) (sys_tables s ! p) = (rh', reg, objects, t) \<Longrightarrow>
    sys_step s (s\<lparr>sys_reg := reg, sys_objects := objects, sys_tables := (sys_tables s)[p := t]\<rparr>)"
| stage: "p < length (sys_tables s) \<Longrightarrow> q < length (sys_tables s) \<Longrightarrow>
    stage_grant_to grow (sys_tables s ! p) (sys_tables s ! q) h transfer = (rg, t) \<Longrightarrow>
    sys_step s (s\<lparr>sys_tables := (sys_tables s)[q := t]\<rparr>)"
| commit: "p < length (sys_tables s) \<Longrightarrow> commit_grant (sys_tables s ! p) g = (ru', t) \<Longrightarrow>
    sys_step s (s\<lparr>sys_tables := (sys_tables s)[p := t]\<rparr>)"
| rollback: "p < length (sys_tables s) \<Longrightarrow> rollback_grant (sys_tables s ! p) g = (ru', t) \<Longrightarrow>
    sys_step s (s\<lparr>sys_tables := (sys_tables s)[p := t]\<rparr>)"

text \<open>
  Below a bound on object ids every capability of \<open>D\<close> is an attenuation of one of \<open>C\<close>.
\<close>

definition covered_below :: "u64 \<Rightarrow> capability set \<Rightarrow> capability set \<Rightarrow> bool" where
  "covered_below bound C D \<longleftrightarrow> (\<forall>d \<in> D. cap_koid d < bound \<longrightarrow> (\<exists>c \<in> C. attenuates c d))"

lemma attenuates_refl [simp, intro]: "attenuates c c"
  by (cases c) auto

lemma attenuates_trans [trans]: "attenuates a b \<Longrightarrow> attenuates b c \<Longrightarrow> attenuates a c"
  by (cases a; cases b; cases c) (auto intro: rights_contains_trans)

lemma attenuates_koid: "attenuates c d \<Longrightarrow> cap_koid d = cap_koid c"
  by (cases c; cases d) auto

lemma covered_subset: "D \<subseteq> C \<Longrightarrow> covered_below bound C D"
  unfolding covered_below_def by blast

lemma covered_trans:
  assumes "covered_below bound C D" and "covered_below bound' D E" and "bound \<le> bound'"
  shows "covered_below bound C E"
  unfolding covered_below_def
proof (intro ballI impI)
  fix x assume x: "x \<in> E" "cap_koid x < bound"
  then obtain d where d: "d \<in> D" "attenuates d x"
    using assms(2,3) unfolding covered_below_def by (meson less_le_trans)
  with x(2) assms(1) obtain c where "c \<in> C" "attenuates c d"
    unfolding covered_below_def by (metis attenuates_koid)
  with d(2) show "\<exists>c \<in> C. attenuates c x" by (blast intro: attenuates_trans)
qed

section \<open>Each operation\<close>

lemma saturating_add_ge: "a \<le> saturating_add a (b :: u64)"
  using unat_u64_bound [of a] by (simp add: word_le_nat_alt unat_saturating_add)

lemma create_bounds:
  assumes "create om kind = (ob, om')"
  shows "ko_koid ob = next_koid om" and "ko_kind ob = kind" and "next_koid om \<le> next_koid om'"
  using assms saturating_add_ge [of "next_koid om" 1] by (auto simp: create_def kernel_object_new_def max_def)

lemma table_caps_insert_parts:
  assumes "insert_parts grow t koid kind rs ref = (r, t')" and "table_wf t"
  shows "table_wf t' \<and> set_mset (table_caps t') \<subseteq> insert (koid, kind, rs, ref) (set_mset (table_caps t))"
proof (cases r)
  case (Inl e)
  with assms have "t' = t" by (cases rule: insert_parts_cases [of grow t koid kind rs ref]) auto
  with assms show ?thesis by auto
next
  case (Inr h)
  from insert_parts_ok [OF assms(2) assms(1) [unfolded Inr]] show ?thesis
    by (auto simp: table_caps_def capability_of_def)
qed

lemma table_caps_insert_entry:
  assumes "insert_entry grow t e = (r, t')" and "table_wf t"
  shows "table_wf t' \<and> set_mset (table_caps t') \<subseteq> insert (capability_of e) (set_mset (table_caps t))"
  using table_caps_insert_parts [OF assms(1) [unfolded insert_entry_def] assms(2)]
  by (simp add: capability_of_def)

lemma table_caps_remove:
  assumes "remove t h = (r, t')" and "table_wf t"
  shows "table_wf t' \<and> set_mset (table_caps t') \<subseteq> set_mset (table_caps t)"
proof (cases "table_lookup t h")
  case None
  with assms remove_dead show ?thesis by auto
next
  case (Some e)
  from assms(2) Some obtain t1 where "remove t h = (Inr e, t1)" "table_wf t1"
    "mset (ht_entries t) = add_mset e (mset (ht_entries t1))" by (rule remove_live)
  with assms(1) show ?thesis by (auto simp: table_caps_def dest: arg_cong [of _ _ set_mset])
qed

lemma table_lookup_cap: "table_wf t \<Longrightarrow> table_lookup t h = Some e \<Longrightarrow> capability_of e \<in> set_mset (table_caps t)"
  by (auto simp: table_lookup_iff table_caps_def)

lemma duplicate_covered:
  assumes "duplicate grow t h rs = (r, t')" and "table_wf t"
  shows "table_wf t' \<and> covered_below bound (set_mset (table_caps t)) (set_mset (table_caps t'))"
proof (cases "table_lookup t h")
  case None
  with assms show ?thesis by (auto simp: duplicate_lookup covered_subset)
next
  case (Some e)
  show ?thesis
  proof (cases "rights_contains (he_rights (oh_entry e)) RIGHT_DUPLICATE \<and> rights_contains (he_rights (oh_entry e)) rs")
    case False
    with assms Some show ?thesis by (auto simp: duplicate_lookup covered_subset split: if_splits)
  next
    case True
    let ?e = "e\<lparr>oh_entry := (oh_entry e)\<lparr>he_rights := rs\<rparr>\<rparr>"
    from assms Some True have "insert_entry grow t ?e = (r, t')" by (simp add: duplicate_lookup)
    from table_caps_insert_entry [OF this assms(2)] have ins: "table_wf t'"
      "set_mset (table_caps t') \<subseteq> insert (capability_of ?e) (set_mset (table_caps t))" by auto
    moreover have "attenuates (capability_of e) (capability_of ?e)" using True by (simp add: capability_of_def)
    ultimately show ?thesis
      using table_lookup_cap [OF assms(2) Some] unfolding covered_below_def by blast
  qed
qed

lemma stage_covered:
  assumes "stage_grant_to grow self target h transfer = (r, t')" and "table_wf self" and "table_wf target"
  shows "table_wf t' \<and> set_mset (table_caps t') \<subseteq> set_mset (table_caps self) \<union> set_mset (table_caps target)"
proof (cases "table_lookup self h")
  case None
  with assms show ?thesis by (auto simp: stage_grant_to_def get_lookup)
next
  case (Some e)
  obtain r1 t1 where ins: "insert_entry grow target e = (r1, t1)" by (cases "insert_entry grow target e")
  from assms Some ins have "t' = target \<or> t' = t1"
    by (auto simp: stage_grant_to_def get_lookup clone_entry_lookup Let_def split: if_splits sum.splits)
  with table_caps_insert_entry [OF ins assms(3)] table_lookup_cap [OF assms(2) Some] assms(3)
  show ?thesis by auto
qed

lemma queued_caps_subset:
  "set (registry_entries reg') \<subseteq> set (registry_entries reg) \<Longrightarrow> set_mset (queued_caps reg') \<subseteq> set_mset (queued_caps reg)"
  by (auto simp: queued_caps_def)

lemma close_cascade_entries:
  "set (registry_entries (snd (close_cascade held reg carried signals))) \<subseteq> set (registry_entries reg)"
proof (induction held reg carried signals rule: close_cascade.induct)
  case (2 held reg koid carried signals)
  show ?case
  proof (cases rule: channel_end_for_cases [of reg koid])
    case (missing y)
    with 2(1) show ?thesis by (simp add: close_cascade.simps(2))
  next
    case (found i e)
    let ?s = "registry_endpoint reg i e"
    show ?thesis
    proof (cases "\<not> ep_open ?s \<or> \<not> last_owner held reg ?s")
      case True
      with 2(3) [OF found(1,2) refl] found(1,2) show ?thesis by (simp add: close_cascade.simps(2) Let_def)
    next
      case False
      have "set (registry_entries (set_endpoint reg i e (closed_endpoint ?s))) \<subseteq> set (registry_entries reg)"
        using set_endpoint_entries(1) [OF found(3), of e "closed_endpoint ?s"] by simp
      with 2(4) [OF found(1,2) refl False] False found(1,2) show ?thesis
        by (simp add: close_cascade.simps(2) Let_def collect_carried_transfers_def)
    qed
  qed
qed simp

lemma reap_from_entries: "set (registry_entries (snd (reap_from held reg index removed))) \<subseteq> set (registry_entries reg)"
proof (induction "length (ir_channels reg) - index" arbitrary: reg index removed rule: less_induct)
  case (less reg index removed)
  show ?case
  proof (cases "index < length (ir_channels reg)")
    case True
    let ?reg1 = "reg\<lparr>ir_channels := remove_nth index (ir_channels reg)\<rparr>"
    have "set (registry_entries ?reg1) \<subseteq> set (registry_entries reg)"
      using set_remove_nth_subset [of index "ir_channels reg"] by (auto simp: registry_entries_def)
    moreover have "set (registry_entries (snd (reap_from held ?reg1 index (removed + 1)))) \<subseteq> set (registry_entries ?reg1)"
      using True by (intro less.hyps) (simp add: length_remove_nth)
    moreover have "set (registry_entries (snd (reap_from held reg (index + 1) removed))) \<subseteq> set (registry_entries reg)"
      using True by (intro less.hyps) simp
    ultimately show ?thesis using True by (auto simp: reap_from_step)
  qed (simp add: reap_from_stop)
qed

lemma close_by_koid_entries:
  assumes "close_by_koid held reg koid = (r, reg')"
  shows "set (registry_entries reg') \<subseteq> set (registry_entries reg)"
proof (cases r)
  case (Inl x)
  with assms show ?thesis by (auto simp: close_by_koid_def Let_def split: sum.splits prod.splits)
next
  case (Inr signals)
  from assms [unfolded Inr] obtain i e reg2 where i: "i < length (ir_channels reg)"
    and run: "close_cascade held (first_registry held reg i e)
      (first_carried held reg (registry_endpoint reg i e)) (peer_signal reg i e) = (signals, reg2)"
    and reg': "reg' = snd (reap_unowned_channels held reg2)"
    by (rule close_by_koid_unfold)
  have "set (registry_entries reg') \<subseteq> set (registry_entries reg2)"
    unfolding reg' reap_unowned_channels_def by (rule reap_from_entries)
  also have "\<dots> \<subseteq> set (registry_entries (first_registry held reg i e))"
    using close_cascade_entries [of held "first_registry held reg i e"] run by (metis snd_conv)
  also have "\<dots> \<subseteq> set (registry_entries reg)" by (rule first_registry_entries(1) [OF i])
  finally show ?thesis .
qed

section \<open>One step\<close>

definition step_confined :: "system \<Rightarrow> system \<Rightarrow> bool" where
  "step_confined s s' \<longleftrightarrow>
     system_wf s' \<and> next_koid (sys_objects s) \<le> next_koid (sys_objects s')
     \<and> covered_below (next_koid (sys_objects s)) (system_caps s) (system_caps s')"

lemma table_caps_system: "p < length (sys_tables s) \<Longrightarrow> set_mset (table_caps (sys_tables s ! p)) \<subseteq> system_caps s"
  using nth_mem unfolding system_caps_def by blast

lemma covered_mono: "C \<subseteq> C' \<Longrightarrow> covered_below bound C D \<Longrightarrow> covered_below bound C' D"
  unfolding covered_below_def by blast

lemma covered_Un: "covered_below bound C D \<Longrightarrow> covered_below bound C E \<Longrightarrow> covered_below bound C (D \<union> E)"
  unfolding covered_below_def by blast

lemma confined_table:
  assumes "system_wf s" and "p < length (sys_tables s)" and "table_wf t"
    and "next_koid (sys_objects s) \<le> next_koid objects"
    and "covered_below (next_koid (sys_objects s)) (system_caps s) (set_mset (table_caps t))"
    and "covered_below (next_koid (sys_objects s)) (system_caps s) (set_mset (queued_caps reg))"
  shows "step_confined s (s\<lparr>sys_reg := reg, sys_objects := objects, sys_tables := (sys_tables s)[p := t]\<rparr>)"
proof -
  let ?s = "s\<lparr>sys_reg := reg, sys_objects := objects, sys_tables := (sys_tables s)[p := t]\<rparr>"
  have sub: "set ((sys_tables s)[p := t]) \<subseteq> insert t (set (sys_tables s))" by (rule set_update_subset_insert)
  have "system_wf ?s" using assms(1,3) sub by (auto simp: system_wf_def list_all_iff)
  moreover have "system_caps ?s \<subseteq> set_mset (queued_caps reg) \<union> (set_mset (table_caps t) \<union> system_caps s)"
    using sub unfolding system_caps_def by auto
  then have "covered_below (next_koid (sys_objects s)) (system_caps s) (system_caps ?s)"
    using assms(5,6) unfolding covered_below_def by blast
  ultimately show ?thesis using assms(4) by (simp add: step_confined_def)
qed

lemma confined_same_reg:
  assumes "system_wf s" and "p < length (sys_tables s)" and "table_wf t"
    and "covered_below (next_koid (sys_objects s)) (system_caps s) (set_mset (table_caps t))"
  shows "step_confined s (s\<lparr>sys_tables := (sys_tables s)[p := t]\<rparr>)"
proof -
  have "covered_below (next_koid (sys_objects s)) (system_caps s) (set_mset (queued_caps (sys_reg s)))"
    by (rule covered_subset) (simp add: system_caps_def)
  from confined_table [OF assms(1-3) order_refl assms(4) this] show ?thesis by simp
qed

lemma confined_transfer:
  assumes "system_wf s" and "p < length (sys_tables s)" and "table_wf t"
    and "table_caps t + queued_caps reg = table_caps (sys_tables s ! p) + queued_caps (sys_reg s)"
  shows "step_confined s (s\<lparr>sys_reg := reg, sys_tables := (sys_tables s)[p := t]\<rparr>)"
proof -
  have "set_mset (table_caps t) \<union> set_mset (queued_caps reg) \<subseteq> system_caps s"
    using arg_cong [OF assms(4), of set_mset] table_caps_system [OF assms(2)] by (auto simp: system_caps_def)
  then have "covered_below (next_koid (sys_objects s)) (system_caps s) (set_mset (table_caps t))"
    "covered_below (next_koid (sys_objects s)) (system_caps s) (set_mset (queued_caps reg))"
    by (auto intro: covered_subset)
  from confined_table [OF assms(1-3) order_refl this] show ?thesis by simp
qed

lemma covered_new:
  assumes "C' \<subseteq> insert (koid, kind, rs, ref) C" and "bound \<le> koid"
  shows "covered_below bound C C'"
  using assms unfolding covered_below_def by (fastforce dest: leD)

lemma table_caps_insert_referenced:
  assumes "insert_referenced grow l t ob rs = (r, t')" and "table_wf t"
  shows "table_wf t' \<and> set_mset (table_caps t') \<subseteq> insert (ko_koid ob, ko_kind ob, rs, Some l) (set_mset (table_caps t))"
proof -
  obtain r1 where "insert_parts grow t (ko_koid ob) (ko_kind ob) rs (Some l) = (r1, t')"
    using assms(1) by (cases "insert_parts grow t (ko_koid ob) (ko_kind ob) rs (Some l)")
      (auto simp: insert_referenced_def split: sum.splits)
  from table_caps_insert_parts [OF this assms(2)] show ?thesis by blast
qed

lemma table_caps_insert_channel:
  assumes "insert_channel grow l t ob rs = (r, t')" and "table_wf t"
  shows "table_wf t' \<and> set_mset (table_caps t') \<subseteq> insert (ko_koid ob, ko_kind ob, rs, Some l) (set_mset (table_caps t))"
  using assms table_caps_insert_referenced [of grow l t ob rs r t']
  by (auto simp: insert_channel_def split: if_splits)

lemma channel_pair_new_bounds:
  assumes "channel_pair_new om = (c, om')"
  shows "next_koid om \<le> pair_koid c e" and "next_koid om \<le> next_koid om'" and "pair_entries c = []"
proof -
  obtain a om1 where a: "create om Channel = (a, om1)" by (cases "create om Channel")
  obtain b om2 where b: "create om1 Channel = (b, om2)" by (cases "create om1 Channel")
  from assms a b have c: "c = \<lparr>cp_left = endpoint_new a, cp_right = endpoint_new b\<rparr>" "om' = om2"
    by (auto simp: channel_pair_new_def)
  note bounds = create_bounds [OF a] create_bounds [OF b]
  show "next_koid om \<le> pair_koid c e" using bounds c by (cases e) (auto simp: endpoint_new_def)
  show "next_koid om \<le> next_koid om'" using bounds c by auto
  show "pair_entries c = []" using c by (simp add: pair_entries_def endpoint_entries_def endpoint_new_def)
qed

lemma pair_entries_set_references [simp]: "pair_entries (set_references c l r) = pair_entries c"
  by (simp add: pair_entries_def endpoint_entries_def set_references_def)

lemma queued_caps_new_pair:
  "pair_entries c = [] \<Longrightarrow> queued_caps (reg\<lparr>ir_channels := ir_channels reg @ [c]\<rparr>) = queued_caps reg"
  by (simp add: queued_caps_def registry_entries_def)

lemma channel_create_covered:
  assumes "channel_create grow l l' reg om t = (r, reg', om', t')" and "table_wf t"
  shows "table_wf t' \<and> next_koid om \<le> next_koid om' \<and> queued_caps reg' = queued_caps reg
    \<and> covered_below (next_koid om) (set_mset (table_caps t)) (set_mset (table_caps t'))"
proof -
  obtain c om1 where c: "channel_pair_new om = (c, om1)" by (cases "channel_pair_new om")
  note cb = channel_pair_new_bounds [OF c]
  obtain r1 t1 where i1: "insert_channel grow l t (pair_object c Left) CHANNEL_RIGHTS = (r1, t1)"
    by (cases "insert_channel grow l t (pair_object c Left) CHANNEL_RIGHTS")
  obtain r2 t2 where i2: "insert_channel grow l' t1 (pair_object c Right) CHANNEL_RIGHTS = (r2, t2)"
    by (cases "insert_channel grow l' t1 (pair_object c Right) CHANNEL_RIGHTS")
  from table_caps_insert_channel [OF i1 assms(2)] have t1: "table_wf t1"
    "covered_below (next_koid om) (set_mset (table_caps t)) (set_mset (table_caps t1))"
    using covered_new [OF _ cb(1) [of Left]] by auto
  from table_caps_insert_channel [OF i2 t1(1)] have t2: "table_wf t2"
    "covered_below (next_koid om) (set_mset (table_caps t1)) (set_mset (table_caps t2))"
    using covered_new [OF _ cb(1) [of Right]] by auto
  have "covered_below (next_koid om) (set_mset (table_caps t)) (set_mset (table_caps t2))"
    by (rule covered_trans [OF t1(2) t2(2) order_refl])
  moreover have "om' = om1" "(t' = t1 \<and> reg' = reg) \<or> (t' = t2 \<and> queued_caps reg' = queued_caps reg)"
    using assms(1) c i1 i2 cb(3)
    by (auto simp: channel_create_def queued_caps_new_pair simp del: endpoint.simps split: sum.splits)
  ultimately show ?thesis using t1 t2 cb(2) by auto
qed

lemma port_create_covered:
  assumes "port_create grow l reg om t = (r, reg', om', t')" and "table_wf t"
  shows "table_wf t' \<and> next_koid om \<le> next_koid om' \<and> queued_caps reg' = queued_caps reg
    \<and> covered_below (next_koid om) (set_mset (table_caps t)) (set_mset (table_caps t'))"
proof -
  obtain ob om1 where ob: "create om Port = (ob, om1)" by (cases "create om Port")
  let ?rs = "or (or RIGHT_WAIT RIGHT_TRANSFER) RIGHT_DUPLICATE"
  obtain r1 t1 where ins: "insert_referenced grow l t ob ?rs = (r1, t1)"
    by (cases "insert_referenced grow l t ob ?rs")
  from table_caps_insert_referenced [OF ins assms(2)] create_bounds [OF ob] have t1: "table_wf t1"
    "covered_below (next_koid om) (set_mset (table_caps t)) (set_mset (table_caps t1))"
    using covered_new by auto
  have "om' = om1" "t' = t1" "queued_caps reg' = queued_caps reg"
    using assms(1) ob ins
    by (auto simp: port_create_def port_new_def queued_caps_def registry_entries_def split: sum.splits)
  with t1 create_bounds(3) [OF ob] show ?thesis by simp
qed

lemma confined_create:
  assumes "system_wf s" and "p < length (sys_tables s)"
    and "table_wf t \<and> next_koid (sys_objects s) \<le> next_koid objects \<and> queued_caps reg = queued_caps (sys_reg s)
      \<and> covered_below (next_koid (sys_objects s)) (set_mset (table_caps (sys_tables s ! p))) (set_mset (table_caps t))"
  shows "step_confined s (s\<lparr>sys_reg := reg, sys_objects := objects, sys_tables := (sys_tables s)[p := t]\<rparr>)"
proof (rule confined_table [OF assms(1,2)])
  show "covered_below (next_koid (sys_objects s)) (system_caps s) (set_mset (table_caps t))"
    using assms(3) covered_mono [OF table_caps_system [OF assms(2)]] by blast
  show "covered_below (next_koid (sys_objects s)) (system_caps s) (set_mset (queued_caps reg))"
    using assms(3) by (intro covered_subset) (simp add: system_caps_def)
qed (use assms(3) in auto)

lemma confined_within:
  assumes "system_wf s" and "p < length (sys_tables s)"
    and "table_wf t \<and> set_mset (table_caps t) \<subseteq> system_caps s"
  shows "step_confined s (s\<lparr>sys_tables := (sys_tables s)[p := t]\<rparr>)"
  using assms by (intro confined_same_reg covered_subset) auto

lemma system_wf_nth: "system_wf s \<Longrightarrow> p < length (sys_tables s) \<Longrightarrow> table_wf (sys_tables s ! p)"
  by (simp add: system_wf_def list_all_length)

lemma sys_step_confined: "sys_step s s' \<Longrightarrow> system_wf s \<Longrightarrow> step_confined s s'"
proof (induction rule: sys_step.induct)
  case (send p s h msg r reg t)
  note wf = system_wf_nth [OF send(3,1)]
  show ?case
    using channel_write_error [OF wf] channel_write_ok [OF wf] send(2) wf
    by (intro confined_transfer [OF send(3,1)]; cases r) (fastforce simp: sent_def)+
next
  case (receive p s grow room h r reg t)
  note wf = system_wf_nth [OF receive(3,1)]
  show ?case
    using channel_read_error [OF wf] channel_read_ok [OF wf] receive(2)
    by (intro confined_transfer [OF receive(3,1)]; cases r) (fastforce simp: received_def)+
next
  case (dup p s grow h rs rh t)
  from duplicate_covered [OF dup(2) system_wf_nth [OF dup(3,1)]] covered_mono [OF table_caps_system [OF dup(1)]]
  show ?case by (intro confined_same_reg [OF dup(3,1)]) auto
next
  case (close_handle p s h ru t)
  obtain r where "remove (sys_tables s ! p) h = (r, t)"
    using close_handle(2) by (cases "remove (sys_tables s ! p) h") (auto simp: close_def split: sum.splits)
  from table_caps_remove [OF this system_wf_nth [OF close_handle(3,1)]] table_caps_system [OF close_handle(1)]
  show ?case by (intro confined_within [OF close_handle(3,1)]) auto
next
  case (close_end held s koid rk reg)
  from queued_caps_subset [OF close_by_koid_entries [OF close_end(1)]] close_end(2) show ?case
    by (auto simp: step_confined_def system_wf_def system_caps_def intro!: covered_subset)
next
  case (new_channel p s grow l l' rc reg objects t)
  from channel_create_covered [OF new_channel(2) system_wf_nth [OF new_channel(3,1)]] show ?case
    by (rule confined_create [OF new_channel(3,1)])
next
  case (new_port p s grow l rh reg objects t)
  from port_create_covered [OF new_port(2) system_wf_nth [OF new_port(3,1)]] show ?case
    by (rule confined_create [OF new_port(3,1)])
next
  case (stage p s q grow h transfer rg t)
  from stage_covered [OF stage(3) system_wf_nth [OF stage(4,1)] system_wf_nth [OF stage(4,2)]]
    table_caps_system [OF stage(1)] table_caps_system [OF stage(2)]
  show ?case by (intro confined_within [OF stage(4,2)]) auto
next
  case (commit p s g ru t)
  note wf = system_wf_nth [OF commit(3,1)]
  obtain r t1 where rm: "remove (sys_tables s ! p) (sg_source g) = (r, t1)"
    by (cases "remove (sys_tables s ! p) (sg_source g)")
  with commit(2) have "t = t1 \<or> t = sys_tables s ! p"
    by (auto simp: commit_grant_def split: if_splits sum.splits)
  with table_caps_remove [OF rm wf] wf table_caps_system [OF commit(1)]
  show ?case by (intro confined_within [OF commit(3,1)]) auto
next
  case (rollback p s g ru t)
  obtain r where "remove (sys_tables s ! p) (sg_target g) = (r, t)"
    using rollback(2) by (cases "remove (sys_tables s ! p) (sg_target g)")
      (auto simp: rollback_grant_def split: sum.splits)
  from table_caps_remove [OF this system_wf_nth [OF rollback(3,1)]] table_caps_system [OF rollback(1)]
  show ?case by (intro confined_within [OF rollback(3,1)]) auto
qed

lemma sys_run_confined:
  assumes "sys_step\<^sup>*\<^sup>* s s'" and "system_wf s"
  shows "step_confined s s'"
  using assms
proof (induction rule: rtranclp_induct)
  case base
  then show ?case by (simp add: step_confined_def covered_subset)
next
  case (step y z)
  then have sy: "step_confined s y" by blast
  then have "step_confined y z" using sys_step_confined [OF step(2)] by (simp add: step_confined_def)
  with sy show ?case
    unfolding step_confined_def using covered_trans order_trans by blast
qed

section \<open>Properties\<close>

text \<open>
  C1: authority is confined. Take any system whose handle tables are well formed and any
  sequence of creations, duplications, closes, channel sends and receives, endpoint closes and
  argument grants by any of its processes, with any mix of successes, refusals and allocation
  failures. Every capability that exists afterwards, in a table or queued in a channel, to an
  object that existed at the start is an attenuation of a capability that existed at the start:
  same object, kind and reference lineage, and no right that one did not have. So an object
  nobody held a handle to stays unreachable, and a right nobody held is never gained.
\<close>

theorem authority_confined:
  assumes "system_wf s" and "sys_step\<^sup>*\<^sup>* s s'"
    and "c' \<in> system_caps s'" and "cap_koid c' < next_koid (sys_objects s)"
  shows "\<exists>c \<in> system_caps s. attenuates c c'"
  using sys_run_confined [OF assms(2,1)] assms(3,4) by (auto simp: step_confined_def covered_below_def)

definition sample_system :: system where
  "sample_system =
     \<lparr>sys_reg = sample_link [], sys_objects = \<lparr>next_koid = 10\<rparr>,
      sys_tables = [sample_sender, sample_receiver]\<rparr>"

theorem authority_confined_witness:
  "\<exists>s'. sys_step\<^sup>*\<^sup>* sample_system s' \<and> (7, Port, RIGHT_TRANSFER, Some 5) \<in> system_caps s'
     \<and> (\<exists>c \<in> system_caps sample_system. attenuates c (7, Port, RIGHT_TRANSFER, Some 5))"
proof -
  have wf: "system_wf sample_system"
    using sample_tables_wf by (simp add: system_wf_def sample_system_def)
  obtain r t where d: "duplicate (\<lambda>_. True) sample_sender 1 RIGHT_READ = (r, t)"
    by (cases "duplicate (\<lambda>_. True) sample_sender 1 RIGHT_READ")
  let ?s = "sample_system\<lparr>sys_tables := [sample_sender, sample_receiver][0 := t]\<rparr>"
  have "sys_step sample_system ?s"
    using sys_step.dup [of 0 sample_system "\<lambda>_. True" 1 RIGHT_READ r t] d by (simp add: sample_system_def)
  then have run: "sys_step\<^sup>*\<^sup>* sample_system ?s" by simp
  have "set (ht_entries sample_sender) \<subseteq> set (ht_entries t)"
    using d by (auto simp: duplicate_lookup [OF sample_tables_wf(1)] sample_lookups insert_entry_def
        insert_parts_def reserve_insert_def Let_def split: if_splits)
  then have "sample_port_owner \<in> set (ht_entries t)" by (simp add: sample_sender_def)
  then have "(7, Port, RIGHT_TRANSFER, Some 5) \<in> system_caps ?s"
    by (force simp: system_caps_def table_caps_def sample_port_owner_def capability_of_def)
  with authority_confined [OF wf run this] run show ?thesis by (auto simp: sample_system_def)
qed

end
