(* ===== verification/Ipc_Port.thy ===== *)
theory Ipc_Port
  imports Ipc_Registry
begin

text \<open>
  Ports of \<open>kernel/src/ipc.rs\<close>: signals of one source coalesce into one packet, and coalescing
  loses none of them.
\<close>

unbundle bit_operations_syntax

datatype port_op = Queue_signal ko_id signals | Port_wait

fun port_run :: "port \<Rightarrow> port_op list \<Rightarrow> port_packet list \<times> port" where
  "port_run p [] = ([], p)"
| "port_run p (Queue_signal source s # ops) = port_run (queue_signal p source s) ops"
| "port_run p (Port_wait # ops) =
     (case port_take p of
        (Inl _, p') \<Rightarrow> port_run p' ops
      | (Inr packet, p') \<Rightarrow> (case port_run p' ops of (got, z) \<Rightarrow> (packet # got, z)))"

text \<open>All signals a list of packets carries for one source, and all signals queued for it.\<close>

definition gathered :: "ko_id \<Rightarrow> port_packet list \<Rightarrow> signals" where
  "gathered source ps = foldr (OR) (map pk_signals (filter (\<lambda>p. pk_source p = source) ps)) 0"

fun queued_for :: "ko_id \<Rightarrow> port_op list \<Rightarrow> signals" where
  "queued_for source [] = 0"
| "queued_for source (Queue_signal k s # ops) =
     (if k = source then s OR queued_for source ops else queued_for source ops)"
| "queued_for source (Port_wait # ops) = queued_for source ops"

lemma gathered_simps [simp]:
  "gathered source [] = 0"
  "gathered source (p # ps) = (if pk_source p = source then pk_signals p OR gathered source ps else gathered source ps)"
  by (simp_all add: gathered_def)

lemma gathered_coalesce:
  "gathered source (coalesce k s ps) = (if k = source then gathered source ps OR s else gathered source ps)"
  by (induction ps) (auto simp: ac_simps)

lemma set_sources_coalesce:
  "pk_source ` set (coalesce k s ps) = insert k (pk_source ` set ps)"
  by (induction ps) auto

lemma distinct_coalesce:
  "distinct (map pk_source ps) \<Longrightarrow> distinct (map pk_source (coalesce k s ps))"
proof (induction ps)
  case (Cons p ps)
  then show ?case using set_sources_coalesce [of k s ps] by auto
qed simp

lemma port_run_gathered:
  assumes "port_run p ops = (got, z)"
  shows "gathered source got OR gathered source (po_packets z) =
      gathered source (po_packets p) OR queued_for source ops
    \<and> (distinct (map pk_source (po_packets p)) \<longrightarrow> distinct (map pk_source (po_packets z)))"
  using assms
proof (induction p ops arbitrary: got z rule: port_run.induct)
  case (2 p k s ops)
  from 2(1) [of got z] 2(2) show ?case
    by (auto simp: queue_signal_def gathered_coalesce distinct_coalesce or.assoc)
next
  case (3 p ops)
  show ?case
  proof (cases "po_packets p")
    case Nil
    with 3(3) have "port_run p ops = (got, z)" by (simp add: port_take_def)
    with 3(1) [of "Inl IE_ShouldWait" p IE_ShouldWait] Nil show ?thesis by (simp add: port_take_def)
  next
    case (Cons packet rest)
    let ?p = "p\<lparr>po_packets := rest\<rparr>"
    from Cons have t: "(Inr packet, ?p) = port_take p" by (simp add: port_take_def)
    obtain got' z' where run: "port_run ?p ops = (got', z')" by (cases "port_run ?p ops")
    with 3(3) have got: "got = packet # got'" "z' = z" by (simp_all add: t [symmetric])
    from 3(2) [OF t refl run [unfolded got(2)]] show ?thesis by (simp add: Cons got(1) or.assoc)
  qed
qed simp

section \<open>Properties\<close>

text \<open>
  C29: coalescing loses no signal. On a fresh port, after any sequence of queued signals and
  waits, for every source the union of the signals in the packets delivered and still pending
  is exactly the union of the signals queued for it, at most one packet per source is pending,
  and a wait is refused exactly when nothing is pending.
\<close>

theorem port_delivers_all_signals:
  assumes "port_run (fst (port_new objects)) ops = (got, z)"
  shows "gathered source got OR gathered source (po_packets z) = queued_for source ops
    \<and> distinct (map pk_source (po_packets z))
    \<and> (fst (port_take z) = Inl IE_ShouldWait \<longleftrightarrow> po_packets z = [])"
proof -
  have "po_packets (fst (port_new objects)) = []" by (simp add: port_new_def split: prod.splits)
  with port_run_gathered [OF assms, of source] show ?thesis by (simp add: port_take_def split: list.splits)
qed

theorem port_delivers_all_signals_witness:
  "\<exists>z. port_run (fst (port_new object_manager_new))
       [Queue_signal 9 1, Queue_signal 8 1, Queue_signal 9 4, Port_wait]
     = ([\<lparr>pk_source = 9, pk_signals = 5\<rparr>], z)
   \<and> gathered 9 [\<lparr>pk_source = 9, pk_signals = 5\<rparr>] OR gathered 9 (po_packets z) = 5"
proof -
  let ?ops = "[Queue_signal 9 1, Queue_signal 8 1, Queue_signal 9 4, Port_wait]"
  obtain z where run: "port_run (fst (port_new object_manager_new)) ?ops = ([\<lparr>pk_source = 9, pk_signals = 5\<rparr>], z)"
    by (simp add: port_new_def create_def queue_signal_def port_take_def)
  from port_delivers_all_signals [OF run, of 9] have "gathered 9 [\<lparr>pk_source = 9, pk_signals = 5\<rparr>]
      OR gathered 9 (po_packets z) = 5" by simp
  with run show ?thesis by blast
qed

end
