(* ===== verification/Abi_Call.thy ===== *)
theory Abi_Call
  imports Kumo_Prelude
begin

text \<open>
  Register-sized call payloads (\<open>lib/kumo-abi/src/call.rs\<close>): up to 32 bytes in four
  little-endian words. A fixed array \<open>[u64; 4]\<close> is a list of four words, an output slice is
  the list of its bytes.
\<close>

unbundle bit_operations_syntax

definition MAX_CALL_BYTES :: nat where "MAX_CALL_BYTES = 32"
definition CALL_WORDS :: nat where "CALL_WORDS = 4"
definition BYTES_PER_WORD :: nat where "BYTES_PER_WORD = 8"

fun pack_loop :: "nat \<Rightarrow> u8 list \<Rightarrow> u64 list \<Rightarrow> u64 list" where
  "pack_loop i [] words = words"
| "pack_loop i (b # bs) words =
     pack_loop (Suc i) bs
       (words[i div BYTES_PER_WORD :=
          words ! (i div BYTES_PER_WORD) OR push_bit (8 * (i mod BYTES_PER_WORD)) (ucast b)])"

definition pack_call_payload :: "u8 list \<Rightarrow> u64 list option" where
  "pack_call_payload bytes =
     (if MAX_CALL_BYTES < length bytes then None
      else Some (pack_loop 0 bytes (replicate CALL_WORDS 0)))"

definition call_byte :: "u64 list \<Rightarrow> nat \<Rightarrow> u8" where
  "call_byte words i = ucast (drop_bit (8 * (i mod BYTES_PER_WORD)) (words ! (i div BYTES_PER_WORD)))"

definition unpack_call_payload :: "u64 list \<Rightarrow> nat \<Rightarrow> u8 list \<Rightarrow> nat option \<times> u8 list" where
  "unpack_call_payload words len out =
     (if MAX_CALL_BYTES < len \<or> length out < len then (None, out)
      else (Some len, map (call_byte words) [0..<len] @ drop len out))"

section \<open>Lemmas\<close>

lemma length_pack_loop [simp]: "length (pack_loop i bs ws) = length ws"
  by (induction i bs ws rule: pack_loop.induct) auto

lemma call_byte_bit:
  "n < 8 \<Longrightarrow> bit (call_byte words i) n \<longleftrightarrow> bit (words ! (i div 8)) (8 * (i mod 8) + n)"
  by (auto simp: call_byte_def BYTES_PER_WORD_def bit_simps possible_bit_word add.commute)

lemma bit_pushed_byte:
  fixes b :: u8
  assumes "n < 8" and "x < 8"
  shows "bit (push_bit (8 * y) (ucast b :: u64)) (8 * x + n) \<longleftrightarrow> x = y \<and> bit b n"
proof -
  have out: "\<not> bit b m" if "8 \<le> m" for m using that by (auto dest: bit_imp_le_length)
  have "8 * x + n < 64" using assms by simp
  then have "bit (push_bit (8 * y) (ucast b :: u64)) (8 * x + n) \<longleftrightarrow>
      8 * y \<le> 8 * x + n \<and> bit b (8 * x + n - 8 * y)"
    using out by (auto simp: bit_simps possible_bit_word not_less)
  also have "\<dots> \<longleftrightarrow> x = y \<and> bit b n"
  proof (cases x y rule: linorder_cases)
    case greater
    then have "8 \<le> 8 * x + n - 8 * y" by simp
    with greater out show ?thesis by simp
  qed (use assms in simp_all)
  finally show ?thesis .
qed

text \<open>Setting byte \<open>i\<close> of a word array, seen through the bytes.\<close>

lemma call_byte_set:
  assumes "i div 8 < length ws" and "j div 8 < length ws"
  shows "call_byte (ws[i div 8 := ws ! (i div 8) OR push_bit (8 * (i mod 8)) (ucast (b :: u8))]) j =
    (if j = i then call_byte ws i OR b else call_byte ws j)"
proof (rule bit_eqI)
  fix n assume "possible_bit TYPE(u8) n"
  then have n: "n < 8" by simp
  have same: "j = i \<longleftrightarrow> j div 8 = i div 8 \<and> j mod 8 = i mod 8" by (metis div_mod_decomp)
  have "bit (call_byte (ws[i div 8 := ws ! (i div 8) OR push_bit (8 * (i mod 8)) (ucast b)]) j) n \<longleftrightarrow>
      (if j div 8 = i div 8 then bit (ws ! (j div 8)) (8 * (j mod 8) + n) \<or> j mod 8 = i mod 8 \<and> bit b n
       else bit (ws ! (j div 8)) (8 * (j mod 8) + n))"
    using n assms by (simp add: call_byte_bit bit_or_iff bit_pushed_byte)
  then show "bit (call_byte (ws[i div 8 := ws ! (i div 8) OR push_bit (8 * (i mod 8)) (ucast b)]) j) n =
      bit (if j = i then call_byte ws i OR b else call_byte ws j) n"
    using n same by (simp add: call_byte_bit bit_or_iff)
qed

lemma call_byte_pack_loop:
  assumes "i + length bs \<le> 8 * length ws" and "j < 8 * length ws"
    and "\<And>k. i \<le> k \<Longrightarrow> k < 8 * length ws \<Longrightarrow> call_byte ws k = 0"
  shows "call_byte (pack_loop i bs ws) j =
    (if i \<le> j \<and> j < i + length bs then bs ! (j - i) else call_byte ws j)"
  using assms
proof (induction bs arbitrary: i ws)
  case (Cons b bs)
  let ?ws = "ws[i div 8 := ws ! (i div 8) OR push_bit (8 * (i mod 8)) (ucast b)]"
  have i: "i div 8 < length ws" using Cons.prems(1) by (auto simp: div_less_iff_less_mult)
  have set: "call_byte ?ws k = (if k = i then b else call_byte ws k)" if "k < 8 * length ws" for k
    using call_byte_set [OF i, of k b] that Cons.prems(1,3) by (auto simp: div_less_iff_less_mult)
  have "call_byte (pack_loop (Suc i) bs ?ws) j =
      (if Suc i \<le> j \<and> j < Suc i + length bs then bs ! (j - Suc i) else call_byte ?ws j)"
    using Cons.prems set by (intro Cons.IH) auto
  then show ?case
    using set [OF Cons.prems(2)] by (auto simp: BYTES_PER_WORD_def nth_Cons' Suc_le_eq)
qed auto

section \<open>Properties\<close>

text \<open>
  C30: a call payload survives the registers. Packing accepts exactly the payloads of at most 32
  bytes, and unpacking the packed words with the payload's length into any buffer that is large
  enough writes back exactly the payload and leaves the rest of the buffer as it was.
\<close>

theorem call_payload_round_trip:
  "(pack_call_payload bytes = None \<longleftrightarrow> 32 < length bytes)
   \<and> (\<forall>words out. pack_call_payload bytes = Some words \<longrightarrow> length bytes \<le> length out \<longrightarrow>
        unpack_call_payload words (length bytes) out = (Some (length bytes), bytes @ drop (length bytes) out))"
proof -
  have "map (call_byte (pack_loop 0 bytes (replicate CALL_WORDS 0))) [0..<length bytes] = bytes"
    if "length bytes \<le> 32"
  proof (rule nth_equalityI)
    fix i assume "i < length (map (call_byte (pack_loop 0 bytes (replicate CALL_WORDS 0))) [0..<length bytes])"
    then have i: "i < length bytes" by simp
    have zero: "call_byte (replicate CALL_WORDS 0) k = 0" if "k < 32" for k
    proof -
      have "k div 8 < 4" using that by (simp add: div_less_iff_less_mult)
      then show ?thesis by (simp add: call_byte_def CALL_WORDS_def BYTES_PER_WORD_def)
    qed
    have "call_byte (pack_loop 0 bytes (replicate CALL_WORDS 0)) i =
        (if 0 \<le> i \<and> i < 0 + length bytes then bytes ! (i - 0) else call_byte (replicate CALL_WORDS 0) i)"
      using that i zero by (intro call_byte_pack_loop) (auto simp: CALL_WORDS_def)
    with i show "map (call_byte (pack_loop 0 bytes (replicate CALL_WORDS 0))) [0..<length bytes] ! i = bytes ! i"
      by simp
  qed simp
  then show ?thesis
    by (auto simp: pack_call_payload_def unpack_call_payload_def MAX_CALL_BYTES_def)
qed

theorem call_payload_round_trip_witness:
  "\<exists>words. pack_call_payload [1, 2, 255] = Some words
     \<and> unpack_call_payload words 3 [9, 9, 9, 9] = (Some 3, [1, 2, 255, 9])"
proof -
  obtain words where w: "pack_call_payload [1, 2, 255] = Some words"
    by (simp add: pack_call_payload_def MAX_CALL_BYTES_def)
  have "length [1, 2, 255 :: u8] \<le> length [9, 9, 9, 9 :: u8]" by simp
  with call_payload_round_trip [THEN conjunct2] w
  have "unpack_call_payload words (length [1, 2, 255 :: u8]) [9, 9, 9, 9] =
      (Some (length [1, 2, 255 :: u8]), [1, 2, 255] @ drop (length [1, 2, 255 :: u8]) [9, 9, 9, 9])"
    by blast
  with w show ?thesis by (simp add: numeral_3_eq_3)
qed

end
