(* ===== verification/Engine_State.thy ===== *)
theory Engine_State
  imports Ipc_Close Task Abi_Call
begin

text \<open>
  The state of the system-call engine (\<open>SyscallEngine\<close> of \<open>kernel/src/syscall.rs\<close>) as far as
  calls, channels, ports, timers, interrupts and resources use it: the records of the source,
  the engine with its initial value, and its process slots.

  The watches \<open>port_bindings\<close> and the queued device faults live in the engine's \<open>devices\<close>
  field; they are fields of the engine here. The calls the engine makes into the thread
  front end (\<open>crate::user_thread::wake_...\<close>) are recorded in order in \<open>en_wakes\<close>; the
  front end itself is not part of this model. \<open>[u64; 4]\<close> is a list of words.
\<close>

section \<open>Call records\<close>

fun errno_from_ipc :: "ipc_error \<Rightarrow> errno" where
  "errno_from_ipc IE_BadHandle = E_BadHandle"
| "errno_from_ipc IE_NotChannel = E_BadHandle"
| "errno_from_ipc IE_WrongType = E_WrongType"
| "errno_from_ipc IE_AccessDenied = E_AccessDenied"
| "errno_from_ipc IE_TableFull = E_NoMemory"
| "errno_from_ipc IE_TooManyBytes = E_InvalidArgs"
| "errno_from_ipc IE_TooManyHandles = E_InvalidArgs"
| "errno_from_ipc IE_ShouldWait = E_ShouldWait"
| "errno_from_ipc IE_PeerClosed = E_PeerClosed"

record call_donation =
  cd_from :: ko_id
  cd_to :: ko_id
  cd_priority :: u8

record call_ticket =
  ct_index :: nat
  ct_caller_end :: ko_id
  ct_peer_end :: ko_id
  ct_ordinal :: u32
  ct_served_by :: "ko_id option"

record call_delivery =
  dl_index :: nat
  dl_len :: nat
  dl_words :: "u64 list"

record call_wake =
  cw_caller_thread :: ko_id
  cw_caller_process :: ko_id
  cw_caller_is_sora :: bool
  cw_caller_end :: ko_id

record call_sweep =
  cs_child_callers :: "ko_id list"
  cs_sora_wake :: bool

datatype call_completion =
    CC_Pending
  | CC_Ready (cc_status: errno) (cc_len: nat) (cc_words: "u64 list") (cc_legacy_reply: bool) (cc_caller_end: ko_id)

record pending_call =
  pc_caller_end :: ko_id
  pc_peer_end :: ko_id
  pc_caller_thread :: ko_id
  pc_caller_process :: ko_id
  pc_caller_is_sora :: bool
  pc_ordinal :: u32
  pc_deadline_ns :: u64
  pc_payload_len :: nat
  pc_payload_words :: "u64 list"
  pc_completion :: "errno option"
  pc_reply_len :: nat
  pc_reply_words :: "u64 list"
  pc_legacy_reply :: bool
  pc_consumed :: bool
  pc_served_by :: "ko_id option"
  pc_donation :: "call_donation option"
  pc_caller_gone :: bool

section \<open>Bindings\<close>

datatype irq_state = Bound | MaskFailed | Released

record irq_binding =
  ib_references :: lineage
  ib_state :: irq_state
  ib_irq :: u32
  ib_koid :: ko_id
  ib_count :: u64
  ib_requires_complete :: bool
  ib_outstanding :: bool
  ib_stamp_ns :: u64
  ib_consumed_stamp_ns :: u64

record timer_binding =
  tb_koid :: ko_id
  tb_deadline_ns :: u64
  tb_fired :: bool

record device_ctx_fault =
  df_ctx_koid :: ko_id
  df_fault_record :: u64
  df_fault_addr :: u64

record resource_binding =
  rb_koid :: ko_id
  rb_phys_base :: u64
  rb_len :: u64
  rb_irq_base :: u32
  rb_irq_count :: u32

text \<open>Calls into the thread front end.\<close>

datatype user_wake =
    WakeChannel ko_id
  | WakeChannelForCall ko_id
  | WakePort ko_id
  | WakeInterrupt ko_id
  | WakeUser

section \<open>The engine\<close>

record engine =
  en_objects :: object_manager
  en_ipc :: ipc_registry
  en_processes :: "process option list"
  en_process_live :: nat
  en_interrupts :: "irq_binding list"
  en_timers :: "timer_binding list"
  en_resources :: "resource_binding list"
  en_port_bindings :: "(ko_id \<times> ko_id) list"
  en_device_ctx_faults :: "device_ctx_fault list"
  en_pending_calls :: "pending_call option list"
  en_next_call_ordinal :: u32
  en_wakes :: "user_wake list"

definition engine_new :: engine where
  "engine_new =
     \<lparr>en_objects = object_manager_new, en_ipc = ipc_registry_new, en_processes = [], en_process_live = 0,
      en_interrupts = [], en_timers = [], en_resources = [], en_port_bindings = [],
      en_device_ctx_faults = [], en_pending_calls = [], en_next_call_ordinal = 2, en_wakes = []\<rparr>"

definition log_wake :: "user_wake \<Rightarrow> engine \<Rightarrow> engine" where
  "log_wake w en = en\<lparr>en_wakes := en_wakes en @ [w]\<rparr>"

text \<open>The results of system calls.\<close>

datatype kernel_call_result =
    KR_Status int
  | KR_Handles handle handle
  | KR_Handle handle
  | KR_HandleAndValue handle u64
  | KR_StatusAndValue int u64
  | KR_Message kernel_message
  | KR_PortPacket port_packet
  | KR_CallInstalled call_ticket
  | KR_CallReplied call_wake

section \<open>Process slots\<close>

abbreviation process_koid :: "process \<Rightarrow> ko_id" where
  "process_koid p \<equiv> ko_koid (pr_object p)"

definition process_by_koid :: "engine \<Rightarrow> ko_id \<Rightarrow> process option" where
  "process_by_koid en koid = find (\<lambda>p. process_koid p = koid) (List.map_filter id (en_processes en))"

definition install_process :: "engine \<Rightarrow> process \<Rightarrow> engine" where
  "install_process en p =
     (case find_index (\<lambda>s. s = None) (en_processes en) of
        Some i \<Rightarrow> en\<lparr>en_processes := (en_processes en)[i := Some p], en_process_live := en_process_live en + 1\<rparr>
      | None \<Rightarrow> en\<lparr>en_processes := en_processes en @ [Some p], en_process_live := en_process_live en + 1\<rparr>)"

text \<open>\<open>while v.last().is_some_and(is_none) { v.pop(); }\<close>\<close>

definition pop_trailing :: "'a option list \<Rightarrow> 'a option list" where
  "pop_trailing xs = rev (dropWhile (\<lambda>s. s = None) (rev xs))"

definition clear_process_slot :: "engine \<Rightarrow> ko_id \<Rightarrow> bool \<times> engine" where
  "clear_process_slot en koid =
     (case find_index (\<lambda>s. case s of None \<Rightarrow> False | Some p \<Rightarrow> process_koid p = koid) (en_processes en) of
        None \<Rightarrow> (False, en)
      | Some i \<Rightarrow>
          let live = en_process_live en - 1;
              slots = pop_trailing ((en_processes en)[i := None])
          in (True, en\<lparr>en_process_live := live,
                       en_processes := (if live * 2 + 8 < length slots then filter (\<lambda>s. s \<noteq> None) slots
                                        else slots)\<rparr>))"

end
