(* ===== verification/Engine_Calls.thy ===== *)
theory Engine_Calls
  imports Engine_State
begin

text \<open>
  Synchronous calls (the AX2 call records of \<open>kernel/src/syscall.rs\<close>): beginning a call,
  its delivery to a server, the reply, deadlines, closed endpoints, dead callers, replies by
  plain writes, and the caller's resumption. The process is its handle table.
\<close>

section \<open>Slots and ordinals\<close>

definition call_slot :: "engine \<Rightarrow> nat \<Rightarrow> pending_call option" where
  "call_slot en i = (if i < length (en_pending_calls en) then en_pending_calls en ! i else None)"

text \<open>\<open>pending_calls.iter().flatten()\<close>.\<close>

definition live_calls :: "engine \<Rightarrow> pending_call list" where
  "live_calls en = List.map_filter id (en_pending_calls en)"

definition set_call :: "engine \<Rightarrow> nat \<Rightarrow> pending_call option \<Rightarrow> engine" where
  "set_call en i c = en\<lparr>en_pending_calls := (en_pending_calls en)[i := c]\<rparr>"

section \<open>Beginning a call\<close>

definition call_ordinal_used :: "engine \<Rightarrow> ko_id \<Rightarrow> u32 \<Rightarrow> bool" where
  "call_ordinal_used en caller_end ordinal =
     list_ex (\<lambda>c. pc_caller_end c = caller_end \<and> pc_ordinal c = ordinal) (live_calls en)"

definition thread_has_outstanding_call :: "engine \<Rightarrow> ko_id \<Rightarrow> bool" where
  "thread_has_outstanding_call en thread =
     list_ex (\<lambda>c. pc_caller_thread c = thread \<and> pc_completion c = None \<and> \<not> pc_caller_gone c) (live_calls en)"

definition thread_is_serving_call :: "engine \<Rightarrow> ko_id \<Rightarrow> bool" where
  "thread_is_serving_call en thread =
     list_ex (\<lambda>c. pc_served_by c = Some thread \<and> pc_consumed c \<and> pc_completion c = None
                \<and> \<not> pc_caller_gone c) (live_calls en)"

definition next_ordinal :: "u32 \<Rightarrow> u32" where
  "next_ordinal ordinal = (if ordinal = -1 then 2 else max (saturating_add ordinal 1) 2)"

text \<open>The search loops for ever when every ordinal is taken; \<open>None\<close> is not returning.\<close>

partial_function (option) allocate_call_ordinal :: "engine \<Rightarrow> ko_id \<Rightarrow> (u32 \<times> engine) option" where
  "allocate_call_ordinal en caller_end =
     (let ordinal = en_next_call_ordinal en;
          en' = en\<lparr>en_next_call_ordinal := next_ordinal ordinal\<rparr>
      in if \<not> call_ordinal_used en' caller_end ordinal then Some (ordinal, en')
         else allocate_call_ordinal en' caller_end)"

definition place_call :: "pending_call option list \<Rightarrow> pending_call \<Rightarrow> nat \<times> pending_call option list" where
  "place_call calls c =
     (case find_index (\<lambda>s. s = None) calls of
        Some index \<Rightarrow> (index, calls[index := Some c])
      | None \<Rightarrow> (length calls, calls @ [Some c]))"

definition choose_ordinal :: "engine \<Rightarrow> ko_id \<Rightarrow> u32 option \<Rightarrow> ((errno + u32) \<times> engine) option" where
  "choose_ordinal en end_koid forced =
     (case forced of
        Some ordinal \<Rightarrow>
          if ordinal < 2 \<or> call_ordinal_used en end_koid ordinal then Some (Inl E_InvalidArgs, en)
          else Some (Inr ordinal, en)
      | None \<Rightarrow> map_option (\<lambda>(ordinal, en'). (Inr ordinal, en')) (allocate_call_ordinal en end_koid))"

definition record_call ::
  "engine \<Rightarrow> channel_endpoints \<Rightarrow> u32 \<Rightarrow> ko_id \<Rightarrow> ko_id \<Rightarrow> bool \<Rightarrow> u64 \<Rightarrow> nat \<Rightarrow> u64 list \<Rightarrow> ko_id option
     \<Rightarrow> (errno + call_ticket) \<times> engine" where
  "record_call en endpoints ordinal caller_thread caller_process caller_is_sora deadline_ns payload_len payload served_by =
     (case unpack_call_payload payload payload_len (replicate payload_len 0) of
        (None, _) \<Rightarrow> (Inl E_InvalidArgs, en)
      | (Some _, bytes) \<Rightarrow>
          (case kernel_message_call ordinal bytes [] of
             Inl e \<Rightarrow> (Inl (errno_from_ipc e), en)
           | Inr request \<Rightarrow>
               (case install_call (en_ipc en) (ce_end_koid endpoints) request of
                  (Inl e, reg) \<Rightarrow> (Inl (errno_from_ipc e), en\<lparr>en_ipc := reg\<rparr>)
                | (Inr _, reg) \<Rightarrow>
                    let c = \<lparr>pc_caller_end = ce_end_koid endpoints, pc_peer_end = ce_peer_koid endpoints,
                          pc_caller_thread = caller_thread, pc_caller_process = caller_process,
                          pc_caller_is_sora = caller_is_sora, pc_ordinal = ordinal,
                          pc_deadline_ns = deadline_ns, pc_payload_len = payload_len,
                          pc_payload_words = payload, pc_completion = None, pc_reply_len = 0,
                          pc_reply_words = replicate 4 0, pc_legacy_reply = False, pc_consumed = False,
                          pc_served_by = served_by, pc_donation = None, pc_caller_gone = False\<rparr>;
                        (index, calls) = place_call (en_pending_calls en) c
                    in (Inr \<lparr>ct_index = index, ct_caller_end = ce_end_koid endpoints,
                             ct_peer_end = ce_peer_koid endpoints, ct_ordinal = ordinal,
                             ct_served_by = served_by\<rparr>,
                        en\<lparr>en_ipc := reg, en_pending_calls := calls\<rparr>))))"

definition begin_channel_call_with_ordinal ::
  "engine \<Rightarrow> handle_table \<Rightarrow> handle \<Rightarrow> ko_id \<Rightarrow> ko_id \<Rightarrow> bool \<Rightarrow> u64 \<Rightarrow> nat \<Rightarrow> u64 list \<Rightarrow> ko_id option
     \<Rightarrow> u32 option \<Rightarrow> ((errno + call_ticket) \<times> engine) option" where
  "begin_channel_call_with_ordinal en t channel caller_thread caller_process caller_is_sora deadline_ns
     payload_len payload served_by forced_ordinal =
     (if MAX_CALL_BYTES < payload_len then Some (Inl E_InvalidArgs, en)
      else case require t channel Channel (or RIGHT_READ RIGHT_WRITE) of
        Inl e \<Rightarrow> Some (Inl (errno_from_object e), en)
      | Inr channel_entry \<Rightarrow>
          (case endpoints_for (en_ipc en) (he_koid channel_entry) of
             Inl e \<Rightarrow> Some (Inl (errno_from_ipc e), en)
           | Inr endpoints \<Rightarrow>
               if ce_peer_kernel_retained endpoints \<or> holds t (ce_peer_koid endpoints) Channel 0
               then Some (Inl E_InvalidArgs, en)
               else if thread_has_outstanding_call en caller_thread \<or> thread_is_serving_call en caller_thread
               then Some (Inl E_InvalidArgs, en)
               else case choose_ordinal en (ce_end_koid endpoints) forced_ordinal of
                 None \<Rightarrow> None
               | Some (Inl e, en1) \<Rightarrow> Some (Inl e, en1)
               | Some (Inr ordinal, en1) \<Rightarrow>
                   Some (record_call en1 endpoints ordinal caller_thread caller_process caller_is_sora deadline_ns
                           payload_len payload served_by)))"

text \<open>
  A begin ends early with the engine unchanged, with the error of the ordinal, or in
  \<open>record_call\<close>.
\<close>

lemma begin_cases:
  assumes "begin_channel_call_with_ordinal en t h th p sora dl len ws sb forced = Some (r, en')"
  obtains (early) e where "r = Inl e" "en' = en"
  | (ordinal) e k where "r = Inl e" "choose_ordinal en k forced = Some (Inl e, en')"
  | (recorded) k ep ordinal en1 where "endpoints_for (en_ipc en) k = Inr ep"
      "choose_ordinal en (ce_end_koid ep) forced = Some (Inr ordinal, en1)"
      "record_call en1 ep ordinal th p sora dl len ws sb = (r, en')"
proof -
  have "(\<exists>e. r = Inl e \<and> en' = en) \<or> (\<exists>e k. r = Inl e \<and> choose_ordinal en k forced = Some (Inl e, en'))
    \<or> (\<exists>k ep ordinal en1. endpoints_for (en_ipc en) k = Inr ep
        \<and> choose_ordinal en (ce_end_koid ep) forced = Some (Inr ordinal, en1)
        \<and> record_call en1 ep ordinal th p sora dl len ws sb = (r, en'))"
    using assms unfolding begin_channel_call_with_ordinal_def
    by (auto split: if_splits sum.splits option.splits)
  then show thesis using that by blast
qed

lemma record_call_cases:
  assumes "record_call en ep ordinal th p sora dl len ws sb = (r, en')"
  obtains (refused) e where "r = Inl e" "en' = en"
  | (error) m x reg e where "install_call (en_ipc en) (ce_end_koid ep) m = (Inl x, reg)" "r = Inl e" "en' = en\<lparr>en_ipc := reg\<rparr>"
  | (ok) m z reg c i calls where "install_call (en_ipc en) (ce_end_koid ep) m = (Inr z, reg)"
      "place_call (en_pending_calls en) c = (i, calls)" "en' = en\<lparr>en_ipc := reg, en_pending_calls := calls\<rparr>"
      "r = Inr \<lparr>ct_index = i, ct_caller_end = ce_end_koid ep, ct_peer_end = ce_peer_koid ep, ct_ordinal = ordinal,
                ct_served_by = sb\<rparr>"
      "pc_completion c = None" "\<not> pc_caller_gone c" "\<not> pc_consumed c" "pc_caller_thread c = th"
      "pc_caller_end c = ce_end_koid ep" "pc_peer_end c = ce_peer_koid ep" "pc_ordinal c = ordinal"
proof -
  let ?c = "\<lparr>pc_caller_end = ce_end_koid ep, pc_peer_end = ce_peer_koid ep, pc_caller_thread = th,
      pc_caller_process = p, pc_caller_is_sora = sora, pc_ordinal = ordinal, pc_deadline_ns = dl,
      pc_payload_len = len, pc_payload_words = ws, pc_completion = None, pc_reply_len = 0,
      pc_reply_words = replicate 4 0, pc_legacy_reply = False, pc_consumed = False,
      pc_served_by = sb, pc_donation = None, pc_caller_gone = False\<rparr>"
  have "(\<exists>e. r = Inl e \<and> en' = en)
    \<or> (\<exists>m x reg e. install_call (en_ipc en) (ce_end_koid ep) m = (Inl x, reg) \<and> r = Inl e \<and> en' = en\<lparr>en_ipc := reg\<rparr>)
    \<or> (\<exists>m z reg i calls. install_call (en_ipc en) (ce_end_koid ep) m = (Inr z, reg)
        \<and> place_call (en_pending_calls en) ?c = (i, calls) \<and> en' = en\<lparr>en_ipc := reg, en_pending_calls := calls\<rparr>
        \<and> r = Inr \<lparr>ct_index = i, ct_caller_end = ce_end_koid ep, ct_peer_end = ce_peer_koid ep, ct_ordinal = ordinal,
                ct_served_by = sb\<rparr>)"
    using assms unfolding record_call_def by (auto simp: Let_def split: option.splits sum.splits prod.splits) blast
  then show thesis
  proof (elim disjE exE conjE)
    fix m z reg i calls
    assume "install_call (en_ipc en) (ce_end_koid ep) m = (Inr z, reg)"
      "place_call (en_pending_calls en) ?c = (i, calls)" "en' = en\<lparr>en_ipc := reg, en_pending_calls := calls\<rparr>"
      "r = Inr \<lparr>ct_index = i, ct_caller_end = ce_end_koid ep, ct_peer_end = ce_peer_koid ep, ct_ordinal = ordinal,
                ct_served_by = sb\<rparr>"
    from ok [OF this] show thesis by simp
  qed (use refused error in blast)+
qed

definition begin_channel_call ::
  "engine \<Rightarrow> handle_table \<Rightarrow> handle \<Rightarrow> ko_id \<Rightarrow> ko_id \<Rightarrow> bool \<Rightarrow> u64 \<Rightarrow> nat \<Rightarrow> u64 list \<Rightarrow> ko_id option
     \<Rightarrow> ((errno + call_ticket) \<times> engine) option" where
  "begin_channel_call en t channel caller_thread caller_process caller_is_sora deadline_ns payload_len payload served_by =
     begin_channel_call_with_ordinal en t channel caller_thread caller_process caller_is_sora deadline_ns
       payload_len payload served_by None"

section \<open>Delivery, completion and resumption\<close>

definition note_call_read ::
  "engine \<Rightarrow> handle_table \<Rightarrow> handle \<Rightarrow> kernel_message \<Rightarrow> ko_id \<Rightarrow> call_delivery option \<times> engine" where
  "note_call_read en t channel m reader_thread =
     (if and (mh_flags (km_header m)) FLAG_EXPECTS_REPLY = 0 then (None, en)
      else case get t channel of
        Inl _ \<Rightarrow> (None, en)
      | Inr entry \<Rightarrow>
          (case endpoints_for (en_ipc en) (he_koid entry) of
             Inl _ \<Rightarrow> (None, en)
           | Inr endpoints \<Rightarrow>
               (case find_index (\<lambda>s. case s of None \<Rightarrow> False | Some c \<Rightarrow>
                        pc_caller_end c = ce_peer_koid endpoints \<and> pc_peer_end c = ce_end_koid endpoints
                        \<and> pc_ordinal c = mh_ordinal (km_header m) \<and> pc_completion c = None
                        \<and> \<not> pc_caller_gone c \<and> \<not> pc_consumed c) (en_pending_calls en) of
                  None \<Rightarrow> (None, en)
                | Some index \<Rightarrow>
                    (case en_pending_calls en ! index of
                       None \<Rightarrow> (None, en)
                     | Some c \<Rightarrow>
                         (Some \<lparr>dl_index = index, dl_len = pc_payload_len c, dl_words = pc_payload_words c\<rparr>,
                          set_call en index (Some (c\<lparr>pc_consumed := True, pc_served_by := Some reader_thread\<rparr>)))))))"

definition take_call_completion :: "engine \<Rightarrow> nat \<Rightarrow> ko_id \<Rightarrow> call_completion \<times> engine" where
  "take_call_completion en index caller_thread =
     (case call_slot en index of
        None \<Rightarrow> (CC_Pending, en)
      | Some c \<Rightarrow>
          if pc_caller_thread c \<noteq> caller_thread then (CC_Pending, en)
          else case pc_completion c of
                 None \<Rightarrow> (CC_Pending, en)
               | Some status \<Rightarrow>
                   (CC_Ready status (pc_reply_len c) (pc_reply_words c) (pc_legacy_reply c) (pc_caller_end c),
                    set_call en index None))"

definition wake_of :: "pending_call \<Rightarrow> call_wake" where
  "wake_of c =
     \<lparr>cw_caller_thread = pc_caller_thread c, cw_caller_process = pc_caller_process c,
      cw_caller_is_sora = pc_caller_is_sora c, cw_caller_end = pc_caller_end c\<rparr>"

definition complete_call ::
  "engine \<Rightarrow> nat \<Rightarrow> errno \<Rightarrow> nat \<Rightarrow> u64 list \<Rightarrow> bool \<Rightarrow> call_wake option \<times> engine" where
  "complete_call en index status len words legacy_reply =
     (case call_slot en index of
        None \<Rightarrow> (None, en)
      | Some c \<Rightarrow>
          if pc_completion c \<noteq> None \<or> pc_caller_gone c then (None, en)
          else (Some (wake_of c),
                set_call en index (Some (c\<lparr>pc_completion := Some status, pc_reply_len := len,
                                           pc_reply_words := words, pc_legacy_reply := legacy_reply\<rparr>))))"

definition channel_reply :: "engine \<Rightarrow> nat \<Rightarrow> ko_id \<Rightarrow> nat \<Rightarrow> u64 list \<Rightarrow> (errno + call_wake) \<times> engine" where
  "channel_reply en index server_thread payload_len payload =
     (if MAX_CALL_BYTES < payload_len then (Inl E_InvalidArgs, en)
      else case call_slot en index of
        None \<Rightarrow> (Inl E_BadState, en)
      | Some c \<Rightarrow>
          if pc_served_by c \<noteq> Some server_thread \<or> \<not> pc_consumed c \<or> pc_caller_gone c \<or> pc_completion c \<noteq> None
          then (Inl E_BadState, en)
          else case complete_call en index E_Ok payload_len payload False of
                 (None, en') \<Rightarrow> (Inl E_BadState, en')
               | (Some wake, en') \<Rightarrow> (Inr wake, en'))"

definition note_call_donation :: "engine \<Rightarrow> nat \<Rightarrow> call_donation \<Rightarrow> engine" where
  "note_call_donation en index donation =
     (case call_slot en index of
        None \<Rightarrow> en
      | Some c \<Rightarrow> set_call en index (Some (c\<lparr>pc_donation := Some donation\<rparr>)))"

text \<open>
  The two sweeps walk the slots by index and complete the ones that match.
\<close>

fun complete_where ::
  "(pending_call \<Rightarrow> bool) \<Rightarrow> errno \<Rightarrow> engine \<Rightarrow> nat list \<Rightarrow> call_wake list \<times> engine" where
  "complete_where due status en [] = ([], en)"
| "complete_where due status en (index # rest) =
     (if (case call_slot en index of None \<Rightarrow> False
          | Some c \<Rightarrow> pc_completion c = None \<and> \<not> pc_caller_gone c \<and> due c)
      then (case complete_call en index status 0 (replicate 4 0) False of
              (w, en') \<Rightarrow>
                (case complete_where due status en' rest of
                   (ws, z) \<Rightarrow> ((case w of None \<Rightarrow> ws | Some wake \<Rightarrow> wake # ws), z)))
      else complete_where due status en rest)"

definition sweep_pending_calls :: "engine \<Rightarrow> u64 \<Rightarrow> call_sweep \<times> engine" where
  "sweep_pending_calls en now_ns =
     (case complete_where (\<lambda>c. pc_deadline_ns c \<noteq> 0 \<and> pc_deadline_ns c \<le> now_ns) E_TimedOut en
             [0..<length (en_pending_calls en)] of
        (wakes, en') \<Rightarrow>
          (\<lparr>cs_child_callers = map cw_caller_end (filter (\<lambda>w. \<not> cw_caller_is_sora w) wakes),
            cs_sora_wake = list_ex cw_caller_is_sora wakes\<rparr>, en'))"

definition complete_calls_on_endpoint_closed :: "engine \<Rightarrow> ko_id \<Rightarrow> call_wake list \<times> engine" where
  "complete_calls_on_endpoint_closed en koid =
     complete_where (\<lambda>c. pc_caller_end c = koid \<or> pc_peer_end c = koid) E_PeerClosed en
       [0..<length (en_pending_calls en)]"

definition abandon_slot :: "ko_id \<Rightarrow> pending_call \<Rightarrow> pending_call" where
  "abandon_slot p c =
     (if pc_caller_process c = p \<and> \<not> pc_caller_gone c
      then c\<lparr>pc_caller_gone := True,
             pc_completion := (if pc_completion c = None then Some E_PeerClosed else pc_completion c)\<rparr>
      else c)"

definition abandon_calls_for_process :: "engine \<Rightarrow> ko_id \<Rightarrow> nat \<times> engine" where
  "abandon_calls_for_process en p =
     (length (filter (\<lambda>c. pc_caller_process c = p \<and> \<not> pc_caller_gone c) (live_calls en)),
      en\<lparr>en_pending_calls := map (map_option (abandon_slot p)) (en_pending_calls en)\<rparr>)"

fun legacy_scan :: "(pending_call \<Rightarrow> bool) \<Rightarrow> nat \<Rightarrow> pending_call option list \<Rightarrow> nat option \<Rightarrow> nat option" where
  "legacy_scan P index [] found = found"
| "legacy_scan P index (s # ss) found =
     (case s of
        None \<Rightarrow> legacy_scan P (Suc index) ss found
      | Some c \<Rightarrow>
          if P c then (if found \<noteq> None then None else legacy_scan P (Suc index) ss (Some index))
          else legacy_scan P (Suc index) ss found)"

definition legacy_reply_candidate :: "engine \<Rightarrow> ko_id \<Rightarrow> nat option" where
  "legacy_reply_candidate en sender_end =
     (case endpoints_for (en_ipc en) sender_end of
        Inl _ \<Rightarrow> None
      | Inr endpoints \<Rightarrow>
          legacy_scan (\<lambda>c. pc_caller_end c = ce_peer_koid endpoints \<and> pc_peer_end c = ce_end_koid endpoints
                         \<and> pc_completion c = None \<and> \<not> pc_caller_gone c) 0 (en_pending_calls en) None)"

definition complete_legacy_reply :: "engine \<Rightarrow> nat \<Rightarrow> u8 list \<Rightarrow> call_wake option \<times> engine" where
  "complete_legacy_reply en index bytes =
     (if MAX_CALL_BYTES < length bytes then (None, en)
      else case pack_call_payload bytes of
             None \<Rightarrow> (None, en)
           | Some words \<Rightarrow> complete_call en index E_Ok (length bytes) words True)"

definition pop_legacy_reply :: "engine \<Rightarrow> ko_id \<Rightarrow> nat \<Rightarrow> u64 list \<Rightarrow> engine" where
  "pop_legacy_reply en caller_end len words =
     (if MAX_CALL_BYTES < len then en
      else case unpack_call_payload words len (replicate len 0) of
             (None, _) \<Rightarrow> en
           | (Some _, bytes) \<Rightarrow> en\<lparr>en_ipc := snd (remove_message_with_bytes (en_ipc en) caller_end bytes)\<rparr>)"

section \<open>Slots\<close>

text \<open>
  Every operation is described by what it does to each slot. A call is open from
  \<open>begin_channel_call\<close> until its completion or the death of its caller.
\<close>

definition open_call :: "pending_call \<Rightarrow> bool" where
  "open_call c \<longleftrightarrow> pc_completion c = None \<and> \<not> pc_caller_gone c"

definition finish :: "errno \<Rightarrow> nat \<Rightarrow> u64 list \<Rightarrow> bool \<Rightarrow> pending_call \<Rightarrow> pending_call" where
  "finish status len words legacy c =
     c\<lparr>pc_completion := Some status, pc_reply_len := len, pc_reply_words := words, pc_legacy_reply := legacy\<rparr>"

lemma call_slot_set_call [simp]:
  "call_slot (set_call en i s) j = (if j = i \<and> i < length (en_pending_calls en) then s else call_slot en j)"
  by (auto simp: call_slot_def set_call_def)

lemma length_set_call [simp]: "length (en_pending_calls (set_call en i s)) = length (en_pending_calls en)"
  by (simp add: set_call_def)

lemma set_call_frame [simp]:
  "en_objects (set_call en i s) = en_objects en" "en_ipc (set_call en i s) = en_ipc en"
  "en_port_bindings (set_call en i s) = en_port_bindings en" "en_timers (set_call en i s) = en_timers en"
  "en_next_call_ordinal (set_call en i s) = en_next_call_ordinal en"
  by (simp_all add: set_call_def)

lemma call_slot_bound: "call_slot en i = Some c \<Longrightarrow> i < length (en_pending_calls en)"
  by (auto simp: call_slot_def split: if_splits)

lemma call_slot_cong: "en_pending_calls en = en_pending_calls en' \<Longrightarrow> call_slot en = call_slot en'"
  by (simp add: call_slot_def fun_eq_iff)

lemma live_calls_slot: "c \<in> set (live_calls en) \<longleftrightarrow> (\<exists>i. call_slot en i = Some c)"
proof -
  have "set (live_calls en) = {c. Some c \<in> set (en_pending_calls en)}"
    by (force simp: live_calls_def List.map_filter_def)
  then show ?thesis by (auto simp: call_slot_def in_set_conv_nth split: if_splits)
qed

lemma length_live_calls: "length (live_calls en) \<le> length (en_pending_calls en)"
  unfolding live_calls_def map_filter_def by (simp add: length_filter_le)

lemma complete_call_slot:
  "complete_call en i status len words legacy =
     (case call_slot en i of
        Some c \<Rightarrow> if open_call c then (Some (wake_of c), set_call en i (Some (finish status len words legacy c)))
                  else (None, en)
      | None \<Rightarrow> (None, en))"
  by (auto simp: complete_call_def open_call_def finish_def split: option.splits)

text \<open>A sweep completes exactly the open calls that are due, in index order.\<close>

definition due_slot :: "(pending_call \<Rightarrow> bool) \<Rightarrow> engine \<Rightarrow> nat \<Rightarrow> bool" where
  "due_slot due en i = (case call_slot en i of None \<Rightarrow> False | Some c \<Rightarrow> open_call c \<and> due c)"

lemma complete_where_slots:
  assumes "distinct is" and "complete_where due status en is = (wakes, en')"
  shows "wakes = map (\<lambda>i. wake_of (the (call_slot en i))) (filter (due_slot due en) is)"
    and "call_slot en' j = (if j \<in> set is \<and> due_slot due en j
           then map_option (finish status 0 (replicate 4 0) False) (call_slot en j) else call_slot en j)"
    and "length (en_pending_calls en') = length (en_pending_calls en)"
    and "en_ipc en' = en_ipc en" and "en_next_call_ordinal en' = en_next_call_ordinal en"
proof -
  have "wakes = map (\<lambda>i. wake_of (the (call_slot en i))) (filter (due_slot due en) is)
    \<and> (\<forall>j. call_slot en' j = (if j \<in> set is \<and> due_slot due en j
           then map_option (finish status 0 (replicate 4 0) False) (call_slot en j) else call_slot en j))
    \<and> length (en_pending_calls en') = length (en_pending_calls en)
    \<and> en_ipc en' = en_ipc en \<and> en_next_call_ordinal en' = en_next_call_ordinal en"
    using assms
  proof (induction "is" arbitrary: en wakes)
    case Nil
    then show ?case by simp
  next
    case (Cons i "is")
    show ?case
    proof (cases "due_slot due en i")
      case False
      then have "complete_where due status en is = (wakes, en')"
        using Cons.prems(2) by (auto simp: due_slot_def open_call_def split: option.splits if_splits)
      from Cons.IH [OF _ this] Cons.prems(1) False show ?thesis by auto
    next
      case True
      then obtain c where c: "call_slot en i = Some c" "open_call c" "due c"
        by (auto simp: due_slot_def split: option.splits)
      let ?en = "set_call en i (Some (finish status 0 (replicate 4 0) False c))"
      obtain ws where ws: "complete_where due status ?en is = (ws, en')" "wakes = wake_of c # ws"
        using Cons.prems(2) c by (auto simp: complete_call_slot open_call_def split: prod.splits)
      have same: "j \<noteq> i \<Longrightarrow> due_slot due ?en j = due_slot due en j" for j
        by (simp add: due_slot_def)
      have "filter (due_slot due ?en) is = filter (due_slot due en) is"
        using Cons.prems(1) same by (intro filter_cong refl same) auto
      moreover have "map (\<lambda>j. wake_of (the (call_slot ?en j))) (filter (due_slot due en) is) =
          map (\<lambda>j. wake_of (the (call_slot en j))) (filter (due_slot due en) is)"
        using Cons.prems(1) by (intro map_cong) auto
      ultimately show ?thesis
        using Cons.IH [OF _ ws(1)] Cons.prems(1) c ws(2) True same call_slot_bound [OF c(1)] by auto
    qed
  qed
  then show "wakes = map (\<lambda>i. wake_of (the (call_slot en i))) (filter (due_slot due en) is)"
    and "call_slot en' j = (if j \<in> set is \<and> due_slot due en j
           then map_option (finish status 0 (replicate 4 0) False) (call_slot en j) else call_slot en j)"
    and "length (en_pending_calls en') = length (en_pending_calls en)"
    and "en_ipc en' = en_ipc en" and "en_next_call_ordinal en' = en_next_call_ordinal en"
    by blast+
qed

lemma place_call_slot:
  assumes "place_call (en_pending_calls en) c = (i, calls)"
  shows "call_slot en i = None"
    and "call_slot (en\<lparr>en_pending_calls := calls\<rparr>) = (call_slot en)(i := Some c)"
proof -
  have empty: "call_slot en i = None" if "find_index (\<lambda>s. s = None) (en_pending_calls en) = Some i"
    using that by (auto simp: find_index_Some_iff call_slot_def)
  show "call_slot en i = None"
    using assms empty by (auto simp: place_call_def call_slot_def split: option.splits)
  show "call_slot (en\<lparr>en_pending_calls := calls\<rparr>) = (call_slot en)(i := Some c)"
  proof (cases "find_index (\<lambda>s. s = None) (en_pending_calls en)")
    case None
    with assms show ?thesis by (auto simp: place_call_def call_slot_def fun_eq_iff nth_append)
  next
    case (Some k)
    then have "k < length (en_pending_calls en)" by (simp add: find_index_Some_iff)
    with Some assms show ?thesis by (auto simp: place_call_def call_slot_def fun_eq_iff)
  qed
qed

lemma abandon_slots:
  "call_slot (snd (abandon_calls_for_process en p)) i = map_option (abandon_slot p) (call_slot en i)"
  by (simp add: abandon_calls_for_process_def call_slot_def)

section \<open>Ordinals\<close>

lemma unat_next_ordinal:
  "2 \<le> unat n \<Longrightarrow> unat (next_ordinal n) = (if unat n = 4294967295 then 2 else Suc (unat n))" for n :: u32
proof (cases "n = -1")
  case True
  then have "unat n = 4294967295" using unat_max_word [where 'a = 32] by simp
  with True show ?thesis by (simp add: next_ordinal_def)
next
  case False
  assume two: "2 \<le> unat n"
  have ne: "unat n \<noteq> 4294967295" using False by (auto simp: word_unat_eq_iff unat_max_word)
  have "unat (saturating_add n 1) = Suc (unat n)"
    using ne unsigned_less [of n, where 'a = nat] by (simp add: unat_saturating_add)
  with two have "2 \<le> saturating_add n 1" by (simp add: word_le_nat_alt)
  with ne False \<open>unat (saturating_add n 1) = Suc (unat n)\<close> show ?thesis
    by (simp add: next_ordinal_def max_def)
qed

text \<open>How many ordinals the search tries before it reaches \<open>f\<close>.\<close>

definition ordinal_distance :: "nat \<Rightarrow> nat \<Rightarrow> nat" where
  "ordinal_distance f n = (if n \<le> f then f - n else 4294967296 - n + f)"

lemma call_ordinal_used_next [simp]:
  "call_ordinal_used (en\<lparr>en_next_call_ordinal := n\<rparr>) = call_ordinal_used en"
  by (simp add: call_ordinal_used_def live_calls_def fun_eq_iff)

lemma allocate_call_ordinal_finds:
  assumes "2 \<le> unat f" and "\<not> call_ordinal_used en k f" and "2 \<le> unat (en_next_call_ordinal en)"
  shows "\<exists>ordinal n. allocate_call_ordinal en k = Some (ordinal, en\<lparr>en_next_call_ordinal := n\<rparr>)
    \<and> 2 \<le> unat ordinal \<and> 2 \<le> unat n \<and> \<not> call_ordinal_used en k ordinal"
  using assms(2,3)
proof (induction "ordinal_distance (unat f) (unat (en_next_call_ordinal en))" arbitrary: en rule: less_induct)
  case less
  let ?o = "en_next_call_ordinal en"
  let ?en = "en\<lparr>en_next_call_ordinal := next_ordinal ?o\<rparr>"
  have two: "2 \<le> unat (next_ordinal ?o)" using unat_next_ordinal [OF less.prems(2)] less.prems(2) by (simp split: if_splits)
  show ?case
  proof (cases "call_ordinal_used en k ?o")
    case False
    then have "allocate_call_ordinal en k = Some (?o, ?en)"
      by (subst allocate_call_ordinal.simps) (simp add: Let_def)
    with False two less.prems(2) show ?thesis by blast
  next
    case True
    then have ne: "unat f \<noteq> unat ?o" using less.prems(1) by (metis word_unat_eq_iff)
    have "allocate_call_ordinal en k = allocate_call_ordinal ?en k"
      using True by (subst allocate_call_ordinal.simps) (simp add: Let_def)
    moreover have "ordinal_distance (unat f) (unat (next_ordinal ?o)) < ordinal_distance (unat f) (unat ?o)"
      using ne unat_next_ordinal [OF less.prems(2)] assms(1) unsigned_less [of ?o, where 'a = nat] unsigned_less [of f, where 'a = nat]
      by (auto simp: ordinal_distance_def)
    ultimately show ?thesis using less.hyps [of ?en] less.prems two by auto
  qed
qed

lemma free_ordinal_exists:
  assumes "length (en_pending_calls en) < 4294967294"
  shows "\<exists>f. 2 \<le> unat f \<and> \<not> call_ordinal_used en k f"
proof (rule ccontr)
  assume "\<not> ?thesis"
  then have all: "call_ordinal_used en k f" if "2 \<le> unat f" for f using that by blast
  have "{2 ..< 4294967296} \<subseteq> (\<lambda>c. unat (pc_ordinal c)) ` set (live_calls en)"
  proof
    fix n :: nat assume n: "n \<in> {2 ..< 4294967296}"
    then have un: "unat (word_of_nat n :: u32) = n" by (simp add: unat_of_nat)
    with all [of "word_of_nat n"] n obtain c where "c \<in> set (live_calls en)" "pc_ordinal c = word_of_nat n"
      by (auto simp: call_ordinal_used_def list_ex_iff)
    with un show "n \<in> (\<lambda>c. unat (pc_ordinal c)) ` set (live_calls en)" by force
  qed
  then have "card {2 ..< 4294967296 :: nat} \<le> length (live_calls en)"
    by (meson List.finite_set card_image_le card_length card_mono finite_imageI le_trans)
  with length_live_calls [of en] assms show False by simp
qed

end
