(* ===== verification/Call_Protocol.thy ===== *)
theory Call_Protocol
  imports Engine_Calls Ipc_Transfer
begin

text \<open>
  The call protocol over any interleaving of the call operations of
  \<open>kernel/src/syscall.rs\<close>, with the rest of the kernel free to change the channels in
  between (\<open>OpIpc\<close>): each step wakes exactly the callers whose call it completes, the first
  completion is the one the caller gets and it gets it once, only the thread that received a
  request can answer it, ordinals identify the live calls of an endpoint, and beginning a
  call always returns.
\<close>

section \<open>Operations in sequence\<close>

datatype call_op =
    OpBegin handle_table handle ko_id ko_id bool u64 nat "u64 list" "ko_id option" "u32 option"
  | OpRead handle_table handle kernel_message ko_id
  | OpTake nat ko_id
  | OpReply nat ko_id nat "u64 list"
  | OpDonate nat call_donation
  | OpSweep u64
  | OpClosed ko_id
  | OpAbandon ko_id
  | OpLegacy nat "u8 list"
  | OpPop ko_id nat "u64 list"
  | OpIpc ipc_registry

datatype call_out =
    OutTicket "errno + call_ticket"
  | OutDelivery "call_delivery option"
  | OutCompletion call_completion
  | OutReply "errno + call_wake"
  | OutSweep call_sweep
  | OutWakes "call_wake list"
  | OutWake "call_wake option"
  | OutCount nat
  | OutNone

fun call_do :: "call_op \<Rightarrow> engine \<Rightarrow> (call_out \<times> engine) option" where
  "call_do (OpBegin t h th p sora dl len ws sb forced) en =
     map_option (\<lambda>(r, en'). (OutTicket r, en'))
       (begin_channel_call_with_ordinal en t h th p sora dl len ws sb forced)"
| "call_do (OpRead t h m th) en = (case note_call_read en t h m th of (d, en') \<Rightarrow> Some (OutDelivery d, en'))"
| "call_do (OpTake i th) en = (case take_call_completion en i th of (c, en') \<Rightarrow> Some (OutCompletion c, en'))"
| "call_do (OpReply i th len ws) en = (case channel_reply en i th len ws of (r, en') \<Rightarrow> Some (OutReply r, en'))"
| "call_do (OpDonate i d) en = Some (OutNone, note_call_donation en i d)"
| "call_do (OpSweep now) en = (case sweep_pending_calls en now of (s, en') \<Rightarrow> Some (OutSweep s, en'))"
| "call_do (OpClosed k) en =
     (case complete_calls_on_endpoint_closed en k of (ws, en') \<Rightarrow> Some (OutWakes ws, en'))"
| "call_do (OpAbandon p) en = (case abandon_calls_for_process en p of (n, en') \<Rightarrow> Some (OutCount n, en'))"
| "call_do (OpLegacy i bs) en = (case complete_legacy_reply en i bs of (w, en') \<Rightarrow> Some (OutWake w, en'))"
| "call_do (OpPop k len ws) en = Some (OutNone, pop_legacy_reply en k len ws)"
| "call_do (OpIpc reg) en = Some (OutNone, en\<lparr>en_ipc := reg\<rparr>)"

fun call_runs :: "call_op list \<Rightarrow> engine \<Rightarrow> (call_out list \<times> engine) option" where
  "call_runs [] en = Some ([], en)"
| "call_runs (op # ops) en =
     (case call_do op en of
        None \<Rightarrow> None
      | Some (out, en') \<Rightarrow> map_option (\<lambda>(outs, z). (out # outs, z)) (call_runs ops en'))"

section \<open>Beginning a call\<close>

lemma allocate_call_ordinal_result:
  assumes "allocate_call_ordinal en k = Some y"
  shows "\<exists>ordinal n. y = (ordinal, en\<lparr>en_next_call_ordinal := n\<rparr>) \<and> \<not> call_ordinal_used en k ordinal
    \<and> (2 \<le> unat (en_next_call_ordinal en) \<longrightarrow> 2 \<le> unat ordinal \<and> 2 \<le> unat n)"
  using assms
proof (rule allocate_call_ordinal.raw_induct [rotated])
  fix alloc en k y
  assume IH: "\<And>en k y. alloc en k = Some y \<Longrightarrow>
      \<exists>ordinal n. y = (ordinal, en\<lparr>en_next_call_ordinal := n\<rparr>) \<and> \<not> call_ordinal_used en k ordinal
        \<and> (2 \<le> unat (en_next_call_ordinal en) \<longrightarrow> 2 \<le> unat ordinal \<and> 2 \<le> unat n)"
    and run: "(let ordinal = en_next_call_ordinal en;
             en' = en\<lparr>en_next_call_ordinal := next_ordinal ordinal\<rparr>
         in if \<not> call_ordinal_used en' k ordinal then Some (ordinal, en') else alloc en' k) = Some y"
  have two: "2 \<le> unat (next_ordinal (en_next_call_ordinal en))" if "2 \<le> unat (en_next_call_ordinal en)"
    using unat_next_ordinal [OF that] that by (simp split: if_splits)
  show "\<exists>ordinal n. y = (ordinal, en\<lparr>en_next_call_ordinal := n\<rparr>) \<and> \<not> call_ordinal_used en k ordinal
        \<and> (2 \<le> unat (en_next_call_ordinal en) \<longrightarrow> 2 \<le> unat ordinal \<and> 2 \<le> unat n)"
  proof (cases "call_ordinal_used en k (en_next_call_ordinal en)")
    case True
    with run have "alloc (en\<lparr>en_next_call_ordinal := next_ordinal (en_next_call_ordinal en)\<rparr>) k = Some y"
      by (simp add: Let_def)
    from IH [OF this] two show ?thesis by fastforce
  next
    case False
    with run two show ?thesis by (auto simp: Let_def)
  qed
qed

lemma choose_ordinal_result:
  assumes "choose_ordinal en k forced = Some (r, en1)"
  shows "\<exists>n. en1 = en\<lparr>en_next_call_ordinal := n\<rparr>
    \<and> (2 \<le> unat (en_next_call_ordinal en) \<longrightarrow> 2 \<le> unat n)
    \<and> (\<forall>ordinal. r = Inr ordinal \<longrightarrow> \<not> call_ordinal_used en k ordinal
         \<and> (2 \<le> unat (en_next_call_ordinal en) \<longrightarrow> 2 \<le> unat ordinal))"
proof (cases forced)
  case None
  with assms show ?thesis
    by (auto simp: choose_ordinal_def dest!: allocate_call_ordinal_result)
next
  case (Some x)
  with assms show ?thesis
    by (intro exI [of _ "en_next_call_ordinal en"])
       (auto simp: choose_ordinal_def word_less_nat_alt not_less split: if_splits)
qed

text \<open>A begin either fails and leaves the slots alone, or fills one empty slot with an open call.\<close>

lemma begin_result:
  assumes "begin_channel_call_with_ordinal en t h th p sora dl len ws sb forced = Some (r, en')"
  shows "(2 \<le> unat (en_next_call_ordinal en) \<longrightarrow> 2 \<le> unat (en_next_call_ordinal en'))
    \<and> (case r of
         Inl _ \<Rightarrow> call_slot en' = call_slot en
       | Inr tk \<Rightarrow> \<exists>c. call_slot en (ct_index tk) = None \<and> call_slot en' = (call_slot en)(ct_index tk := Some c)
           \<and> open_call c \<and> \<not> pc_consumed c \<and> pc_caller_thread c = th \<and> pc_caller_end c = ct_caller_end tk
           \<and> pc_ordinal c = ct_ordinal tk \<and> \<not> call_ordinal_used en (pc_caller_end c) (pc_ordinal c)
           \<and> (2 \<le> unat (en_next_call_ordinal en) \<longrightarrow> 2 \<le> unat (pc_ordinal c)))"
proof -
  have upd: "call_slot (x\<lparr>en_ipc := reg\<rparr>) = call_slot x" "call_slot (x\<lparr>en_next_call_ordinal := n\<rparr>) = call_slot x"
    for x reg n by (simp_all add: call_slot_def fun_eq_iff)
  from assms show ?thesis
  proof (cases rule: begin_cases)
    case early
    then show ?thesis by simp
  next
    case (ordinal e k)
    from choose_ordinal_result [OF ordinal(2)] ordinal(1) show ?thesis by (auto simp: upd)
  next
    case (recorded k ep ordinal en1)
    from choose_ordinal_result [OF recorded(2)] obtain n where n: "en1 = en\<lparr>en_next_call_ordinal := n\<rparr>"
      "2 \<le> unat (en_next_call_ordinal en) \<longrightarrow> 2 \<le> unat n" "\<not> call_ordinal_used en (ce_end_koid ep) ordinal"
      "2 \<le> unat (en_next_call_ordinal en) \<longrightarrow> 2 \<le> unat ordinal" by auto
    from recorded(3) show ?thesis
    proof (cases rule: record_call_cases)
      case (ok m z reg c i calls)
      have "call_slot en' = call_slot (en1\<lparr>en_pending_calls := calls\<rparr>)"
        using ok(3) by (simp add: call_slot_def fun_eq_iff)
      with place_call_slot [OF ok(2)] n ok show ?thesis by (auto simp: upd open_call_def)
    qed (use n in \<open>auto simp: upd\<close>)
  qed
qed

section \<open>One step, slot by slot\<close>

definition same_call :: "pending_call \<Rightarrow> pending_call \<Rightarrow> bool" where
  "same_call c c' \<longleftrightarrow> pc_caller_end c' = pc_caller_end c \<and> pc_peer_end c' = pc_peer_end c
     \<and> pc_caller_thread c' = pc_caller_thread c \<and> pc_caller_process c' = pc_caller_process c
     \<and> pc_caller_is_sora c' = pc_caller_is_sora c \<and> pc_ordinal c' = pc_ordinal c
     \<and> pc_deadline_ns c' = pc_deadline_ns c \<and> pc_payload_len c' = pc_payload_len c
     \<and> pc_payload_words c' = pc_payload_words c"

definition outcome :: "pending_call \<Rightarrow> errno option \<times> nat \<times> u64 list \<times> bool" where
  "outcome c = (pc_completion c, pc_reply_len c, pc_reply_words c, pc_legacy_reply c)"

definition delivers :: "call_op \<Rightarrow> call_out \<Rightarrow> ko_id \<Rightarrow> nat \<Rightarrow> bool" where
  "delivers op out s i \<longleftrightarrow>
     (\<exists>t h m d. op = OpRead t h m s \<and> out = OutDelivery (Some d) \<and> dl_index d = i)"

definition call_evolves :: "call_op \<Rightarrow> call_out \<Rightarrow> nat \<Rightarrow> pending_call \<Rightarrow> pending_call \<Rightarrow> bool" where
  "call_evolves op out i c c' \<longleftrightarrow> same_call c c' \<and> (\<not> open_call c \<longrightarrow> outcome c' = outcome c \<and> \<not> open_call c')
     \<and> (\<forall>s. pc_consumed c' \<and> pc_served_by c' = Some s \<longrightarrow>
           pc_consumed c \<and> pc_served_by c = Some s \<or> delivers op out s i)"

lemma call_evolves_refl [simp, intro]: "call_evolves op out i c c"
  by (simp add: call_evolves_def same_call_def)

lemma call_evolves_finish: "open_call c \<Longrightarrow> call_evolves op out i c (finish st len ws leg c)"
  by (simp add: call_evolves_def same_call_def finish_def)

lemma call_evolves_abandon: "call_evolves op out i c (abandon_slot p c)"
  by (auto simp: call_evolves_def same_call_def abandon_slot_def open_call_def outcome_def)

lemma complete_call_evolves:
  assumes "complete_call en k st len ws leg = (w, en')" and "call_slot en i = Some c"
  shows "\<exists>c'. call_slot en' i = Some c' \<and> call_evolves op out i c c'"
  using assms by (auto simp: complete_call_slot call_evolves_finish split: option.splits if_splits)

lemma complete_where_evolves:
  assumes "complete_where due st en is = (w, en')" and "distinct is" and "call_slot en i = Some c"
  shows "\<exists>c'. call_slot en' i = Some c' \<and> call_evolves op out i c c'"
  using complete_where_slots(2) [OF assms(2,1), of i] assms(3)
  by (auto simp: due_slot_def call_evolves_finish)

lemma channel_reply_slot:
  "channel_reply en i th len ws =
     (if len \<le> MAX_CALL_BYTES \<and> (case call_slot en i of None \<Rightarrow> False
            | Some c \<Rightarrow> open_call c \<and> pc_consumed c \<and> pc_served_by c = Some th)
      then (Inr (wake_of (the (call_slot en i))), snd (complete_call en i E_Ok len ws False))
      else (Inl (if MAX_CALL_BYTES < len then E_InvalidArgs else E_BadState), en))"
  by (auto simp: channel_reply_def complete_call_slot open_call_def split: option.splits)

lemma complete_legacy_reply_slot:
  "complete_legacy_reply en i bs =
     (case pack_call_payload bs of None \<Rightarrow> (None, en) | Some ws \<Rightarrow> complete_call en i E_Ok (length bs) ws True)"
  by (auto simp: complete_legacy_reply_def pack_call_payload_def)

lemma note_call_read_cases:
  assumes "note_call_read en t h m th = (d, en')"
  obtains "d = None" "en' = en"
  | i c where "d = Some \<lparr>dl_index = i, dl_len = pc_payload_len c, dl_words = pc_payload_words c\<rparr>"
      "call_slot en i = Some c" "open_call c" "\<not> pc_consumed c"
      "en' = set_call en i (Some (c\<lparr>pc_consumed := True, pc_served_by := Some th\<rparr>))"
proof -
  have slot: "\<exists>c. en_pending_calls en ! i = Some c \<and> call_slot en i = Some c \<and> open_call c \<and> \<not> pc_consumed c"
    if "find_index (\<lambda>s. case s of None \<Rightarrow> False | Some c \<Rightarrow>
          pc_caller_end c = p \<and> pc_peer_end c = e \<and> pc_ordinal c = ord \<and> pc_completion c = None
          \<and> \<not> pc_caller_gone c \<and> \<not> pc_consumed c) (en_pending_calls en) = Some i" for p e ord i
    using that unfolding find_index_Some_iff by (auto simp: call_slot_def open_call_def split: option.splits)
  from assms consider "d = None \<and> en' = en" | p e ord i where
    "find_index (\<lambda>s. case s of None \<Rightarrow> False | Some c \<Rightarrow>
          pc_caller_end c = p \<and> pc_peer_end c = e \<and> pc_ordinal c = ord \<and> pc_completion c = None
          \<and> \<not> pc_caller_gone c \<and> \<not> pc_consumed c) (en_pending_calls en) = Some i"
    "(case en_pending_calls en ! i of None \<Rightarrow> (None, en)
      | Some c \<Rightarrow> (Some \<lparr>dl_index = i, dl_len = pc_payload_len c, dl_words = pc_payload_words c\<rparr>,
            set_call en i (Some (c\<lparr>pc_consumed := True, pc_served_by := Some th\<rparr>)))) = (d, en')"
    unfolding note_call_read_def by (simp split: if_splits sum.splits option.splits)
  then show thesis
  proof cases
    case 1
    with that(1) show ?thesis by blast
  next
    case 2
    from slot [OF 2(1)] 2(2) that(2) show ?thesis by auto
  qed
qed

lemma call_slot_ipc [simp]: "call_slot (en\<lparr>en_ipc := reg\<rparr>) = call_slot en"
  by (simp add: call_slot_def fun_eq_iff)

lemma pop_legacy_reply_slots [simp]:
  "call_slot (pop_legacy_reply en k len ws) = call_slot en"
  "en_pending_calls (pop_legacy_reply en k len ws) = en_pending_calls en"
  "en_next_call_ordinal (pop_legacy_reply en k len ws) = en_next_call_ordinal en"
  by (auto simp: pop_legacy_reply_def split: option.splits prod.splits)

lemma call_do_slot:
  assumes "call_do op en = Some (out, en')" and "call_slot en i = Some c"
  shows "(op = OpTake i (pc_caller_thread c) \<and> pc_completion c \<noteq> None \<and> call_slot en' i = None)
    \<or> (\<exists>c'. call_slot en' i = Some c' \<and> call_evolves op out i c c')"
proof (cases op)
  case (OpBegin t h th p sora dl len ws sb forced)
  with assms(1) obtain r where "begin_channel_call_with_ordinal en t h th p sora dl len ws sb forced = Some (r, en')"
    by auto
  from begin_result [OF this] assms(2) have "call_slot en' i = Some c" by (auto split: sum.splits)
  then show ?thesis by blast
next
  case (OpRead t h m th)
  with assms(1) obtain d where out: "out = OutDelivery d" and d: "note_call_read en t h m th = (d, en')"
    by (auto split: prod.splits)
  from d show ?thesis
  proof (cases rule: note_call_read_cases)
    case 1
    then show ?thesis using assms(2) by auto
  next
    case (2 j c0)
    then show ?thesis using assms(2) out OpRead call_slot_bound [OF 2(2)]
      by (auto simp: call_evolves_def same_call_def delivers_def open_call_def)
  qed
next
  case (OpTake j th)
  with assms show ?thesis
    by (auto simp: take_call_completion_def call_slot_bound split: option.splits if_splits)
next
  case (OpReply j th len ws)
  with assms(1) show ?thesis
    using complete_call_evolves [OF _ assms(2)] assms(2)
    by (auto simp: channel_reply_slot split: if_splits prod.splits) (metis prod.collapse)
next
  case (OpDonate j d)
  with assms show ?thesis
    by (auto simp: note_call_donation_def call_evolves_def same_call_def open_call_def outcome_def split: option.splits)
next
  case (OpSweep now)
  with assms(1) show ?thesis
    using complete_where_evolves [OF _ _ assms(2)] by (fastforce simp: sweep_pending_calls_def split: prod.splits)
next
  case (OpClosed k)
  with assms(1) show ?thesis
    using complete_where_evolves [OF _ _ assms(2)]
    by (fastforce simp: complete_calls_on_endpoint_closed_def split: prod.splits)
next
  case (OpAbandon p)
  with assms show ?thesis
    using abandon_slots [of en p i] by (auto simp: call_evolves_abandon split: prod.splits)
next
  case (OpLegacy j bs)
  with assms(1) show ?thesis
    using complete_call_evolves [OF _ assms(2)] assms(2)
    by (auto simp: complete_legacy_reply_slot split: option.splits prod.splits)
qed (use assms in auto)

section \<open>Wakes\<close>

definition completed_by :: "engine \<Rightarrow> engine \<Rightarrow> nat \<Rightarrow> bool" where
  "completed_by en en' i =
     (case (call_slot en i, call_slot en' i) of
        (Some c, Some c') \<Rightarrow> open_call c \<and> pc_completion c' \<noteq> None \<and> \<not> pc_caller_gone c'
      | _ \<Rightarrow> False)"

text \<open>The wakes a result asks the front end for.\<close>

fun wakes_reported :: "call_out \<Rightarrow> call_wake list \<Rightarrow> bool" where
  "wakes_reported (OutReply r) ws \<longleftrightarrow> ws = (case r of Inl _ \<Rightarrow> [] | Inr w \<Rightarrow> [w])"
| "wakes_reported (OutSweep s) ws \<longleftrightarrow>
     cs_child_callers s = map cw_caller_end (filter (\<lambda>w. \<not> cw_caller_is_sora w) ws)
     \<and> cs_sora_wake s = list_ex cw_caller_is_sora ws"
| "wakes_reported (OutWakes ws') ws \<longleftrightarrow> ws = ws'"
| "wakes_reported (OutWake w) ws \<longleftrightarrow> ws = (case w of None \<Rightarrow> [] | Some w \<Rightarrow> [w])"
| "wakes_reported _ ws \<longleftrightarrow> ws = []"

definition completed_wakes :: "engine \<Rightarrow> engine \<Rightarrow> call_wake list" where
  "completed_wakes en en' =
     map (\<lambda>i. wake_of (the (call_slot en i))) (filter (completed_by en en') [0..<length (en_pending_calls en)])"

lemma filter_upt_eq: "filter (\<lambda>j. j = i) [0..<n] = (if i < n then [i] else [])"
  by (induction n) (auto simp: less_Suc_eq)

lemma completed_by_same: "call_slot en' i = call_slot en i \<Longrightarrow> \<not> completed_by en en' i"
  by (auto simp: completed_by_def open_call_def split: option.splits)

lemma completed_wakes_none:
  assumes "\<And>i. \<not> completed_by en en' i"
  shows "completed_wakes en en' = []"
  using assms by (simp add: completed_wakes_def)

lemma complete_call_wakes:
  assumes "complete_call en i st len ws leg = (w, en')"
  shows "completed_wakes en en' = (case w of None \<Rightarrow> [] | Some w \<Rightarrow> [w])"
proof (cases "\<exists>c. call_slot en i = Some c \<and> open_call c")
  case False
  with assms have "en' = en" "w = None" by (auto simp: complete_call_slot split: option.splits if_splits)
  then show ?thesis by (simp add: completed_wakes_none completed_by_same)
next
  case True
  then obtain c where c: "call_slot en i = Some c" "open_call c" by blast
  with assms have en': "en' = set_call en i (Some (finish st len ws leg c))" "w = Some (wake_of c)"
    by (auto simp: complete_call_slot)
  have "completed_by en en' = (\<lambda>j. j = i)"
    using c call_slot_bound [OF c(1)]
    by (auto simp: fun_eq_iff completed_by_def en'(1) finish_def open_call_def split: option.splits)
  then have "completed_wakes en en' = [wake_of c]"
    using call_slot_bound [OF c(1)] c(1) by (simp add: completed_wakes_def filter_upt_eq)
  with en'(2) show ?thesis by simp
qed

lemma complete_where_wakes:
  assumes "complete_where due st en [0..<length (en_pending_calls en)] = (ws, en')"
  shows "completed_wakes en en' = ws"
proof -
  note slots = complete_where_slots [OF distinct_upt assms]
  have "completed_by en en' j = due_slot due en j" if "j < length (en_pending_calls en)" for j
    using slots(2) [of j] that
    by (auto simp: completed_by_def due_slot_def finish_def open_call_def split: option.splits)
  then have "filter (completed_by en en') [0..<length (en_pending_calls en)] =
      filter (due_slot due en) [0..<length (en_pending_calls en)]"
    by (intro filter_cong) auto
  with slots(1) show ?thesis by (simp add: completed_wakes_def)
qed

lemma not_completed_if:
  assumes "\<And>c c'. call_slot en i = Some c \<Longrightarrow> call_slot en' i = Some c' \<Longrightarrow> open_call c \<Longrightarrow>
      pc_completion c' = None \<or> pc_caller_gone c'"
  shows "\<not> completed_by en en' i"
  using assms by (fastforce simp: completed_by_def split: option.splits)

text \<open>The operations that complete nobody's call.\<close>

fun quiet_op :: "call_op \<Rightarrow> bool" where
  "quiet_op (OpReply _ _ _ _) = False"
| "quiet_op (OpSweep _) = False"
| "quiet_op (OpClosed _) = False"
| "quiet_op (OpLegacy _ _) = False"
| "quiet_op _ = True"

lemma quiet_op_completes_none:
  assumes "call_do op en = Some (out, en')" and "quiet_op op"
  shows "\<not> completed_by en en' i"
proof (cases op)
  case (OpBegin t h th p sora dl len ws sb forced)
  with assms obtain r where "begin_channel_call_with_ordinal en t h th p sora dl len ws sb forced = Some (r, en')"
    by auto
  from begin_result [OF this] show ?thesis
    by (intro not_completed_if) (auto simp: open_call_def split: sum.splits if_splits)
next
  case (OpRead t h m th)
  with assms obtain d where "note_call_read en t h m th = (d, en')" by (auto split: prod.splits)
  then show ?thesis
    by (cases rule: note_call_read_cases) (auto intro!: not_completed_if simp: open_call_def split: if_splits)
next
  case (OpAbandon p)
  then have "call_slot en' i = map_option (abandon_slot p) (call_slot en i)"
    using assms abandon_slots [of en p i] by (auto split: prod.splits)
  then show ?thesis
    by (intro not_completed_if) (auto simp: abandon_slot_def open_call_def split: if_splits)
qed (use assms in \<open>auto intro!: not_completed_if simp: take_call_completion_def note_call_donation_def open_call_def
       split: option.splits if_splits\<close>)

lemma quiet_op_reports_none: "call_do op en = Some (out, en') \<Longrightarrow> quiet_op op \<Longrightarrow> wakes_reported out []"
  by (cases op) (auto split: prod.splits)

text \<open>
  Every step of the call protocol asks the front end to wake exactly the callers whose call
  it completes, in slot order and each once: a reply, a plain write that answers a call, a
  deadline sweep and a closed endpoint report the same thing. Beginning, reading, donating,
  resuming and abandoning complete nobody's call.
\<close>

lemma call_wakes_exact:
  assumes "call_do op en = Some (out, en')"
  shows "wakes_reported out (completed_wakes en en')"
proof (cases "quiet_op op")
  case True
  with assms show ?thesis
    by (simp add: completed_wakes_none quiet_op_completes_none quiet_op_reports_none)
next
  case False
  then consider i th len ws where "op = OpReply i th len ws" | now where "op = OpSweep now"
    | k where "op = OpClosed k" | i bs where "op = OpLegacy i bs"
    by (cases op) auto
  then show ?thesis
  proof cases
    case (1 i th len ws)
    with assms show ?thesis
      using complete_call_wakes [of en i E_Ok len ws False]
      by (auto simp: channel_reply_slot complete_call_slot completed_wakes_none completed_by_same
               split: if_splits prod.splits option.splits)
  next
    case 2
    with assms show ?thesis
      by (auto simp: sweep_pending_calls_def dest!: complete_where_wakes split: prod.splits)
  next
    case 3
    with assms show ?thesis
      by (auto simp: complete_calls_on_endpoint_closed_def dest!: complete_where_wakes split: prod.splits)
  next
    case 4
    with assms show ?thesis
      by (auto simp: complete_legacy_reply_slot completed_wakes_none completed_by_same
               dest: complete_call_wakes split: option.splits prod.splits)
  qed
qed

section \<open>Runs\<close>

lemma call_runs_Cons:
  assumes "call_runs (op # ops) en = Some (outs, en')"
  obtains out outs1 en1 where "call_do op en = Some (out, en1)" "call_runs ops en1 = Some (outs1, en')"
    "outs = out # outs1"
  using assms by (auto split: option.splits)

text \<open>
  As long as the caller does not resume, its slot keeps the call: the same identity, the same
  outcome once there is one, and only a delivered request gives a thread the right to answer.
\<close>

lemma call_runs_slot:
  assumes "call_runs ops en = Some (outs, en')" and "call_slot en i = Some c"
    and "OpTake i (pc_caller_thread c) \<notin> set ops"
  shows "\<exists>c'. call_slot en' i = Some c' \<and> same_call c c'
    \<and> (\<not> open_call c \<longrightarrow> outcome c' = outcome c \<and> \<not> open_call c')
    \<and> (\<forall>s. pc_consumed c' \<and> pc_served_by c' = Some s \<longrightarrow> pc_consumed c \<and> pc_served_by c = Some s
          \<or> (\<exists>(op, out) \<in> set (zip ops outs). delivers op out s i))"
  using assms
proof (induction ops arbitrary: en outs c)
  case Nil
  then show ?case by (simp add: same_call_def)
next
  case (Cons op ops)
  from Cons.prems(1) obtain out outs1 en1 where run: "call_do op en = Some (out, en1)"
    "call_runs ops en1 = Some (outs1, en')" "outs = out # outs1" by (rule call_runs_Cons)
  from call_do_slot [OF run(1) Cons.prems(2)] Cons.prems(3)
  obtain c1 where c1: "call_slot en1 i = Some c1" "call_evolves op out i c c1" by auto
  then have th: "pc_caller_thread c1 = pc_caller_thread c" by (simp add: call_evolves_def same_call_def)
  from Cons.IH [OF run(2) c1(1)] Cons.prems(3) th
  obtain c' where c': "call_slot en' i = Some c'" "same_call c1 c'"
    "\<not> open_call c1 \<longrightarrow> outcome c' = outcome c1 \<and> \<not> open_call c'"
    "\<forall>s. pc_consumed c' \<and> pc_served_by c' = Some s \<longrightarrow> pc_consumed c1 \<and> pc_served_by c1 = Some s
          \<or> (\<exists>(op, out) \<in> set (zip ops outs1). delivers op out s i)" by auto
  show ?case
  proof (intro exI [of _ c'] conjI)
    show "same_call c c'" using c'(2) c1(2) by (simp add: call_evolves_def same_call_def)
  qed (use c' c1(2) run(3) in \<open>auto simp: call_evolves_def\<close>)
qed

lemma take_ready:
  assumes "call_slot en i = Some c" and "pc_completion c = Some st" and "pc_caller_thread c = th"
  shows "take_call_completion en i th =
    (CC_Ready st (pc_reply_len c) (pc_reply_words c) (pc_legacy_reply c) (pc_caller_end c), set_call en i None)"
  using assms by (simp add: take_call_completion_def)

text \<open>
  C5: Exactly-once completion. Once a call is completed, whatever the kernel does next (late
  and duplicate replies, sweeps, further closes, plain writes, the death of any process, new
  calls, changes of the channels), the caller's resumption returns that first completion
  unchanged and frees the record, and a second resumption finds nothing.
\<close>

theorem first_completion_final:
  assumes "call_slot en i = Some c" and "pc_completion c = Some status"
    and "call_runs ops en = Some (outs, en')" and "OpTake i (pc_caller_thread c) \<notin> set ops"
  shows "fst (take_call_completion en' i (pc_caller_thread c)) =
      CC_Ready status (pc_reply_len c) (pc_reply_words c) (pc_legacy_reply c) (pc_caller_end c)
    \<and> take_call_completion (snd (take_call_completion en' i (pc_caller_thread c))) i (pc_caller_thread c) =
      (CC_Pending, snd (take_call_completion en' i (pc_caller_thread c)))"
proof -
  have no: "\<not> open_call c" using assms(2) by (simp add: open_call_def)
  from call_runs_slot [OF assms(3,1,4)] no obtain c' where c': "call_slot en' i = Some c'"
    "same_call c c'" "outcome c' = outcome c" by blast
  then have f: "pc_completion c' = Some status" "pc_reply_len c' = pc_reply_len c"
    "pc_reply_words c' = pc_reply_words c" "pc_legacy_reply c' = pc_legacy_reply c"
    "pc_caller_thread c' = pc_caller_thread c" "pc_caller_end c' = pc_caller_end c"
    using assms(2) by (simp_all add: outcome_def same_call_def)
  note take = take_ready [OF c'(1) f(1,5)]
  show ?thesis
    using call_slot_bound [OF c'(1)] by (simp add: take f take_call_completion_def [of "set_call en' i None"])
qed


section \<open>Ordinals\<close>

definition ordinals_ok :: "engine \<Rightarrow> bool" where
  "ordinals_ok en \<longleftrightarrow> 2 \<le> unat (en_next_call_ordinal en)
     \<and> (\<forall>i c. call_slot en i = Some c \<longrightarrow> 2 \<le> unat (pc_ordinal c)
          \<and> (\<forall>j c'. call_slot en j = Some c' \<longrightarrow> pc_caller_end c' = pc_caller_end c \<longrightarrow>
                pc_ordinal c' = pc_ordinal c \<longrightarrow> j = i))"

lemma call_do_keeps_empty:
  assumes "call_do op en = Some (out, en')" and "\<And>t h th p sora dl len ws sb f. op \<noteq> OpBegin t h th p sora dl len ws sb f"
  shows "(call_slot en i = None \<longrightarrow> call_slot en' i = None) \<and> en_next_call_ordinal en' = en_next_call_ordinal en"
proof (cases op)
  case (OpRead t h m th)
  with assms(1) obtain d where "note_call_read en t h m th = (d, en')" by (auto split: prod.splits)
  then show ?thesis by (cases rule: note_call_read_cases) auto
next
  case (OpSweep now)
  with assms(1) show ?thesis
    by (auto simp: sweep_pending_calls_def complete_where_slots [OF distinct_upt] split: prod.splits)
next
  case (OpClosed k)
  with assms(1) show ?thesis
    by (auto simp: complete_calls_on_endpoint_closed_def complete_where_slots [OF distinct_upt] split: prod.splits)
next
  case (OpAbandon p)
  with assms(1) show ?thesis
    using abandon_slots [of en p i] by (auto simp: abandon_calls_for_process_def)
next
  case (OpLegacy j bs)
  with assms(1) show ?thesis
    by (auto simp: complete_legacy_reply_slot complete_call_slot split: option.splits if_splits prod.splits)
qed (use assms in \<open>auto simp: take_call_completion_def channel_reply_slot complete_call_slot
       note_call_donation_def split: option.splits if_splits prod.splits\<close>)

lemma ordinals_ok_mono:
  assumes "ordinals_ok en" and "en_next_call_ordinal en' = en_next_call_ordinal en"
    and "\<And>i c'. call_slot en' i = Some c' \<Longrightarrow> \<exists>c. call_slot en i = Some c \<and> same_call c c'"
  shows "ordinals_ok en'"
  using assms unfolding ordinals_ok_def same_call_def by metis

lemma ordinals_ok_begin:
  assumes "begin_channel_call_with_ordinal en t h th p sora dl len ws sb forced = Some (r, en')"
    and "ordinals_ok en"
  shows "ordinals_ok en'"
proof (cases r)
  case (Inl e)
  with begin_result [OF assms(1)] assms(2) show ?thesis by (simp add: ordinals_ok_def)
next
  case (Inr tk)
  from begin_result [OF assms(1)] Inr assms(2) obtain c where c:
    "call_slot en' = (call_slot en)(ct_index tk := Some c)" "2 \<le> unat (en_next_call_ordinal en')"
    "\<not> call_ordinal_used en (pc_caller_end c) (pc_ordinal c)" "2 \<le> unat (pc_ordinal c)"
    by (auto simp: ordinals_ok_def)
  have new: "\<not> (pc_caller_end c' = pc_caller_end c \<and> pc_ordinal c' = pc_ordinal c)"
    if "call_slot en j = Some c'" for j c'
    using c(3) that live_calls_slot [of c' en] by (auto simp: call_ordinal_used_def list_ex_iff)
  show ?thesis
    unfolding ordinals_ok_def c(1)
    using c(2,4) new assms(2) unfolding ordinals_ok_def by (auto split: if_splits) metis
qed

lemma call_do_ordinals:
  assumes "call_do op en = Some (out, en')" and "ordinals_ok en"
  shows "ordinals_ok en'"
proof (cases "\<exists>t h th p sora dl len ws sb f. op = OpBegin t h th p sora dl len ws sb f")
  case True
  with assms show ?thesis by (auto intro: ordinals_ok_begin)
next
  case False
  then have nb: "\<And>t h th p sora dl len ws sb f. op \<noteq> OpBegin t h th p sora dl len ws sb f" by blast
  show ?thesis
  proof (rule ordinals_ok_mono [OF assms(2)])
    show "en_next_call_ordinal en' = en_next_call_ordinal en"
      using call_do_keeps_empty [OF assms(1) nb] by simp
    fix i c' assume c': "call_slot en' i = Some c'"
    then obtain c where c: "call_slot en i = Some c"
      using call_do_keeps_empty [OF assms(1) nb, of i] by fastforce
    from call_do_slot [OF assms(1) c] c' c show "\<exists>c. call_slot en i = Some c \<and> same_call c c'"
      by (auto simp: call_evolves_def)
  qed
qed

lemma call_runs_ordinals:
  "call_runs ops en = Some (outs, en') \<Longrightarrow> ordinals_ok en \<Longrightarrow> ordinals_ok en'"
proof (induction ops arbitrary: en outs)
  case (Cons op ops)
  from Cons.prems(1) obtain out outs1 en1 where "call_do op en = Some (out, en1)"
    "call_runs ops en1 = Some (outs1, en')" by (rule call_runs_Cons)
  with Cons.IH call_do_ordinals Cons.prems(2) show ?case by blast
qed simp

lemma ordinals_ok_new: "ordinals_ok engine_new"
  by (simp add: ordinals_ok_def engine_new_def call_slot_def)


text \<open>
  Beginning a call returns. The search for a free ordinal has no exit but success; with
  fewer than 2^32 - 2 call records it finds one, from any state the kernel can reach, so the
  operation ends in a ticket or an error.
\<close>

lemma begin_channel_call_returns:
  assumes "call_runs ops engine_new = Some (outs, en)" and "length (en_pending_calls en) < 2 ^ 32 - 2"
  shows "\<exists>r en'. begin_channel_call en t h th p sora dl len ws sb = Some (r, en')"
proof -
  from call_runs_ordinals [OF assms(1) ordinals_ok_new] have two: "2 \<le> unat (en_next_call_ordinal en)"
    by (simp add: ordinals_ok_def)
  have "\<exists>ordinal en1. choose_ordinal en k None = Some (Inr ordinal, en1)" for k
    using free_ordinal_exists [of en k] assms(2) allocate_call_ordinal_finds [OF _ _ two]
    by (fastforce simp: choose_ordinal_def)
  then show ?thesis
    unfolding begin_channel_call_def begin_channel_call_with_ordinal_def
    by (auto simp: Let_def split: sum.split option.split prod.split) (metis option.distinct(1))
qed

section \<open>A call on a concrete channel\<close>

definition sample_call_link :: ipc_registry where
  "sample_call_link =
     \<lparr>ir_channels =
        [\<lparr>cp_left = (endpoint_new (kernel_object_new 1 Channel))\<lparr>ep_references := Some 1\<rparr>,
          cp_right = (endpoint_new (kernel_object_new 2 Channel))\<lparr>ep_references := Some 2\<rparr>\<rparr>],
      ir_ports = []\<rparr>"

definition sample_engine :: engine where
  "sample_engine = engine_new\<lparr>en_ipc := sample_call_link\<rparr>"

definition sample_words :: "u64 list" where
  "sample_words = [0x0201, 0, 0, 0]"

definition sample_pending :: pending_call where
  "sample_pending =
     \<lparr>pc_caller_end = 1, pc_peer_end = 2, pc_caller_thread = 11, pc_caller_process = 21, pc_caller_is_sora = False,
      pc_ordinal = 2, pc_deadline_ns = 0, pc_payload_len = 2, pc_payload_words = sample_words,
      pc_completion = None, pc_reply_len = 0, pc_reply_words = replicate 4 0, pc_legacy_reply = False,
      pc_consumed = False, pc_served_by = None, pc_donation = None, pc_caller_gone = False\<rparr>"

definition sample_request :: kernel_message where
  "sample_request =
     \<lparr>km_header = expects_reply (message_header_new 2 2 0), km_bytes = map (call_byte sample_words) [0..<2],
      km_handles = [], km_transfers = []\<rparr>"

definition sample_ticket :: call_ticket where
  "sample_ticket = \<lparr>ct_index = 0, ct_caller_end = 1, ct_peer_end = 2, ct_ordinal = 2, ct_served_by = None\<rparr>"

text \<open>The engine with the call in the given state, its request still queued or not.\<close>

definition sample_calling :: "kernel_message list \<Rightarrow> pending_call \<Rightarrow> engine" where
  "sample_calling inbox c =
     sample_engine\<lparr>en_ipc := set_channel sample_call_link 0
         (update_endpoint Right (\<lambda>e. e\<lparr>ep_inbox := inbox\<rparr>) (hd (ir_channels sample_call_link))),
       en_next_call_ordinal := 3, en_pending_calls := [Some c]\<rparr>"

lemmas sample_call_eval = sample_call_link_def endpoint_new_def kernel_object_new_def CHANNEL_RIGHTS_def
  right_defs rights_contains_def mask_contains_def channel_mut_by_koid_def endpoints_for_def

lemma sample_require:
  "require sample_sender 1 Channel (or RIGHT_READ RIGHT_WRITE) = Inr (oh_entry (sample_end_owner 1))"
  by (simp add: require_def get_lookup [OF sample_tables_wf(1)] sample_lookups sample_link_eval)

lemma sample_endpoints:
  "endpoints_for sample_call_link 1 =
     Inr \<lparr>ce_pair = 0, ce_end = Left, ce_end_koid = 1, ce_peer = Right, ce_peer_koid = 2, ce_peer_kernel_retained = False\<rparr>"
  by (simp add: sample_call_eval)

lemma sample_request_eq:
  "kernel_message_call 2 (map (call_byte sample_words) [0..<2]) [] = Inr sample_request"
  by (simp add: kernel_message_call_def message_call_def message_new_def from_borrowed_def sample_request_def
      MAX_INLINE_BYTES_def MAX_MESSAGE_HANDLES_def)

lemma sample_begin:
  "begin_channel_call_with_ordinal sample_engine sample_sender 1 11 21 False 0 2 sample_words None None =
     Some (Inr sample_ticket, sample_calling [sample_request] sample_pending)"
proof -
  have alloc: "choose_ordinal sample_engine 1 None = Some (Inr 2, sample_engine\<lparr>en_next_call_ordinal := 3\<rparr>)"
    unfolding choose_ordinal_def allocate_call_ordinal.simps [of sample_engine 1]
    by (simp add: sample_engine_def engine_new_def
        next_ordinal_def call_ordinal_used_def live_calls_def saturating_add_def max_def)
  have hold: "\<not> holds sample_sender 2 Channel 0"
    by (simp add: holds_def sample_sender_def sample_end_owner_def sample_port_owner_def)
  have install: "install_call sample_call_link 1 sample_request =
      (Inr \<lparr>ce_pair = 0, ce_end = Left, ce_end_koid = 1, ce_peer = Right, ce_peer_koid = 2, ce_peer_kernel_retained = False\<rparr>,
       set_channel sample_call_link 0
         (update_endpoint Right (\<lambda>e. e\<lparr>ep_inbox := [sample_request]\<rparr>) (hd (ir_channels sample_call_link))))"
    by (simp add: install_call_def sample_endpoints) (simp add: pair_write_def sample_call_eval)
  have koid: "he_koid (oh_entry (sample_end_owner 1)) = 1" by (simp add: sample_end_owner_def)
  have ipc: "en_ipc sample_engine = sample_call_link" "en_pending_calls sample_engine = []"
    by (simp_all add: sample_engine_def engine_new_def)
  show ?thesis
    by (simp add: begin_channel_call_with_ordinal_def record_call_def sample_require koid ipc sample_endpoints hold alloc
        thread_has_outstanding_call_def thread_is_serving_call_def live_calls_def unpack_call_payload_def
        MAX_CALL_BYTES_def sample_request_eq install place_call_def sample_ticket_def sample_calling_def
        sample_pending_def Let_def del: upt_rec_numeral)
qed

definition sample_served :: pending_call where
  "sample_served = sample_pending\<lparr>pc_consumed := True, pc_served_by := Some 31\<rparr>"

definition sample_delivery :: call_delivery where
  "sample_delivery = \<lparr>dl_index = 0, dl_len = 2, dl_words = sample_words\<rparr>"

lemma sample_calling_slot [simp]: "call_slot (sample_calling inbox c) i = (if i = 0 then Some c else None)"
  by (simp add: sample_calling_def call_slot_def)

lemma sample_calling_set [simp]: "set_call (sample_calling inbox c) 0 (Some c') = sample_calling inbox c'"
  by (simp add: sample_calling_def set_call_def)

lemma sample_read:
  "note_call_read (sample_calling inbox sample_pending) sample_receiver 1 sample_request 31 =
     (Some sample_delivery, sample_calling inbox sample_served)"
proof -
  have "and (mh_flags (km_header sample_request)) FLAG_EXPECTS_REPLY \<noteq> 0"
    by (simp add: sample_request_def expects_reply_def message_header_new_def FLAG_EXPECTS_REPLY_def)
  moreover have "endpoints_for (en_ipc (sample_calling inbox sample_pending)) 2 =
      Inr \<lparr>ce_pair = 0, ce_end = Right, ce_end_koid = 2, ce_peer = Left, ce_peer_koid = 1, ce_peer_kernel_retained = False\<rparr>"
    by (simp add: sample_calling_def set_channel_def sample_call_eval)
  moreover have "mh_ordinal (km_header sample_request) = 2"
    by (simp add: sample_request_def expects_reply_def message_header_new_def)
  moreover have "en_pending_calls (sample_calling inbox sample_pending) = [Some sample_pending]"
    by (simp add: sample_calling_def)
  ultimately show ?thesis
    by (simp add: note_call_read_def get_lookup [OF sample_tables_wf(2)] sample_lookups sample_end_owner_def)
       (simp add: sample_pending_def sample_delivery_def sample_served_def)
qed

lemma sample_reply:
  "channel_reply (sample_calling inbox sample_served) 0 31 2 ws =
     (Inr (wake_of sample_served), sample_calling inbox (finish E_Ok 2 ws False sample_served))"
  by (simp add: channel_reply_slot complete_call_slot MAX_CALL_BYTES_def)
     (simp add: sample_served_def sample_pending_def open_call_def)


theorem first_completion_final_witness:
  "fst (take_call_completion (snd (abandon_calls_for_process
       (sample_calling [] (finish E_Ok 2 sample_words False sample_served)) 21)) 0 11) =
     CC_Ready E_Ok 2 sample_words False 1"
proof -
  let ?c = "finish E_Ok 2 sample_words False sample_served"
  obtain n en where ab: "abandon_calls_for_process (sample_calling [] ?c) 21 = (n, en)" by force
  have f: "pc_caller_thread ?c = 11" "pc_completion ?c = Some E_Ok" "pc_caller_end ?c = 1"
    "pc_reply_len ?c = 2" "pc_reply_words ?c = sample_words" "\<not> pc_legacy_reply ?c"
    by (simp_all add: finish_def sample_served_def sample_pending_def)
  show ?thesis
    using first_completion_final [of "sample_calling [] ?c" 0 ?c E_Ok "[OpAbandon 21]" "[OutCount n]" en] ab f
    by simp
qed

lemma sample_run_begin:
  "call_runs [OpIpc sample_call_link, OpBegin sample_sender 1 11 21 False 0 2 sample_words None None] engine_new =
     Some ([OutNone, OutTicket (Inr sample_ticket)], sample_calling [sample_request] sample_pending)"
  using sample_begin by (simp add: sample_engine_def)


end
