(* ===== verification/Engine_Dispatch.thy ===== *)
theory Engine_Dispatch
  imports Engine_Calls
begin

text \<open>
  The handle, channel, port and timer arms of the system-call dispatcher
  (\<open>dispatch_inner\<close> of \<open>kernel/src/syscall.rs\<close>) with the engine operations they call: watches
  and signals, timers, interrupts, reclamation of channels and ports; the front end's part of
  a call that signals the server, and the loop over the handles of a dying process
  (\<open>kernel/src/usermode.rs\<close>).

  \<open>held\<close> tells which handle lineages the handle tables hold at the moment the registry
  judges an owner; \<open>grow\<close>, \<open>room\<close>, \<open>fresh\<close> are the answers of the allocator. The release
  of vector capacity in \<open>reclaim_unowned_ipc\<close> is not observable and left out.
\<close>

section \<open>Signals and watches\<close>

fun signal_each :: "(ko_id \<times> ko_id) list \<Rightarrow> ko_id \<Rightarrow> signals \<Rightarrow> engine \<Rightarrow> engine" where
  "signal_each [] object_koid s en = en"
| "signal_each ((port_koid, bound_koid) # rest) object_koid s en =
     signal_each rest object_koid s
       (if bound_koid = object_koid
        then log_wake (WakePort port_koid)
               (en\<lparr>en_ipc := port_queue_signal_by_koid (en_ipc en) port_koid object_koid s\<rparr>)
        else en)"

definition signal_ports :: "engine \<Rightarrow> ko_id \<Rightarrow> signals \<Rightarrow> engine" where
  "signal_ports en object_koid s = signal_each (en_port_bindings en) object_koid s en"

definition rearm_port_if_channel_readable :: "engine \<Rightarrow> ko_id \<Rightarrow> engine" where
  "rearm_port_if_channel_readable en channel_koid =
     (case channel_signals_by_koid (en_ipc en) channel_koid of
        Inl _ \<Rightarrow> en
      | Inr s \<Rightarrow> if mask_contains s SIGNAL_READABLE then signal_ports en channel_koid SIGNAL_READABLE else en)"

definition channel_backlog :: "signals \<Rightarrow> signals" where
  "channel_backlog s =
     or (if mask_contains s SIGNAL_READABLE then SIGNAL_READABLE else 0)
        (if mask_contains s SIGNAL_PEER_CLOSED then SIGNAL_PEER_CLOSED else 0)"

definition port_bind :: "engine \<Rightarrow> ko_id \<Rightarrow> ko_id \<Rightarrow> engine" where
  "port_bind en0 port_koid object_koid =
     (let en = en0\<lparr>en_port_bindings := en_port_bindings en0 @ [(port_koid, object_koid)]\<rparr>;
          en1 = (case channel_signals_by_koid (en_ipc en) object_koid of
                   Inl _ \<Rightarrow> en
                 | Inr s \<Rightarrow> if channel_backlog s \<noteq> 0 then signal_ports en object_koid (channel_backlog s) else en);
          en2 = (if list_ex (\<lambda>t. tb_koid t = object_koid \<and> tb_fired t) (en_timers en1)
                 then signal_ports en1 object_koid SIGNAL_TIMER else en1);
          en3 = (if list_ex (\<lambda>f. df_ctx_koid f = object_koid) (en_device_ctx_faults en2)
                 then signal_ports en2 object_koid SIGNAL_DEVICE_FAULT else en2)
      in case process_by_koid en3 object_koid of
           None \<Rightarrow> en3
         | Some p \<Rightarrow>
             if mask_contains (ko_signals (pr_object p)) SIGNAL_TERMINATED
             then signal_ports en3 object_koid SIGNAL_TERMINATED else en3)"

definition port_unbind :: "engine \<Rightarrow> ko_id \<Rightarrow> ko_id \<Rightarrow> bool \<times> engine" where
  "port_unbind en port_koid object_koid =
     (let kept = filter (\<lambda>(p, ob). \<not> (p = port_koid \<and> ob = object_koid)) (en_port_bindings en)
      in (length kept \<noteq> length (en_port_bindings en), en\<lparr>en_port_bindings := kept\<rparr>))"

definition release_port_bindings :: "engine \<Rightarrow> ko_id \<Rightarrow> bool \<times> engine" where
  "release_port_bindings en koid =
     (let kept = filter (\<lambda>(p, ob). p \<noteq> koid \<and> ob \<noteq> koid) (en_port_bindings en)
      in (length kept \<noteq> length (en_port_bindings en), en\<lparr>en_port_bindings := kept\<rparr>))"

definition release_timer :: "engine \<Rightarrow> ko_id \<Rightarrow> bool \<times> engine" where
  "release_timer en koid =
     (let kept = filter (\<lambda>t. tb_koid t \<noteq> koid) (en_timers en)
      in (length kept \<noteq> length (en_timers en), en\<lparr>en_timers := kept\<rparr>))"

definition release_resource :: "engine \<Rightarrow> ko_id \<Rightarrow> bool \<times> engine" where
  "release_resource en koid =
     (let kept = filter (\<lambda>r. rb_koid r \<noteq> koid) (en_resources en)
      in (length kept \<noteq> length (en_resources en), en\<lparr>en_resources := kept\<rparr>))"

definition reclaim_unowned_ipc :: "(lineage \<Rightarrow> bool) \<Rightarrow> engine \<Rightarrow> nat \<times> engine" where
  "reclaim_unowned_ipc held en =
     (case take_unreferenced_ports held (en_ipc en) of (ports, reg) \<Rightarrow>
      let en1 = fold (\<lambda>koid e. snd (release_port_bindings e koid)) ports (en\<lparr>en_ipc := reg\<rparr>) in
      case reap_unowned_channels held (en_ipc en1) of (n, reg') \<Rightarrow>
        (length ports + n, en1\<lparr>en_ipc := reg'\<rparr>))"

section \<open>Timers and interrupts\<close>

definition timer_sweep_late :: "engine \<Rightarrow> u64 \<Rightarrow> u64" where
  "timer_sweep_late en now_ns =
     (case max_of (map (\<lambda>t. saturating_sub now_ns (tb_deadline_ns t))
                    (filter (\<lambda>t. \<not> tb_fired t \<and> tb_deadline_ns t \<le> now_ns) (en_timers en))) of
        None \<Rightarrow> 0
      | Some late \<Rightarrow> late)"

fun timer_loop :: "u64 \<Rightarrow> engine \<Rightarrow> nat list \<Rightarrow> engine" where
  "timer_loop now_ns en [] = en"
| "timer_loop now_ns en (i # rest) =
     (let t = en_timers en ! i in
      timer_loop now_ns
        (if \<not> tb_fired t \<and> tb_deadline_ns t \<le> now_ns
         then signal_ports (en\<lparr>en_timers := (en_timers en)[i := t\<lparr>tb_fired := True\<rparr>]\<rparr>) (tb_koid t) SIGNAL_TIMER
         else en) rest)"

definition signal_timers :: "engine \<Rightarrow> u64 \<Rightarrow> engine" where
  "signal_timers en now_ns = timer_loop now_ns en [0..<length (en_timers en)]"

definition irq_fired :: "irq_binding \<Rightarrow> u64 \<Rightarrow> irq_binding" where
  "irq_fired b stamp_ns =
     b\<lparr>ib_stamp_ns := (if ib_count b = 0 then stamp_ns else ib_stamp_ns b),
       ib_count := saturating_add (ib_count b) 1, ib_outstanding := True\<rparr>"

fun irq_loop :: "(lineage \<Rightarrow> bool) \<Rightarrow> u32 \<Rightarrow> u64 \<Rightarrow> engine \<Rightarrow> nat list \<Rightarrow> engine" where
  "irq_loop held irq stamp_ns en [] = en"
| "irq_loop held irq stamp_ns en (i # rest) =
     (let b = en_interrupts en ! i in
      irq_loop held irq stamp_ns
        (if ib_irq b = irq \<and> ib_state b = Bound \<and> is_referenced held (en_ipc en) (ib_references b)
            \<and> \<not> (ib_requires_complete b \<and> ib_outstanding b)
         then signal_ports
                (log_wake (WakeInterrupt (ib_koid b))
                  (en\<lparr>en_interrupts := (en_interrupts en)[i := irq_fired b stamp_ns]\<rparr>))
                (ib_koid b) SIGNAL_IRQ
         else en) rest)"

definition signal_interrupt_at :: "(lineage \<Rightarrow> bool) \<Rightarrow> engine \<Rightarrow> u32 \<Rightarrow> u64 \<Rightarrow> engine" where
  "signal_interrupt_at held en irq stamp_ns = irq_loop held irq stamp_ns en [0..<length (en_interrupts en)]"

definition signal_interrupt :: "(lineage \<Rightarrow> bool) \<Rightarrow> engine \<Rightarrow> u32 \<Rightarrow> engine" where
  "signal_interrupt held en irq = signal_interrupt_at held en irq 0"

definition interrupt_consumed_stamp :: "engine \<Rightarrow> ko_id \<Rightarrow> u64" where
  "interrupt_consumed_stamp en koid =
     (case find (\<lambda>b. ib_koid b = koid \<and> ib_state b = Bound) (en_interrupts en) of
        None \<Rightarrow> 0
      | Some b \<Rightarrow> ib_consumed_stamp_ns b)"

text \<open>
  \<open>mask_line\<close> is the interrupt controller's answer to masking a line.
\<close>

function retire_loop :: "(lineage \<Rightarrow> bool) \<Rightarrow> (u32 \<Rightarrow> bool) \<Rightarrow> engine \<Rightarrow> nat \<Rightarrow> nat \<Rightarrow> nat \<times> engine" where
  "retire_loop held mask_line en index removed =
     (if index < length (en_interrupts en) then
        let b0 = en_interrupts en ! index;
            b = (if ib_state b0 = Bound \<and> \<not> is_referenced held (en_ipc en) (ib_references b0)
                 then b0\<lparr>ib_state := (if mask_line (ib_irq b0) then Released else MaskFailed)\<rparr> else b0);
            en1 = en\<lparr>en_interrupts := (en_interrupts en)[index := b]\<rparr>
        in if ib_state b = Released
           then retire_loop held mask_line
                  ((snd (release_port_bindings en1 (ib_koid b)))
                     \<lparr>en_interrupts := remove_nth index (en_interrupts en1)\<rparr>) index (removed + 1)
           else retire_loop held mask_line en1 (index + 1) removed
      else (removed, en))"
  by pat_completeness auto
termination
  by (relation "measure (\<lambda>(held, mask_line, en, index, removed). length (en_interrupts en) - index)")
    (auto simp: remove_nth_def Let_def)

declare retire_loop.simps [simp del]

definition retire_interrupts_with :: "(lineage \<Rightarrow> bool) \<Rightarrow> (u32 \<Rightarrow> bool) \<Rightarrow> engine \<Rightarrow> nat \<times> engine" where
  "retire_interrupts_with held mask_line en = retire_loop held mask_line en 0 0"

section \<open>The dispatcher\<close>

abbreviation status_of :: "errno \<Rightarrow> kernel_call_result" where
  "status_of e \<equiv> KR_Status (errno_status e)"

fun wake_closed_peers :: "ko_id list \<Rightarrow> engine \<Rightarrow> engine" where
  "wake_closed_peers [] en = en"
| "wake_closed_peers (peer_koid # rest) en =
     wake_closed_peers rest
       (log_wake (WakeChannel peer_koid) (signal_ports en peer_koid SIGNAL_PEER_CLOSED))"

definition wake_call_caller :: "call_wake \<Rightarrow> engine \<Rightarrow> engine" where
  "wake_call_caller w en =
     log_wake (if cw_caller_is_sora w then WakeUser else WakeChannelForCall (cw_caller_end w)) en"

definition close_channel :: "(lineage \<Rightarrow> bool) \<Rightarrow> engine \<Rightarrow> ko_id \<Rightarrow> engine" where
  "close_channel held en koid =
     (case complete_calls_on_endpoint_closed en koid of (call_wakes, en1) \<Rightarrow>
      let en2 = (case close_by_koid held (en_ipc en1) koid of
                   (Inl _, reg) \<Rightarrow> en1\<lparr>en_ipc := reg\<rparr>
                 | (Inr peer_koids, reg) \<Rightarrow> wake_closed_peers peer_koids (en1\<lparr>en_ipc := reg\<rparr>))
      in fold wake_call_caller call_wakes en2)"

definition dispatch_handle_close ::
  "(lineage \<Rightarrow> bool) \<Rightarrow> engine \<Rightarrow> handle_table \<Rightarrow> handle \<Rightarrow> kernel_call_result \<times> engine \<times> handle_table" where
  "dispatch_handle_close held en t h =
     (case remove t h of
        (Inl e, t') \<Rightarrow> (status_of (errno_from_object e), en, t')
      | (Inr owned, t') \<Rightarrow>
          let kind = he_kind (oh_entry owned);
              koid = he_koid (oh_entry owned);
              en1 = (if kind = Channel then close_channel held en koid else en);
              en2 = (if kind = Timer then snd (release_port_bindings (snd (release_timer en1 koid)) koid) else en1);
              en3 = (if kind = Channel \<or> kind = Port then snd (reclaim_unowned_ipc held en2) else en2)
          in (status_of E_Ok, en3, t'))"

definition dispatch_handle_duplicate ::
  "(handle_table \<Rightarrow> bool) \<Rightarrow> engine \<Rightarrow> handle_table \<Rightarrow> handle \<Rightarrow> rights
     \<Rightarrow> kernel_call_result \<times> engine \<times> handle_table" where
  "dispatch_handle_duplicate grow en t h rs =
     (case duplicate grow t h rs of
        (Inr h', t') \<Rightarrow> (KR_Handle h', en, t')
      | (Inl e, t') \<Rightarrow> (status_of (errno_from_object e), en, t'))"

definition dispatch_channel_create ::
  "(handle_table \<Rightarrow> bool) \<Rightarrow> lineage \<Rightarrow> lineage \<Rightarrow> engine \<Rightarrow> handle_table
     \<Rightarrow> kernel_call_result \<times> engine \<times> handle_table" where
  "dispatch_channel_create grow fresh fresh' en t =
     (case channel_create grow fresh fresh' (en_ipc en) (en_objects en) t of
        (Inr (first, second), reg, objects, t') \<Rightarrow>
          (KR_Handles first second, en\<lparr>en_ipc := reg, en_objects := objects\<rparr>, t')
      | (Inl e, reg, objects, t') \<Rightarrow>
          (status_of (errno_from_ipc e), en\<lparr>en_ipc := reg, en_objects := objects\<rparr>, t'))"

definition legacy_candidate :: "engine \<Rightarrow> handle_table \<Rightarrow> handle \<Rightarrow> message \<Rightarrow> nat option" where
  "legacy_candidate en t channel msg =
     (case get t channel of
        Inl _ \<Rightarrow> None
      | Inr entry \<Rightarrow>
          if ms_handles msg = [] \<and> length (ms_bytes msg) \<le> MAX_CALL_BYTES
          then legacy_reply_candidate en (he_koid entry) else None)"

definition peer_of_handle :: "engine \<Rightarrow> handle_table \<Rightarrow> handle \<Rightarrow> ko_id option" where
  "peer_of_handle en t channel =
     (case get t channel of
        Inl _ \<Rightarrow> None
      | Inr entry \<Rightarrow> (case peer_koid_for (en_ipc en) (he_koid entry) of Inl _ \<Rightarrow> None | Inr k \<Rightarrow> Some k))"

definition dispatch_channel_write ::
  "engine \<Rightarrow> handle_table \<Rightarrow> handle \<Rightarrow> message \<Rightarrow> kernel_call_result \<times> engine \<times> handle_table" where
  "dispatch_channel_write en t channel msg =
     (let signal_koid = peer_of_handle en t channel;
          candidate = legacy_candidate en t channel msg
      in case channel_write (en_ipc en) t channel msg of
           (Inl e, reg, t') \<Rightarrow> (status_of (errno_from_ipc e), en\<lparr>en_ipc := reg\<rparr>, t')
         | (Inr _, reg, t') \<Rightarrow>
             (case (case candidate of None \<Rightarrow> (None, en\<lparr>en_ipc := reg\<rparr>)
                    | Some index \<Rightarrow> complete_legacy_reply (en\<lparr>en_ipc := reg\<rparr>) index (ms_bytes msg)) of
                (call_wake, en1) \<Rightarrow>
                  let en2 = (case signal_koid of
                               None \<Rightarrow> en1
                             | Some koid \<Rightarrow>
                                 log_wake (if call_wake \<noteq> None then WakeChannelForCall koid else WakeChannel koid)
                                   (signal_ports en1 koid SIGNAL_READABLE));
                      en3 = (case call_wake of
                               None \<Rightarrow> en2
                             | Some w \<Rightarrow> if cw_caller_is_sora w then log_wake WakeUser en2 else en2)
                  in (status_of E_Ok, en3, t')))"

definition dispatch_channel_call ::
  "engine \<Rightarrow> handle_table \<Rightarrow> handle \<Rightarrow> ko_id \<Rightarrow> ko_id \<Rightarrow> bool \<Rightarrow> u64 \<Rightarrow> nat \<Rightarrow> u64 list \<Rightarrow> ko_id option
     \<Rightarrow> (kernel_call_result \<times> engine) option" where
  "dispatch_channel_call en t channel caller_thread caller_process caller_is_sora deadline_ns payload_len
     payload served_by =
     map_option (\<lambda>(r, en').
         (case r of Inr ticket \<Rightarrow> KR_CallInstalled ticket | Inl e \<Rightarrow> status_of e, en'))
       (begin_channel_call en t channel caller_thread caller_process caller_is_sora deadline_ns payload_len
          payload served_by)"

definition dispatch_channel_reply ::
  "engine \<Rightarrow> nat \<Rightarrow> ko_id \<Rightarrow> nat \<Rightarrow> u64 list \<Rightarrow> kernel_call_result \<times> engine" where
  "dispatch_channel_reply en call server payload_len payload =
     (case channel_reply en call server payload_len payload of
        (Inr wake, en') \<Rightarrow> (KR_CallReplied wake, wake_call_caller wake en')
      | (Inl e, en') \<Rightarrow> (status_of e, en'))"

definition dispatch_channel_read ::
  "(handle_table \<Rightarrow> bool) \<Rightarrow> bool \<Rightarrow> engine \<Rightarrow> handle_table \<Rightarrow> handle
     \<Rightarrow> kernel_call_result \<times> engine \<times> handle_table" where
  "dispatch_channel_read grow room en t channel =
     (let read_koid = (case get t channel of Inl _ \<Rightarrow> None | Inr entry \<Rightarrow> Some (he_koid entry))
      in case channel_read grow room (en_ipc en) t channel of
           (Inr m, reg, t') \<Rightarrow>
             (KR_Message m,
              (case read_koid of None \<Rightarrow> en\<lparr>en_ipc := reg\<rparr>
               | Some koid \<Rightarrow> rearm_port_if_channel_readable (en\<lparr>en_ipc := reg\<rparr>) koid), t')
         | (Inl e, reg, t') \<Rightarrow> (status_of (errno_from_ipc e), en\<lparr>en_ipc := reg\<rparr>, t'))"

definition dispatch_port_create ::
  "(handle_table \<Rightarrow> bool) \<Rightarrow> lineage \<Rightarrow> engine \<Rightarrow> handle_table \<Rightarrow> kernel_call_result \<times> engine \<times> handle_table" where
  "dispatch_port_create grow fresh en t =
     (case port_create grow fresh (en_ipc en) (en_objects en) t of
        (Inr h, reg, objects, t') \<Rightarrow> (KR_Handle h, en\<lparr>en_ipc := reg, en_objects := objects\<rparr>, t')
      | (Inl e, reg, objects, t') \<Rightarrow>
          (status_of (errno_from_ipc e), en\<lparr>en_ipc := reg, en_objects := objects\<rparr>, t'))"

definition dispatch_port_wait :: "engine \<Rightarrow> handle_table \<Rightarrow> handle \<Rightarrow> kernel_call_result \<times> engine" where
  "dispatch_port_wait en t port =
     (case port_wait (en_ipc en) t port of
        (Inr packet, reg) \<Rightarrow> (KR_PortPacket packet, en\<lparr>en_ipc := reg\<rparr>)
      | (Inl e, reg) \<Rightarrow> (status_of (errno_from_ipc e), en\<lparr>en_ipc := reg\<rparr>))"

definition dispatch_timer_create ::
  "(handle_table \<Rightarrow> bool) \<Rightarrow> engine \<Rightarrow> handle_table \<Rightarrow> u64 \<Rightarrow> kernel_call_result \<times> engine \<times> handle_table" where
  "dispatch_timer_create grow en t deadline_ns =
     (if deadline_ns = 0 then (status_of E_InvalidArgs, en, t)
      else case create (en_objects en) Timer of (ob, objects) \<Rightarrow>
        (case table_insert grow t ob (or RIGHT_WAIT RIGHT_TRANSFER) of
           (Inr h, t') \<Rightarrow>
             (KR_Handle h,
              en\<lparr>en_objects := objects,
                 en_timers := en_timers en @ [\<lparr>tb_koid = ko_koid ob, tb_deadline_ns = deadline_ns, tb_fired = False\<rparr>]\<rparr>,
              t')
         | (Inl e, t') \<Rightarrow> (status_of (errno_from_object e), en\<lparr>en_objects := objects\<rparr>, t')))"

definition watch_koids :: "handle_table \<Rightarrow> handle \<Rightarrow> handle \<Rightarrow> errno + ko_id \<times> ko_id" where
  "watch_koids t port ob =
     (case require t port Port RIGHT_WAIT of
        Inl e \<Rightarrow> Inl (errno_from_object e)
      | Inr entry \<Rightarrow>
          (case get t ob of
             Inl e \<Rightarrow> Inl (errno_from_object e)
           | Inr e \<Rightarrow>
               if \<not> rights_contains (he_rights e) RIGHT_WAIT then Inl E_AccessDenied
               else Inr (he_koid entry, he_koid e)))"

definition dispatch_port_bind :: "engine \<Rightarrow> handle_table \<Rightarrow> handle \<Rightarrow> handle \<Rightarrow> kernel_call_result \<times> engine" where
  "dispatch_port_bind en t port ob =
     (case watch_koids t port ob of
        Inl e \<Rightarrow> (status_of e, en)
      | Inr (port_koid, obj_koid) \<Rightarrow> (status_of E_Ok, port_bind en port_koid obj_koid))"

definition dispatch_port_unbind :: "engine \<Rightarrow> handle_table \<Rightarrow> handle \<Rightarrow> handle \<Rightarrow> kernel_call_result \<times> engine" where
  "dispatch_port_unbind en t port ob =
     (case watch_koids t port ob of
        Inl e \<Rightarrow> (status_of e, en)
      | Inr (port_koid, obj_koid) \<Rightarrow> (status_of E_Ok, snd (port_unbind en port_koid obj_koid)))"

definition dispatch_handle_koid :: "handle_table \<Rightarrow> handle \<Rightarrow> kernel_call_result" where
  "dispatch_handle_koid t h =
     (case get t h of
        Inr entry \<Rightarrow> KR_Handle (ucast (he_koid entry))
      | Inl e \<Rightarrow> status_of (errno_from_object e))"

section \<open>The front end\<close>

text \<open>
  The engine part of \<open>channel_call_without_borrow\<close>: a successful begin also signals the watches of the
  server's endpoint.
\<close>

definition install_channel_call ::
  "engine \<Rightarrow> handle_table \<Rightarrow> handle \<Rightarrow> ko_id \<Rightarrow> ko_id \<Rightarrow> bool \<Rightarrow> u64 \<Rightarrow> nat \<Rightarrow> u64 list \<Rightarrow> ko_id option
     \<Rightarrow> ((errno + call_ticket) \<times> engine) option" where
  "install_channel_call en t channel caller_thread caller_process caller_is_sora deadline_ns payload_len
     payload served_by =
     map_option (\<lambda>(r, en').
         (case r of
            Inl e \<Rightarrow> (Inl e, en')
          | Inr ticket \<Rightarrow> (Inr ticket, signal_ports en' (ct_peer_end ticket) SIGNAL_READABLE)))
       (begin_channel_call en t channel caller_thread caller_process caller_is_sora deadline_ns payload_len
          payload served_by)"

text \<open>
  The loop of \<open>teardown_process_and_signal\<close> over the kinds and koids of the drained handles:
  the peers to wake, the callers of completed calls to wake, whether Sora is one, and the
  engine.
\<close>

fun teardown_signal_peers :: "ko_id list \<Rightarrow> engine \<Rightarrow> engine" where
  "teardown_signal_peers [] en = en"
| "teardown_signal_peers (p # ps) en = teardown_signal_peers ps (signal_ports en p SIGNAL_PEER_CLOSED)"

definition teardown_entry ::
  "(lineage \<Rightarrow> bool) \<Rightarrow> object_kind \<Rightarrow> ko_id \<Rightarrow> ko_id list \<times> ko_id list \<times> bool \<times> engine
     \<Rightarrow> ko_id list \<times> ko_id list \<times> bool \<times> engine" where
  "teardown_entry held kind koid st =
     (case st of (closed_peers, call_peers, sora_call_wake, en) \<Rightarrow>
      let (closed_peers', call_peers', sora_call_wake', en1) =
            (if kind = Channel then
               (case close_by_koid held (en_ipc en) koid of (r, reg) \<Rightarrow>
                let peers = (case r of Inl _ \<Rightarrow> [] | Inr ps \<Rightarrow> ps) in
                case complete_calls_on_endpoint_closed (teardown_signal_peers peers (en\<lparr>en_ipc := reg\<rparr>)) koid of
                  (wakes, en') \<Rightarrow>
                    (closed_peers @ peers,
                     call_peers @ map cw_caller_end (filter (\<lambda>w. \<not> cw_caller_is_sora w) wakes),
                     sora_call_wake \<or> list_ex cw_caller_is_sora wakes, en'))
             else if kind = Resource then (closed_peers, call_peers, sora_call_wake, snd (release_resource en koid))
             else if kind = Timer then (closed_peers, call_peers, sora_call_wake, snd (release_timer en koid))
             else (closed_peers, call_peers, sora_call_wake, en));
          en2 = (if kind = DeviceCtx \<or> kind = Interrupt then en1 else snd (release_port_bindings en1 koid))
      in (closed_peers', call_peers', sora_call_wake', en2))"

fun teardown_drained ::
  "(lineage \<Rightarrow> bool) \<Rightarrow> (object_kind \<times> ko_id) list \<Rightarrow> ko_id list \<times> ko_id list \<times> bool \<times> engine
     \<Rightarrow> ko_id list \<times> ko_id list \<times> bool \<times> engine" where
  "teardown_drained held [] st = st"
| "teardown_drained held ((kind, koid) # rest) st = teardown_drained held rest (teardown_entry held kind koid st)"

end
