(* ===== verification/Engine_Watch.thy ===== *)
theory Engine_Watch
  imports Engine_Dispatch Call_Protocol
begin

text \<open>
  Watches: a port bound to a channel endpoint is told when the endpoint becomes readable.
  Ports coalesce signals per source and channels queue messages, so a reader that takes one
  message per port packet depends on the kernel to announce what is left. This theory states
  the invariant that an unread message is announced, and shows for each operation on
  channels, calls and ports that it keeps it.
\<close>

section \<open>Readable endpoints and announcements\<close>

definition readable :: "ipc_registry \<Rightarrow> ko_id \<Rightarrow> bool" where
  "readable reg k \<longleftrightarrow> (\<exists>c \<in> set (ir_channels reg). \<exists>e. pair_koid c e = k \<and> ep_inbox (endpoint c e) \<noteq> [])"

definition packets_of :: "ipc_registry \<Rightarrow> ko_id \<Rightarrow> port_packet list option" where
  "packets_of reg p = map_option po_packets (find (\<lambda>x. ko_koid (po_object x) = p) (ir_ports reg))"

definition announced :: "ipc_registry \<Rightarrow> ko_id \<Rightarrow> ko_id \<Rightarrow> bool" where
  "announced reg p k =
     (case packets_of reg p of
        None \<Rightarrow> False
      | Some qs \<Rightarrow> list_ex (\<lambda>q. pk_source q = k \<and> mask_contains (pk_signals q) SIGNAL_READABLE) qs)"

definition endpoint_koids :: "ipc_registry \<Rightarrow> ko_id list" where
  "endpoint_koids reg = concat (map (\<lambda>c. [pair_koid c Left, pair_koid c Right]) (ir_channels reg))"

lemma ex_ends: "(\<exists>e. P e) \<longleftrightarrow> P Left \<or> P Right" for P :: "channel_end \<Rightarrow> bool"
  by (metis channel_end.exhaust)

lemma set_endpoint_koids: "k \<in> set (endpoint_koids reg) \<longleftrightarrow> (\<exists>c \<in> set (ir_channels reg). \<exists>e. pair_koid c e = k)"
  by (auto simp: endpoint_koids_def ex_ends)

subsection \<open>Lookups with distinct koids\<close>

lemma scan_channels_distinct:
  assumes "distinct (concat (map (\<lambda>c. [pair_koid c Left, pair_koid c Right]) cs))"
    and "i < length cs" and "pair_koid (cs ! i) e = k"
    and "f (cs ! i) = Some x"
    and "\<And>c. pair_koid c Left \<noteq> k \<Longrightarrow> pair_koid c Right \<noteq> k \<Longrightarrow> f c = None"
  shows "scan_channels f cs = Inr x"
  using assms(1-4)
proof (induction cs arbitrary: i)
  case (Cons c cs)
  show ?case
  proof (cases i)
    case 0
    with Cons.prems show ?thesis by simp
  next
    case (Suc j)
    then have j: "j < length cs" "pair_koid (cs ! j) e = k" "f (cs ! j) = Some x" using Cons.prems by auto
    then have "k \<in> set (concat (map (\<lambda>c. [pair_koid c Left, pair_koid c Right]) cs))"
      by (cases e) (auto intro!: bexI [of _ "cs ! j"])
    then have "f c = None" using Cons.prems(1) by (intro assms(5)) auto
    with Cons.IH [OF _ j] Cons.prems(1) show ?thesis by simp
  qed
qed simp

lemma pair_koids_differ:
  assumes "distinct (endpoint_koids reg)" and "i < length (ir_channels reg)"
  shows "pair_koid (ir_channels reg ! i) Left \<noteq> pair_koid (ir_channels reg ! i) Right"
proof -
  have "[pair_koid (ir_channels reg ! i) Left, pair_koid (ir_channels reg ! i) Right]
      \<in> set (map (\<lambda>c. [pair_koid c Left, pair_koid c Right]) (ir_channels reg))"
    using assms(2) by simp
  with assms(1) have "distinct [pair_koid (ir_channels reg ! i) Left, pair_koid (ir_channels reg ! i) Right]"
    unfolding endpoint_koids_def distinct_concat_iff by blast
  then show ?thesis by simp
qed

lemma lookups_distinct:
  assumes "distinct (endpoint_koids reg)" and "i < length (ir_channels reg)"
    and "pair_koid (ir_channels reg ! i) e = k"
  shows "peer_koid_for reg k = Inr (pair_koid (ir_channels reg ! i) (peer e))"
    and "channel_signals_by_koid reg k = Inr (pair_signals (ir_channels reg ! i) e)"
proof -
  note d = pair_koids_differ [OF assms(1,2)]
  show "peer_koid_for reg k = Inr (pair_koid (ir_channels reg ! i) (peer e))"
    unfolding peer_koid_for_def
    by (rule scan_channels_distinct [OF assms(1) [unfolded endpoint_koids_def] assms(2,3)])
       (cases e; use d assms(3) in simp)+
  show "channel_signals_by_koid reg k = Inr (pair_signals (ir_channels reg ! i) e)"
    unfolding channel_signals_by_koid_def
    by (rule scan_channels_distinct [OF assms(1) [unfolded endpoint_koids_def] assms(2,3)])
       (cases e; use d assms(3) in simp)+
qed

lemma signals_readable:
  assumes "distinct (endpoint_koids reg)"
  shows "readable reg k \<longleftrightarrow> (\<exists>s. channel_signals_by_koid reg k = Inr s \<and> mask_contains s SIGNAL_READABLE)"
proof
  have bit: "mask_contains (pair_signals c e) SIGNAL_READABLE \<longleftrightarrow> ep_inbox (endpoint c e) \<noteq> []" for c e
    by (simp add: pair_signals_def mask_contains_def signal_defs)
  {
    assume "readable reg k"
    then obtain i e where "i < length (ir_channels reg)" "pair_koid (ir_channels reg ! i) e = k"
      "ep_inbox (endpoint (ir_channels reg ! i) e) \<noteq> []"
      unfolding readable_def by (metis in_set_conv_nth)
    with lookups_distinct(2) [OF assms this(1,2)] bit
    show "\<exists>s. channel_signals_by_koid reg k = Inr s \<and> mask_contains s SIGNAL_READABLE" by blast
  next
    assume "\<exists>s. channel_signals_by_koid reg k = Inr s \<and> mask_contains s SIGNAL_READABLE"
    then obtain s where s: "channel_signals_by_koid reg k = Inr s" "mask_contains s SIGNAL_READABLE" by blast
    have "\<exists>c \<in> set cs. \<exists>e. pair_koid c e = k \<and> s = pair_signals c e"
      if "scan_channels (\<lambda>c. if pair_koid c Left = k then Some (pair_signals c Left)
            else if pair_koid c Right = k then Some (pair_signals c Right) else None) cs = Inr s" for cs
      using that by (induction cs) (auto simp: ex_ends split: if_splits)
    from this [OF s(1) [unfolded channel_signals_by_koid_def]] s(2) bit show "readable reg k"
      unfolding readable_def by blast
  }
qed

subsection \<open>Signalling\<close>

lemma find_update_index:
  assumes "find_index P xs = Some i" and "P y"
  shows "find P (xs[i := y]) = Some y"
    and "(\<And>x. P x \<Longrightarrow> \<not> Q x) \<Longrightarrow> find Q (xs[i := y]) = find Q xs"
  using assms(1) by (induction xs arbitrary: i) (use assms(2) in \<open>auto split: if_splits\<close>)

lemma find_index_find: "find P xs = map_option ((!) xs) (find_index P xs)"
  by (induction xs) (auto simp: option.map_comp comp_def)

lemma port_mut_find:
  "find (\<lambda>x. ko_koid (po_object x) = p) (ir_ports reg) =
     (case port_mut_by_koid reg p of Inl _ \<Rightarrow> None | Inr i \<Rightarrow> Some (ir_ports reg ! i))"
  by (simp add: port_mut_by_koid_def find_index_find split: option.splits)

lemma packets_of_update:
  assumes "port_mut_by_koid reg p = Inr i" and "po_object x = po_object (ir_ports reg ! i)"
  shows "packets_of (reg\<lparr>ir_ports := (ir_ports reg)[i := x]\<rparr>) q =
    (if q = p then Some (po_packets x) else packets_of reg q)"
proof -
  from assms(1) have i: "find_index (\<lambda>x. ko_koid (po_object x) = p) (ir_ports reg) = Some i"
    by (auto simp: port_mut_by_koid_def split: option.splits)
  then have "ko_koid (po_object x) = p" using assms(2) by (simp add: find_index_Some_iff)
  with find_update_index(1) [OF i, of x] find_update_index(2) [OF i, of x "\<lambda>x. ko_koid (po_object x) = q"]
  show ?thesis by (cases "q = p") (auto simp: packets_of_def)
qed

lemma packets_of_queue:
  "packets_of (port_queue_signal_by_koid reg p k s) q =
     (if q = p then map_option (coalesce k s) (packets_of reg p) else packets_of reg q)"
proof (cases "port_mut_by_koid reg p")
  case (Inl e)
  then show ?thesis by (simp add: port_queue_signal_by_koid_def packets_of_def port_mut_find)
next
  case (Inr i)
  then show ?thesis
    using packets_of_update [OF Inr, of "queue_signal (ir_ports reg ! i) k s" q]
    by (simp add: port_queue_signal_by_koid_def queue_signal_def packets_of_def port_mut_find)
qed

lemma coalesce_keeps:
  "list_ex (\<lambda>q. pk_source q = j \<and> mask_contains (pk_signals q) r) qs \<Longrightarrow>
   list_ex (\<lambda>q. pk_source q = j \<and> mask_contains (pk_signals q) r) (coalesce k s qs)"
  by (induction qs) (auto intro: mask_contains_trans mask_contains_or_left)

lemma coalesce_adds:
  "mask_contains s r \<Longrightarrow> list_ex (\<lambda>q. pk_source q = k \<and> mask_contains (pk_signals q) r) (coalesce k s qs)"
  by (induction qs) (auto intro: mask_contains_trans mask_contains_or_right)

definition quieter :: "ipc_registry \<Rightarrow> ipc_registry \<Rightarrow> bool" where
  "quieter reg reg' \<longleftrightarrow> (\<forall>k. readable reg' k \<longrightarrow> readable reg k)
     \<and> (\<forall>p. packets_of reg p \<noteq> None \<longrightarrow> packets_of reg' p \<noteq> None)
     \<and> (\<forall>p k. announced reg p k \<longrightarrow> announced reg' p k)"

lemma quieter_refl [simp]: "quieter reg reg"
  by (simp add: quieter_def)

lemma quieter_trans: "quieter a b \<Longrightarrow> quieter b c \<Longrightarrow> quieter a c"
  unfolding quieter_def by blast

lemma queue_channels [simp]: "ir_channels (port_queue_signal_by_koid reg p k s) = ir_channels reg"
  by (simp add: port_queue_signal_by_koid_def split: sum.splits)

lemma quieter_queue: "quieter reg (port_queue_signal_by_koid reg p k s)"
  by (auto simp: quieter_def readable_def announced_def packets_of_queue coalesce_keeps split: option.splits)

lemma signal_each_frame:
  "\<exists>ps ws. signal_each bs k s en = en\<lparr>en_ipc := (en_ipc en)\<lparr>ir_ports := ps\<rparr>, en_wakes := ws\<rparr>"
proof (induction bs arbitrary: en)
  case Nil
  show ?case by (intro exI [of _ "ir_ports (en_ipc en)"] exI [of _ "en_wakes en"]) simp
next
  case (Cons b bs)
  obtain p j where b: "b = (p, j)" by (cases b)
  let ?en = "if j = k then log_wake (WakePort p) (en\<lparr>en_ipc := port_queue_signal_by_koid (en_ipc en) p k s\<rparr>) else en"
  from Cons [of ?en] obtain ps ws where
    ps: "signal_each bs k s ?en = ?en\<lparr>en_ipc := (en_ipc ?en)\<lparr>ir_ports := ps\<rparr>, en_wakes := ws\<rparr>" by blast
  have "(en_ipc ?en)\<lparr>ir_ports := ps\<rparr> = (en_ipc en)\<lparr>ir_ports := ps\<rparr>"
    by (auto simp: log_wake_def port_queue_signal_by_koid_def split: sum.splits)
  with ps show ?case
    by (intro exI [of _ ps] exI [of _ ws]) (auto simp: b log_wake_def)
qed

lemma signal_each_quieter: "quieter (en_ipc en) (en_ipc (signal_each bs k s en))"
proof (induction bs k s en rule: signal_each.induct)
  case (2 p j rest k s en)
  show ?case
  proof (cases "j = k")
    case True
    with 2 quieter_trans [OF quieter_queue] show ?thesis by (simp add: log_wake_def)
  qed (use 2 in simp)
qed simp

lemma signal_each_announces:
  assumes "mask_contains s SIGNAL_READABLE" and "(p, k) \<in> set bs" and "packets_of (en_ipc en) p \<noteq> None"
  shows "announced (en_ipc (signal_each bs k s en)) p k"
  using assms(2,3)
proof (induction bs arbitrary: en)
  case (Cons b bs)
  obtain q j where b: "b = (q, j)" by (cases b)
  let ?en = "if j = k then log_wake (WakePort q) (en\<lparr>en_ipc := port_queue_signal_by_koid (en_ipc en) q k s\<rparr>) else en"
  have st: "signal_each (b # bs) k s en = signal_each bs k s ?en" by (simp add: b)
  show ?case
  proof (cases "(p, k) \<in> set bs")
    case True
    have "packets_of (en_ipc ?en) p \<noteq> None"
      using Cons.prems(2) by (auto simp: log_wake_def packets_of_queue)
    from Cons.IH [OF True this] show ?thesis unfolding st .
  next
    case False
    with Cons.prems(1) b have "q = p" "j = k" by auto
    then have "announced (en_ipc ?en) p k"
      using Cons.prems(2) assms(1)
      by (auto simp: announced_def log_wake_def packets_of_queue coalesce_adds split: option.splits)
    with signal_each_quieter [of ?en bs k s] show ?thesis unfolding st quieter_def by blast
  qed
qed simp

section \<open>The invariant\<close>

definition koids_ok :: "engine \<Rightarrow> bool" where
  "koids_ok en \<longleftrightarrow> distinct (endpoint_koids (en_ipc en))
     \<and> (\<forall>k \<in> set (endpoint_koids (en_ipc en)). k < next_koid (en_objects en))"

text \<open>
  \<open>claimed\<close> holds the watches whose announcement was taken from the port and whose endpoint
  was not read since; \<open>loud\<close> the endpoints an operation has changed and not announced yet.
\<close>

definition watched_ok :: "(ko_id \<times> ko_id) set \<Rightarrow> ko_id set \<Rightarrow> engine \<Rightarrow> bool" where
  "watched_ok claimed loud en \<longleftrightarrow>
     (\<forall>(p, k) \<in> set (en_port_bindings en). packets_of (en_ipc en) p \<noteq> None
        \<and> (k \<notin> loud \<longrightarrow> readable (en_ipc en) k \<longrightarrow> announced (en_ipc en) p k \<or> (p, k) \<in> claimed))"

definition notified :: "(ko_id \<times> ko_id) set \<Rightarrow> engine \<Rightarrow> bool" where
  "notified claimed en \<longleftrightarrow> koids_ok en \<and> watched_ok claimed {} en"

lemma watched_ok_quieter:
  assumes "watched_ok claimed loud en" and "quieter (en_ipc en) (en_ipc en')"
    and "set (en_port_bindings en') \<subseteq> set (en_port_bindings en)"
  shows "watched_ok claimed loud en'"
  using assms unfolding watched_ok_def quieter_def by fast

lemma koids_ok_same:
  assumes "koids_ok en" and "ir_channels (en_ipc en') = ir_channels (en_ipc en)"
    and "next_koid (en_objects en) \<le> next_koid (en_objects en')"
  shows "koids_ok en'"
  using assms unfolding koids_ok_def endpoint_koids_def by auto

lemma signal_ports_frame:
  "en_port_bindings (signal_ports en k s) = en_port_bindings en" "en_objects (signal_ports en k s) = en_objects en"
  "ir_channels (en_ipc (signal_ports en k s)) = ir_channels (en_ipc en)"
  "en_timers (signal_ports en k s) = en_timers en" "en_interrupts (signal_ports en k s) = en_interrupts en"
  "en_processes (signal_ports en k s) = en_processes en"
  "en_device_ctx_faults (signal_ports en k s) = en_device_ctx_faults en"
  "en_pending_calls (signal_ports en k s) = en_pending_calls en"
  using signal_each_frame [of "en_port_bindings en" k s en] by (auto simp: signal_ports_def)

declare signal_ports_frame [simp]

lemma signal_ports_quieter: "quieter (en_ipc en) (en_ipc (signal_ports en k s))"
  by (simp add: signal_ports_def signal_each_quieter)

lemma signal_ports_watched: "watched_ok claimed loud en \<Longrightarrow> watched_ok claimed loud (signal_ports en k s)"
  by (rule watched_ok_quieter [OF _ signal_ports_quieter]) simp_all

lemma signal_ports_koids: "koids_ok en \<Longrightarrow> koids_ok (signal_ports en k s)"
  using koids_ok_same [of en "signal_ports en k s"] by simp

text \<open>Signalling an endpoint pays what its change owed.\<close>

lemma signal_ports_pays:
  assumes "watched_ok claimed {k} en" and "mask_contains s SIGNAL_READABLE"
    and sub: "claimed - {x. snd x = k} \<subseteq> claimed'"
  shows "watched_ok claimed' {} (signal_ports en k s)"
proof -
  have ann: "announced (en_ipc (signal_ports en k s)) p k" if "(p, k) \<in> set (en_port_bindings en)" for p
    using that assms unfolding signal_ports_def watched_ok_def by (intro signal_each_announces) auto
  have known: "packets_of (en_ipc (signal_ports en k s)) p \<noteq> None" if "(p, j) \<in> set (en_port_bindings en)" for p j
    using that assms(1) signal_ports_quieter [of en k s] unfolding quieter_def watched_ok_def by fast
  have "announced (en_ipc (signal_ports en k s)) p j \<or> (p, j) \<in> claimed'"
    if "(p, j) \<in> set (en_port_bindings en)" "readable (en_ipc (signal_ports en k s)) j" for p j
  proof (cases "j = k")
    case True
    with ann that show ?thesis by simp
  next
    case False
    with that assms(1) sub signal_ports_quieter [of en k s]
    show ?thesis unfolding watched_ok_def quieter_def by fastforce
  qed
  with known show ?thesis unfolding watched_ok_def by auto
qed

section \<open>Operations on one endpoint\<close>

definition touches :: "ipc_registry \<Rightarrow> ipc_registry \<Rightarrow> ko_id \<Rightarrow> bool" where
  "touches reg reg' k \<longleftrightarrow> (\<exists>i e f. i < length (ir_channels reg) \<and> pair_koid (ir_channels reg ! i) e = k
     \<and> (\<forall>s. ep_object (f s) = ep_object s) \<and> reg' = set_channel reg i (update_endpoint e f (ir_channels reg ! i)))"

lemma touches_koids:
  assumes "touches reg reg' k"
  shows "endpoint_koids reg' = endpoint_koids reg"
proof -
  from assms obtain i e f where i: "i < length (ir_channels reg)" "\<forall>s. ep_object (f s) = ep_object s"
    "reg' = set_channel reg i (update_endpoint e f (ir_channels reg ! i))" by (auto simp: touches_def)
  have "map (\<lambda>c. [pair_koid c Left, pair_koid c Right]) (ir_channels reg') =
      map (\<lambda>c. [pair_koid c Left, pair_koid c Right]) (ir_channels reg)"
    by (rule nth_equalityI) (use i in \<open>auto simp: set_channel_def nth_list_update; cases e; simp\<close>)+
  then show ?thesis by (simp add: endpoint_koids_def)
qed

lemma touches_ports: "touches reg reg' k \<Longrightarrow> ir_ports reg' = ir_ports reg"
  by (auto simp: touches_def set_channel_def)

lemma touches_readable:
  assumes "touches reg reg' k" and "readable reg' j" and "j \<noteq> k"
  shows "readable reg j"
proof -
  from assms(1) obtain i e f where i: "i < length (ir_channels reg)" "pair_koid (ir_channels reg ! i) e = k"
    "\<forall>s. ep_object (f s) = ep_object s"
    "reg' = set_channel reg i (update_endpoint e f (ir_channels reg ! i))" by (auto simp: touches_def)
  from assms(2) obtain n x where n: "n < length (ir_channels reg)" "pair_koid (ir_channels reg' ! n) x = j"
    "ep_inbox (endpoint (ir_channels reg' ! n) x) \<noteq> []"
    unfolding readable_def i(4) by (auto simp: set_channel_def in_set_conv_nth)
  have "endpoint (ir_channels reg' ! n) x = endpoint (ir_channels reg ! n) x"
    using i n(1,2) assms(3) by (auto simp: set_channel_def nth_list_update split: if_splits)
  with n show ?thesis unfolding readable_def by (metis nth_mem)
qed

lemma touches_watched:
  assumes "touches (en_ipc en) reg k" and "notified claimed en"
  shows "koids_ok (en\<lparr>en_ipc := reg\<rparr>)" and "watched_ok claimed {k} (en\<lparr>en_ipc := reg\<rparr>)"
proof -
  show "koids_ok (en\<lparr>en_ipc := reg\<rparr>)"
    using assms touches_koids [OF assms(1)] by (simp add: notified_def koids_ok_def)
  have "packets_of reg = packets_of (en_ipc en)"
    using touches_ports [OF assms(1)] by (simp add: packets_of_def fun_eq_iff)
  then show "watched_ok claimed {k} (en\<lparr>en_ipc := reg\<rparr>)"
    using assms touches_readable [OF assms(1)]
    unfolding notified_def watched_ok_def announced_def by fastforce
qed

lemma watched_ok_loud:
  "watched_ok claimed {k} en \<Longrightarrow> \<not> readable (en_ipc en) k \<Longrightarrow> watched_ok (claimed - {x. snd x = k}) {} en"
  unfolding watched_ok_def by force

lemma notified_cong:
  assumes "notified claimed en" and "en_ipc en' = en_ipc en" and "en_port_bindings en' = en_port_bindings en"
    and "next_koid (en_objects en) \<le> next_koid (en_objects en')"
  shows "notified claimed en'"
  using assms unfolding notified_def koids_ok_def watched_ok_def by auto

lemma notified_signal: "notified claimed en \<Longrightarrow> notified claimed (signal_ports en k s)"
  by (simp add: notified_def signal_ports_koids signal_ports_watched)

lemma notified_log: "notified claimed (log_wake w en) = notified claimed en"
  by (simp add: notified_def log_wake_def koids_ok_def watched_ok_def)

subsection \<open>Writing\<close>

lemma complete_call_frame:
  "en_ipc (snd (complete_call en i st len ws leg)) = en_ipc en"
  "en_port_bindings (snd (complete_call en i st len ws leg)) = en_port_bindings en"
  "en_objects (snd (complete_call en i st len ws leg)) = en_objects en"
  by (auto simp: complete_call_def split: option.splits)

lemma complete_legacy_frame:
  assumes "complete_legacy_reply en i bs = (w, en')"
  shows "en_ipc en' = en_ipc en \<and> en_port_bindings en' = en_port_bindings en \<and> en_objects en' = en_objects en"
  using assms complete_call_frame [of en i E_Ok "length bs" _ True]
  by (auto simp: complete_legacy_reply_def split: option.splits if_splits) (metis snd_conv)+

lemma sent_touches:
  assumes "sent reg t channel msg reg' t'" and "distinct (endpoint_koids reg)"
  shows "\<exists>entry k. get t channel = Inr entry \<and> peer_koid_for reg (he_koid entry) = Inr k \<and> touches reg reg' k"
proof -
  from assms(1) obtain entry i e m where h: "require t channel Channel RIGHT_WRITE = Inr entry"
    "i < length (ir_channels reg)" "pair_koid (ir_channels reg ! i) e = he_koid entry"
    "reg' = set_channel reg i (update_endpoint (peer e) (push_inbox m) (ir_channels reg ! i))"
    unfolding sent_def by blast
  have "get t channel = Inr entry" using h(1) by (auto simp: require_def split: sum.splits if_splits)
  moreover have "touches reg reg' (pair_koid (ir_channels reg ! i) (peer e))"
    unfolding touches_def using h(2,4) by (intro exI [of _ i] exI [of _ "peer e"] exI [of _ "push_inbox m"])
      (simp add: push_inbox_def)
  ultimately show ?thesis using lookups_distinct(1) [OF assms(2) h(2,3)] by blast
qed

lemma write_notified:
  assumes "notified claimed en" and "table_wf t" and "dispatch_channel_write en t channel msg = (r, en', t')"
  shows "notified claimed en'"
proof -
  obtain res reg t1 where w: "channel_write (en_ipc en) t channel msg = (res, reg, t1)"
    by (metis prod_cases3)
  show ?thesis
  proof (cases res)
    case (Inl e)
    with channel_write_error [OF assms(2)] w have "reg = en_ipc en" by simp
    with assms(3) w Inl have "en' = en" by (simp add: dispatch_channel_write_def)
    with assms(1) show ?thesis by simp
  next
    case (Inr u)
    from channel_write_ok [OF assms(2)] w Inr have "sent (en_ipc en) t channel msg reg t1" by simp
    from sent_touches [OF this] assms(1) obtain entry k where k: "get t channel = Inr entry"
      "peer_koid_for (en_ipc en) (he_koid entry) = Inr k" "touches (en_ipc en) reg k"
      by (auto simp: notified_def koids_ok_def)
    obtain cw en1 where c: "(case legacy_candidate en t channel msg of None \<Rightarrow> (None, en\<lparr>en_ipc := reg\<rparr>)
          | Some index \<Rightarrow> complete_legacy_reply (en\<lparr>en_ipc := reg\<rparr>) index (ms_bytes msg)) = (cw, en1)"
      by force
    have f: "en_ipc en1 = reg" "en_port_bindings en1 = en_port_bindings en" "en_objects en1 = en_objects en"
      using c by (auto dest: complete_legacy_frame split: option.splits)
    have "koids_ok en1" "watched_ok claimed {k} en1"
      using touches_watched [OF k(3) assms(1)] f by (simp_all add: koids_ok_def watched_ok_def)
    then have "notified claimed (signal_ports en1 k SIGNAL_READABLE)"
      unfolding notified_def by (auto intro: signal_ports_koids signal_ports_pays)
    moreover have "\<exists>ws. en' = (signal_ports en1 k SIGNAL_READABLE)\<lparr>en_wakes := ws\<rparr>"
      using assms(3) w Inr c k(1,2)
      by (auto simp: dispatch_channel_write_def peer_of_handle_def Let_def log_wake_def
          split: option.splits if_splits)
    ultimately show ?thesis by (auto simp: notified_def koids_ok_def watched_ok_def)
  qed
qed

subsection \<open>Reading\<close>

lemma received_touches:
  assumes "received reg t channel m reg' t'"
  shows "\<exists>entry. get t channel = Inr entry \<and> touches reg reg' (he_koid entry)"
proof -
  from assms obtain entry i e rest where h: "require t channel Channel RIGHT_READ = Inr entry"
    "i < length (ir_channels reg)" "pair_koid (ir_channels reg ! i) e = he_koid entry"
    "reg' = set_channel reg i (update_endpoint e (\<lambda>s. s\<lparr>ep_inbox := rest\<rparr>) (ir_channels reg ! i))"
    unfolding received_def by blast
  have "get t channel = Inr entry" using h(1) by (auto simp: require_def split: sum.splits if_splits)
  moreover have "touches reg reg' (he_koid entry)"
    unfolding touches_def using h(2-4) by (intro exI [of _ i] exI [of _ e] exI [of _ "\<lambda>s. s\<lparr>ep_inbox := rest\<rparr>"]) simp
  ultimately show ?thesis by blast
qed

lemma rearm_notified:
  assumes "koids_ok en" and "watched_ok claimed {k} en"
  shows "notified (claimed - {x. snd x = k}) (rearm_port_if_channel_readable en k)"
proof (cases "readable (en_ipc en) k")
  case True
  then have "rearm_port_if_channel_readable en k = signal_ports en k SIGNAL_READABLE"
    using assms(1) signals_readable [of "en_ipc en" k]
    by (auto simp: rearm_port_if_channel_readable_def koids_ok_def)
  with assms show ?thesis
    unfolding notified_def by (auto intro: signal_ports_koids signal_ports_pays)
next
  case False
  then have "rearm_port_if_channel_readable en k = en"
    using assms(1) signals_readable [of "en_ipc en" k]
    by (auto simp: rearm_port_if_channel_readable_def koids_ok_def split: sum.splits)
  with assms False show ?thesis by (simp add: notified_def watched_ok_loud)
qed

text \<open>What a read leaves claimed: nothing on the endpoint it took a message from.\<close>

definition unclaimed :: "handle_table \<Rightarrow> handle \<Rightarrow> kernel_call_result \<Rightarrow> (ko_id \<times> ko_id) set \<Rightarrow> (ko_id \<times> ko_id) set" where
  "unclaimed t channel r claimed =
     (case (r, get t channel) of
        (KR_Message _, Inr entry) \<Rightarrow> {x \<in> claimed. snd x \<noteq> he_koid entry}
      | _ \<Rightarrow> claimed)"

lemma read_notified:
  assumes "notified claimed en" and "table_wf t"
    and "dispatch_channel_read grow room en t channel = (r, en', t')"
  shows "notified (unclaimed t channel r claimed) en'"
proof -
  obtain res reg t1 where w: "channel_read grow room (en_ipc en) t channel = (res, reg, t1)"
    by (metis prod_cases3)
  show ?thesis
  proof (cases res)
    case (Inl e)
    with channel_read_error [OF assms(2)] w have "reg = en_ipc en" by auto
    with assms(3) w Inl have "en' = en" "\<exists>st. r = KR_Status st" by (auto simp: dispatch_channel_read_def)
    with assms(1) show ?thesis by (auto simp: unclaimed_def)
  next
    case (Inr m)
    from channel_read_ok [OF assms(2)] w Inr have "received (en_ipc en) t channel m reg t1" by simp
    from received_touches [OF this] obtain entry where k: "get t channel = Inr entry"
      "touches (en_ipc en) reg (he_koid entry)" by blast
    have "en' = rearm_port_if_channel_readable (en\<lparr>en_ipc := reg\<rparr>) (he_koid entry)" "r = KR_Message m"
      using assms(3) w Inr k(1) by (auto simp: dispatch_channel_read_def)
    moreover have "unclaimed t channel (KR_Message m) claimed = claimed - {x. snd x = he_koid entry}"
      using k(1) by (auto simp: unclaimed_def)
    ultimately show ?thesis
      using rearm_notified [OF touches_watched [OF k(2) assms(1)]] by simp
  qed
qed

subsection \<open>Calling\<close>

lemma endpoints_scan_index:
  "endpoints_scan k n cs = Inr ep \<Longrightarrow> \<exists>i < length cs. find_index (\<lambda>c. pair_koid c Left = k \<or> pair_koid c Right = k) cs = Some i
     \<and> pair_koid (cs ! i) (ce_end ep) = k \<and> ce_peer_koid ep = pair_koid (cs ! i) (peer (ce_end ep))"
  by (induction k n cs rule: endpoints_scan.induct) (force split: option.splits if_splits)+

lemma install_call_touches:
  assumes "endpoints_for reg k = Inr ep" and "install_call reg (ce_end_koid ep) m = (r, reg')" and "ce_end_koid ep = k"
  shows "case r of Inl _ \<Rightarrow> reg' = reg | Inr _ \<Rightarrow> touches reg reg' (ce_peer_koid ep)"
proof -
  from endpoints_scan_index [OF assms(1) [unfolded endpoints_for_def]] obtain i where i: "i < length (ir_channels reg)"
    "channel_mut_by_koid reg k = Inr i" "ce_peer_koid ep = pair_koid (ir_channels reg ! i) (peer (ce_end ep))"
    by (auto simp: channel_mut_by_koid_def)
  have "touches reg (set_channel reg i (update_endpoint (peer (ce_end ep)) (\<lambda>e. e\<lparr>ep_inbox := ep_inbox e @ [m]\<rparr>)
      (ir_channels reg ! i))) (ce_peer_koid ep)"
    unfolding touches_def using i
    by (intro exI [of _ i] exI [of _ "peer (ce_end ep)"] exI [of _ "\<lambda>e. e\<lparr>ep_inbox := ep_inbox e @ [m]\<rparr>"]) simp
  moreover have "install_call reg k m =
      (if ep_open (endpoint (ir_channels reg ! i) (peer (ce_end ep)))
       then (Inr ep, set_channel reg i (update_endpoint (peer (ce_end ep)) (\<lambda>e. e\<lparr>ep_inbox := ep_inbox e @ [m]\<rparr>)
              (ir_channels reg ! i)))
       else (Inl IE_PeerClosed, reg))"
    using assms(1) i(2) by (simp add: install_call_def pair_write_def)
  ultimately show ?thesis using assms(2,3) by (auto split: if_splits)
qed

lemma begin_touches:
  assumes "begin_channel_call_with_ordinal en t h th p sora dl len ws sb forced = Some (r, en')"
  shows "en_port_bindings en' = en_port_bindings en \<and> en_objects en' = en_objects en
    \<and> (case r of Inl _ \<Rightarrow> en_ipc en' = en_ipc en | Inr tk \<Rightarrow> touches (en_ipc en) (en_ipc en') (ct_peer_end tk))"
proof -
  have ord: "\<exists>n. en1 = en\<lparr>en_next_call_ordinal := n\<rparr>" if "choose_ordinal en k forced = Some (q, en1)" for k q en1
    using choose_ordinal_result [OF that] by blast
  have koid: "ce_end_koid ep = k" if "endpoints_for reg k = Inr ep" for reg k ep
  proof -
    have "endpoints_scan k n cs = Inr ep \<Longrightarrow> ce_end_koid ep = k" for n cs
      by (induction k n cs rule: endpoints_scan.induct) (auto split: option.splits if_splits)
    with that show ?thesis by (auto simp: endpoints_for_def)
  qed
  from assms show ?thesis
  proof (cases rule: begin_cases)
    case early
    then show ?thesis by simp
  next
    case (ordinal e k)
    with ord [OF ordinal(2)] show ?thesis by auto
  next
    case (recorded k ep ordinal en1)
    from ord [OF recorded(2)] obtain n where n: "en1 = en\<lparr>en_next_call_ordinal := n\<rparr>" by blast
    note inst = install_call_touches [OF recorded(1) _ koid [OF recorded(1)]]
    from recorded(3) show ?thesis
    proof (cases rule: record_call_cases)
      case (error m x reg e)
      with n inst [of m] show ?thesis by auto
    next
      case (ok m z reg c i calls)
      with n inst [of m] show ?thesis by auto
    qed (use n in auto)
  qed
qed

lemma call_notified:
  assumes "notified claimed en"
    and "install_channel_call en t h th p sora dl len ws sb = Some (r, en')"
  shows "notified claimed en'"
proof -
  obtain r1 en1 where b: "begin_channel_call_with_ordinal en t h th p sora dl len ws sb None = Some (r1, en1)"
    using assms(2) by (auto simp: install_channel_call_def begin_channel_call_def)
  have en': "en' = (case r1 of Inl _ \<Rightarrow> en1 | Inr tk \<Rightarrow> signal_ports en1 (ct_peer_end tk) SIGNAL_READABLE)"
    using assms(2) b by (auto simp: install_channel_call_def begin_channel_call_def split: sum.splits)
  note bt = begin_touches [OF b]
  show ?thesis
  proof (cases r1)
    case (Inl e)
    with bt en' show ?thesis by (auto intro: notified_cong [OF assms(1)])
  next
    case (Inr tk)
    with bt have t: "touches (en_ipc en) (en_ipc en1) (ct_peer_end tk)" by simp
    have "koids_ok en1" "watched_ok claimed {ct_peer_end tk} en1"
      using touches_watched [OF t assms(1)] bt by (simp_all add: koids_ok_def watched_ok_def)
    with Inr en' show ?thesis
      unfolding notified_def by (auto intro: signal_ports_koids signal_ports_pays)
  qed
qed

section \<open>Ports\<close>

text \<open>A packet taken from a port claims the announcement it carries.\<close>

definition claims :: "handle_table \<Rightarrow> handle \<Rightarrow> kernel_call_result \<Rightarrow> (ko_id \<times> ko_id) set" where
  "claims t port r =
     (case (r, get t port) of
        (KR_PortPacket q, Inr entry) \<Rightarrow>
          if mask_contains (pk_signals q) SIGNAL_READABLE then {(he_koid entry, pk_source q)} else {}
      | _ \<Rightarrow> {})"

lemma wait_notified:
  assumes "notified claimed en" and "dispatch_port_wait en t port = (r, en')"
  shows "notified (claimed \<union> claims t port r) en'"
proof -
  obtain res reg where w: "port_wait (en_ipc en) t port = (res, reg)" by force
  show ?thesis
  proof (cases res)
    case (Inl e)
    with w have "packets_of reg = packets_of (en_ipc en)" "ir_channels reg = ir_channels (en_ipc en)"
      by (auto simp: port_wait_def port_take_def split: sum.splits list.splits)
    moreover have "en' = en\<lparr>en_ipc := reg\<rparr>" "claims t port r = {}"
      using assms(2) w Inl by (auto simp: dispatch_port_wait_def claims_def split: sum.splits)
    ultimately show ?thesis
      using assms(1) unfolding notified_def koids_ok_def watched_ok_def endpoint_koids_def readable_def announced_def
      by auto
  next
    case (Inr q)
    with w obtain entry i rest where h: "require t port Port RIGHT_WAIT = Inr entry"
      "port_mut_by_koid (en_ipc en) (he_koid entry) = Inr i" "po_packets (ir_ports (en_ipc en) ! i) = q # rest"
      "reg = (en_ipc en)\<lparr>ir_ports := (ir_ports (en_ipc en))[i := (ir_ports (en_ipc en) ! i)\<lparr>po_packets := rest\<rparr>]\<rparr>"
      by (auto simp: port_wait_def port_take_def split: sum.splits list.splits)
    have g: "get t port = Inr entry" using h(1) by (auto simp: require_def split: sum.splits if_splits)
    have en': "en' = en\<lparr>en_ipc := reg\<rparr>" "r = KR_PortPacket q" using assms(2) w Inr by (auto simp: dispatch_port_wait_def)
    have pk: "packets_of reg p = (if p = he_koid entry then Some rest else packets_of (en_ipc en) p)" for p
      unfolding h(4) using packets_of_update [OF h(2), of "(ir_ports (en_ipc en) ! i)\<lparr>po_packets := rest\<rparr>" p] by simp
    have old: "packets_of (en_ipc en) (he_koid entry) = Some (q # rest)"
      using h(2,3) by (simp add: packets_of_def port_mut_find)
    have ann: "announced reg p k \<or> (p, k) \<in> claims t port r" if "announced (en_ipc en) p k" for p k
      using that old g by (auto simp: announced_def pk claims_def en'(2) split: if_splits)
    have rd: "readable reg k = readable (en_ipc en) k" for k by (simp add: readable_def h(4))
    have "koids_ok en'" using assms(1) by (simp add: notified_def koids_ok_def endpoint_koids_def en' h(4))
    moreover have "watched_ok (claimed \<union> claims t port r) {} en'"
      using assms(1) ann rd pk old unfolding notified_def watched_ok_def en'(1) by fastforce
    ultimately show ?thesis by (simp add: notified_def)
  qed
qed

lemma bind_notified:
  assumes "notified claimed en" and "packets_of (en_ipc en) p \<noteq> None"
  shows "notified claimed (port_bind en p k)"
proof -
  let ?en = "en\<lparr>en_port_bindings := en_port_bindings en @ [(p, k)]\<rparr>"
  let ?en1 = "case channel_signals_by_koid (en_ipc ?en) k of Inl _ \<Rightarrow> ?en
     | Inr s \<Rightarrow> if channel_backlog s \<noteq> 0 then signal_ports ?en k (channel_backlog s) else ?en"
  have k: "koids_ok ?en" using assms(1) by (simp add: notified_def koids_ok_def)
  have w: "watched_ok claimed {k} ?en" using assms unfolding notified_def watched_ok_def by auto
  have "notified claimed ?en1"
  proof (cases "readable (en_ipc en) k")
    case True
    then obtain s where s: "channel_signals_by_koid (en_ipc en) k = Inr s" "mask_contains s SIGNAL_READABLE"
      using assms(1) signals_readable by (auto simp: notified_def koids_ok_def)
    have b: "mask_contains (channel_backlog s) SIGNAL_READABLE"
      using s(2) by (simp add: channel_backlog_def)
    then have "channel_backlog s \<noteq> 0" by (auto simp: mask_contains_def signal_defs)
    with s(1) b k w show ?thesis
      unfolding notified_def by (auto intro: signal_ports_koids signal_ports_pays)
  next
    case False
    then have "watched_ok (claimed - {x. snd x = k}) {} ?en" using watched_ok_loud [OF w] by simp
    then have "notified claimed ?en" using k unfolding notified_def watched_ok_def by blast
    then show ?thesis by (auto intro: notified_signal split: sum.splits)
  qed
  then show ?thesis
    unfolding port_bind_def Let_def by (auto intro!: notified_signal split: option.splits)
qed

lemma dispatch_bind_notified:
  assumes "notified claimed en" and "dispatch_port_bind en t port ob = (r, en')"
    and "\<And>entry. require t port Port RIGHT_WAIT = Inr entry \<Longrightarrow> packets_of (en_ipc en) (he_koid entry) \<noteq> None"
  shows "notified claimed en'"
  using assms by (auto simp: dispatch_port_bind_def watch_koids_def intro: bind_notified split: sum.splits if_splits)

lemma notified_fewer:
  assumes "notified claimed en" and "set bs \<subseteq> set (en_port_bindings en)"
  shows "notified claimed (en\<lparr>en_port_bindings := bs\<rparr>)"
  using assms unfolding notified_def koids_ok_def watched_ok_def by auto

lemma unbind_notified:
  "notified claimed en \<Longrightarrow> notified claimed (snd (port_unbind en p k))"
  "notified claimed en \<Longrightarrow> notified claimed (snd (release_port_bindings en k))"
  by (auto simp: port_unbind_def release_port_bindings_def Let_def intro!: notified_fewer)

lemma dispatch_unbind_notified:
  "notified claimed en \<Longrightarrow> dispatch_port_unbind en t port ob = (r, en') \<Longrightarrow> notified claimed en'"
  by (auto simp: dispatch_port_unbind_def intro: unbind_notified split: sum.splits)

section \<open>Closing and reclaiming\<close>

definition calmer :: "ipc_registry \<Rightarrow> ipc_registry \<Rightarrow> bool" where
  "calmer reg reg' \<longleftrightarrow> ir_ports reg' = ir_ports reg \<and> (\<forall>k. readable reg' k \<longrightarrow> readable reg k)
     \<and> set (endpoint_koids reg') \<subseteq> set (endpoint_koids reg)
     \<and> (distinct (endpoint_koids reg) \<longrightarrow> distinct (endpoint_koids reg'))"

lemma calmer_refl [simp]: "calmer reg reg"
  by (simp add: calmer_def)

lemma calmer_trans: "calmer a b \<Longrightarrow> calmer b c \<Longrightarrow> calmer a c"
  unfolding calmer_def by auto

lemma calmer_notified:
  assumes "calmer (en_ipc en) reg" and "notified claimed en"
  shows "notified claimed (en\<lparr>en_ipc := reg\<rparr>)"
proof -
  have "packets_of reg = packets_of (en_ipc en)"
    using assms(1) by (simp add: calmer_def packets_of_def fun_eq_iff)
  with assms show ?thesis
    unfolding notified_def koids_ok_def watched_ok_def calmer_def announced_def by fastforce
qed

lemma calmer_set_endpoint:
  assumes "i < length (ir_channels reg)" and "ep_object s = ep_object (registry_endpoint reg i e)"
    and "ep_inbox s = [] \<or> ep_inbox (registry_endpoint reg i e) \<noteq> []"
  shows "calmer reg (set_endpoint reg i e s)"
proof -
  let ?reg = "set_endpoint reg i e s"
  have "map (\<lambda>c. [pair_koid c Left, pair_koid c Right]) (ir_channels ?reg) =
      map (\<lambda>c. [pair_koid c Left, pair_koid c Right]) (ir_channels reg)"
    by (rule nth_equalityI)
       (use assms in \<open>auto simp: set_endpoint_def set_channel_def nth_list_update; cases e; simp\<close>)+
  then have k: "endpoint_koids ?reg = endpoint_koids reg" by (simp add: endpoint_koids_def)
  have "readable reg k" if "readable ?reg k" for k
  proof -
    from that obtain n x where n: "n < length (ir_channels reg)" "pair_koid (ir_channels ?reg ! n) x = k"
      "ep_inbox (endpoint (ir_channels ?reg ! n) x) \<noteq> []"
      unfolding readable_def by (auto simp: in_set_conv_nth)
    then have "pair_koid (ir_channels reg ! n) x = k" "ep_inbox (endpoint (ir_channels reg ! n) x) \<noteq> []"
      using assms by (auto simp: set_endpoint_def set_channel_def nth_list_update split: if_splits)
    with n(1) show ?thesis unfolding readable_def by (metis nth_mem)
  qed
  with k show ?thesis by (simp add: calmer_def)
qed

lemma calmer_cascade: "calmer reg (snd (close_cascade held reg carried signals))"
proof (induction held reg carried signals rule: close_cascade.induct)
  case (2 held reg koid carried signals)
  show ?case
  proof (cases rule: channel_end_for_cases [of reg koid])
    case (missing e)
    with 2(1) show ?thesis by (simp add: close_cascade.simps(2))
  next
    case (found i e)
    let ?s = "registry_endpoint reg i e"
    show ?thesis
    proof (cases "\<not> ep_open ?s \<or> \<not> last_owner held reg ?s")
      case True
      with found 2(3) [OF found(1,2) refl] show ?thesis by (simp add: close_cascade.simps(2) Let_def)
    next
      case False
      let ?c = "rev (carried_koids (?s\<lparr>ep_open := False\<rparr>)) @ carried"
      let ?s' = "drain_inbox (?s\<lparr>ep_open := False\<rparr>)"
      have "calmer reg (set_endpoint reg i e ?s')"
        by (rule calmer_set_endpoint [OF found(3)]) (simp_all add: drain_inbox_def)
      moreover have "calmer (set_endpoint reg i e ?s')
          (snd (close_cascade held (set_endpoint reg i e ?s') ?c (signals @ peer_signal reg i e)))"
        using 2(4) [OF found(1,2) refl False, of ?c ?s'] by (simp add: collect_carried_transfers_def)
      ultimately show ?thesis
        using found(1,2) False calmer_trans
        by (auto simp: close_cascade.simps(2) [of held reg koid] Let_def collect_carried_transfers_def)
    qed
  qed
qed simp

lemma calmer_remove: "calmer reg (reg\<lparr>ir_channels := remove_nth i (ir_channels reg)\<rparr>)"
proof -
  let ?f = "\<lambda>c. [pair_koid c Left, pair_koid c Right]"
  have sub: "set (remove_nth i (ir_channels reg)) \<subseteq> set (ir_channels reg)" by (rule set_remove_nth_subset)
  have "distinct (concat (map ?f (remove_nth i cs)))" if "distinct (concat (map ?f cs))" for cs
  proof -
    have "concat (map ?f cs) = concat (map ?f (take i cs)) @ concat (map ?f (drop i cs))"
      by (metis append_take_drop_id concat_append map_append)
    moreover have "set (concat (map ?f (drop (Suc i) cs))) \<subseteq> set (concat (map ?f (drop i cs)))"
      using set_drop_subset_set_drop [of i "Suc i" cs] by auto
    moreover have "distinct (concat (map ?f (drop (Suc i) cs)))" if "distinct (concat (map ?f (drop i cs)))"
      using that by (cases "drop i cs") (auto simp: drop_Suc drop_tl)
    ultimately show ?thesis using that unfolding remove_nth_def by auto
  qed
  with sub show ?thesis unfolding calmer_def readable_def endpoint_koids_def by auto
qed

lemma calmer_reap: "calmer reg (snd (reap_from held reg index removed))"
proof (induction held reg index removed rule: reap_from.induct)
  case (1 held reg index removed)
  show ?case
    unfolding reap_from.simps [of held reg index removed]
    using 1 calmer_trans [OF calmer_remove [of reg index]] by (auto simp: Let_def)
qed

lemma calmer_close: "calmer reg (snd (close_by_koid held reg koid))"
proof (cases rule: channel_end_for_cases [of reg koid])
  case (missing e)
  then show ?thesis by (simp add: close_by_koid_def)
next
  case (found i e)
  have st: "calmer reg (snd (reap_unowned_channels held (snd (close_cascade held (set_endpoint reg i e s) c sg))))"
    if "ep_object s = ep_object (registry_endpoint reg i e)"
      "ep_inbox s = [] \<or> ep_inbox (registry_endpoint reg i e) \<noteq> []" for s c sg
    unfolding reap_unowned_channels_def
    using calmer_trans [OF calmer_trans [OF calmer_set_endpoint [OF found(3) that] calmer_cascade] calmer_reap] .
  let ?s = "(registry_endpoint reg i e)\<lparr>ep_open := False\<rparr>"
  show ?thesis
  proof (cases "last_owner held reg ?s")
    case True
    with found(1,2) st [of "?s\<lparr>ep_inbox := []\<rparr>" "rev (carried_koids ?s)" "peer_signal reg i e"] show ?thesis
      by (simp add: close_by_koid_def case_prod_unfold Let_def collect_carried_transfers_def drain_inbox_def)
  next
    case False
    with found(1,2) st [of ?s "[]" "peer_signal reg i e"] show ?thesis
      by (simp add: close_by_koid_def case_prod_unfold Let_def)
  qed
qed

end
