(* ===== verification/Engine_Notify.thy ===== *)
theory Engine_Notify
  imports Engine_Watch Authority
begin

text \<open>
  No lost notification: over any interleaving of the system calls of any number of processes,
  timer and device interrupts, calls, closes and process deaths, a watched channel endpoint
  that holds messages has its announcement queued in the port, or a thread has taken the
  announcement and not read the endpoint since.
\<close>

section \<open>Reclaiming and closing\<close>

lemma take_ports_find:
  assumes "take_ports gone ps = (removed, kept)" and "p \<notin> set removed"
  shows "find (\<lambda>x. ko_koid (po_object x) = p) kept = find (\<lambda>x. ko_koid (po_object x) = p) ps"
  using assms by (induction ps arbitrary: removed kept) (auto split: prod.splits if_splits)

lemma release_fold:
  "fold (\<lambda>koid e. snd (release_port_bindings e koid)) ks en =
     en\<lparr>en_port_bindings := filter (\<lambda>(p, ob). p \<notin> set ks \<and> ob \<notin> set ks) (en_port_bindings en)\<rparr>"
proof (induction ks arbitrary: en)
  case (Cons k ks)
  then show ?case
    by (simp add: release_port_bindings_def Let_def) (intro arg_cong [where f = "\<lambda>b. en\<lparr>en_port_bindings := b\<rparr>"] filter_cong; auto)
qed (simp add: case_prod_unfold)

lemma reclaim_notified:
  assumes "notified claimed en"
  shows "notified claimed (snd (reclaim_unowned_ipc held en))"
proof -
  obtain ports reg where t: "take_unreferenced_ports held (en_ipc en) = (ports, reg)" by force
  then obtain kept gone where k: "take_ports gone (ir_ports (en_ipc en)) = (ports, kept)" "reg = (en_ipc en)\<lparr>ir_ports := kept\<rparr>"
    by (auto simp: take_unreferenced_ports_def split: prod.splits)
  let ?en = "en\<lparr>en_ipc := reg, en_port_bindings := filter (\<lambda>(p, ob). p \<notin> set ports \<and> ob \<notin> set ports) (en_port_bindings en)\<rparr>"
  have "packets_of reg p = packets_of (en_ipc en) p" if "p \<notin> set ports" for p
    using take_ports_find [OF k(1) that] by (simp add: packets_of_def k(2))
  moreover have "readable reg = readable (en_ipc en)" "endpoint_koids reg = endpoint_koids (en_ipc en)"
    by (simp_all add: readable_def endpoint_koids_def k(2) fun_eq_iff)
  ultimately have "notified claimed ?en"
    using assms unfolding notified_def koids_ok_def watched_ok_def announced_def by auto
  from calmer_notified [OF _ this, of "snd (reap_unowned_channels held reg)"] show ?thesis
    using calmer_reap [of reg held 0 0]
    by (simp add: reclaim_unowned_ipc_def t release_fold reap_unowned_channels_def case_prod_unfold)
qed

lemma complete_where_frame:
  "complete_where due st en is = (w, en') \<Longrightarrow>
     en_ipc en' = en_ipc en \<and> en_port_bindings en' = en_port_bindings en \<and> en_objects en' = en_objects en"
proof (induction "is" arbitrary: en w en')
  case (Cons i rest)
  obtain w0 en0 where c: "complete_call en i st 0 (replicate 4 0) False = (w0, en0)" by force
  obtain w1 en1 where r: "complete_where due st en0 rest = (w1, en1)" by force
  have "en_ipc en0 = en_ipc en \<and> en_port_bindings en0 = en_port_bindings en \<and> en_objects en0 = en_objects en"
    using complete_call_frame [of en i st 0 "replicate 4 0" False] c by simp
  with Cons.IH [OF r] Cons.IH [of en w en'] Cons.prems c r show ?case
    by (simp only: complete_where.simps prod.case split: if_splits) auto
qed simp

lemma wake_peers_notified: "notified claimed en \<Longrightarrow> notified claimed (wake_closed_peers ps en)"
  by (induction ps arbitrary: en) (simp_all add: notified_log notified_signal)

lemma wake_callers_notified: "notified claimed en \<Longrightarrow> notified claimed (fold wake_call_caller ws en)"
  by (induction ws arbitrary: en) (simp_all add: wake_call_caller_def notified_log)

lemma close_channel_notified:
  assumes "notified claimed en"
  shows "notified claimed (close_channel held en k)"
proof -
  obtain ws en1 where c: "complete_calls_on_endpoint_closed en k = (ws, en1)" by force
  have n: "notified claimed en1"
    using complete_where_frame [OF c [unfolded complete_calls_on_endpoint_closed_def]]
    by (intro notified_cong [OF assms]) auto
  have "notified claimed (en1\<lparr>en_ipc := snd (close_by_koid held (en_ipc en1) k)\<rparr>)"
    by (rule calmer_notified [OF calmer_close n])
  then show ?thesis
    by (auto simp: close_channel_def c Let_def intro!: wake_callers_notified wake_peers_notified
        split: prod.splits sum.splits)
qed

lemma release_timer_notified: "notified claimed en \<Longrightarrow> notified claimed (snd (release_timer en k))"
  by (erule notified_cong) (simp_all add: release_timer_def Let_def)

lemma release_resource_notified: "notified claimed en \<Longrightarrow> notified claimed (snd (release_resource en k))"
  by (erule notified_cong) (simp_all add: release_resource_def Let_def)

lemma handle_close_notified:
  assumes "notified claimed en" and "dispatch_handle_close held en t h = (r, en', t')"
  shows "notified claimed en'"
  using assms
  by (auto simp: dispatch_handle_close_def Let_def split: prod.splits sum.splits if_splits
      intro!: reclaim_notified close_channel_notified unbind_notified(2) release_timer_notified)

lemma teardown_peers_notified: "notified claimed en \<Longrightarrow> notified claimed (teardown_signal_peers ps en)"
  by (induction ps arbitrary: en) (simp_all add: notified_signal)

lemma teardown_entry_notified:
  assumes "notified claimed en" and "teardown_entry held kind koid (a, b, c, en) = (a', b', c', en')"
  shows "notified claimed en'"
proof -
  have chan: "notified claimed en2" if "complete_calls_on_endpoint_closed
      (teardown_signal_peers ps (en\<lparr>en_ipc := snd (close_by_koid held (en_ipc en) koid)\<rparr>)) koid = (ws, en2)" for ps ws en2
    using complete_where_frame [OF that [unfolded complete_calls_on_endpoint_closed_def]]
    by (intro notified_cong [OF teardown_peers_notified [OF calmer_notified [OF calmer_close assms(1)]]]) auto
  show ?thesis
    using assms chan
    by (auto simp: teardown_entry_def Let_def split: prod.splits if_splits
        intro!: unbind_notified(2) release_timer_notified release_resource_notified)
qed

lemma teardown_notified:
  "teardown_drained held ds (a, b, c, en) = (a', b', c', en') \<Longrightarrow> notified claimed en \<Longrightarrow> notified claimed en'"
proof (induction ds arbitrary: a b c en)
  case (Cons d ds)
  obtain kind koid where d: "d = (kind, koid)" by (cases d)
  obtain a1 b1 c1 en1 where e: "teardown_entry held kind koid (a, b, c, en) = (a1, b1, c1, en1)" by (metis prod_cases4)
  from Cons.IH [of a1 b1 c1 en1] Cons.prems e teardown_entry_notified [OF Cons.prems(2) e] show ?case by (simp add: d)
qed simp

section \<open>Creating, timers, interrupts and call records\<close>

lemma create_next:
  assumes "create om kind = (ob, om')" and "unat (next_koid om) + 1 < 2 ^ 64"
  shows "ko_koid ob = next_koid om" and "unat (next_koid om') = unat (next_koid om) + 1"
proof -
  have "unat (saturating_add (next_koid om) 1) = unat (next_koid om) + 1"
    using assms(2) by (simp add: unat_saturating_add)
  moreover have "1 \<le> saturating_add (next_koid om) 1"
    using calculation by (simp add: word_le_nat_alt)
  ultimately show "unat (next_koid om') = unat (next_koid om) + 1" "ko_koid ob = next_koid om"
    using assms(1) by (auto simp: create_def kernel_object_new_def max_def)
qed

lemma channel_create_notified:
  assumes "notified claimed en" and "dispatch_channel_create grow fresh fresh' en t = (r, en', t')"
    and "unat (next_koid (en_objects en)) + 2 < 2 ^ 64"
  shows "notified claimed en'"
proof -
  obtain res reg om t1 where c: "channel_create grow fresh fresh' (en_ipc en) (en_objects en) t = (res, reg, om, t1)"
    by (metis prod_cases4)
  obtain a om1 where a: "create (en_objects en) Channel = (a, om1)" by force
  obtain b om2 where b: "create om1 Channel = (b, om2)" by force
  note ca = create_next [OF a] note cb = create_next [OF b]
  have ks: "ko_koid a = next_koid (en_objects en)" "unat (ko_koid b) = unat (next_koid (en_objects en)) + 1"
    "unat (next_koid om2) = unat (next_koid (en_objects en)) + 2"
    using ca cb assms(3) by simp_all
  have om: "om = om2" using c a b
    by (auto simp: channel_create_def channel_pair_new_def split: sum.splits prod.splits)
  have en': "en' = en\<lparr>en_ipc := reg, en_objects := om2\<rparr>"
    using assms(2) c om by (auto simp: dispatch_channel_create_def split: sum.splits)
  have reg: "reg = en_ipc en \<or> (\<exists>p. reg = (en_ipc en)\<lparr>ir_channels := ir_channels (en_ipc en) @ [p]\<rparr>
      \<and> pair_koid p Left = ko_koid a \<and> pair_koid p Right = ko_koid b \<and> (\<forall>e. ep_inbox (endpoint p e) = []))"
    using c a b
    by (auto simp: channel_create_def channel_pair_new_def set_references_def endpoint_new_def all_ends
        split: sum.splits prod.splits)
  have below: "k < next_koid om2 \<and> k \<noteq> ko_koid a \<and> k \<noteq> ko_koid b" if "k \<in> set (endpoint_koids (en_ipc en))" for k
    using that assms(1) ks unfolding notified_def koids_ok_def by (fastforce simp: word_less_nat_alt)
  have ab: "ko_koid a \<noteq> ko_koid b" "ko_koid a < next_koid om2" "ko_koid b < next_koid om2"
    using ks by (auto simp: word_less_nat_alt)
  have "endpoint_koids reg = endpoint_koids (en_ipc en)
      \<or> endpoint_koids reg = endpoint_koids (en_ipc en) @ [ko_koid a, ko_koid b]"
    using reg by (auto simp: endpoint_koids_def)
  then have "koids_ok en'"
    using ab assms(1) unfolding en' notified_def koids_ok_def by (auto dest: below)
  moreover have "readable reg = readable (en_ipc en)" "packets_of reg = packets_of (en_ipc en)"
    using reg by (auto simp: readable_def packets_of_def fun_eq_iff) blast
  ultimately show ?thesis
    using assms(1) unfolding notified_def watched_ok_def en' announced_def by simp
qed

lemma find_append: "find P (xs @ ys) = (case find P xs of None \<Rightarrow> find P ys | Some x \<Rightarrow> Some x)"
  by (induction xs) auto

lemma port_create_notified:
  assumes "notified claimed en" and "dispatch_port_create grow fresh en t = (r, en', t')"
  shows "notified claimed en'"
proof -
  obtain res reg om t1 where c: "port_create grow fresh (en_ipc en) (en_objects en) t = (res, reg, om, t1)"
    by (metis prod_cases4)
  obtain a om1 where a: "create (en_objects en) Port = (a, om1)" by force
  have en': "en' = en\<lparr>en_ipc := reg, en_objects := om1\<rparr>"
    using assms(2) c a by (auto simp: dispatch_port_create_def port_create_def port_new_def split: sum.splits prod.splits)
  have le: "next_koid (en_objects en) \<le> next_koid om1" using create_bounds(3) [OF a] .
  have reg: "reg = en_ipc en \<or> (\<exists>p. reg = (en_ipc en)\<lparr>ir_ports := ir_ports (en_ipc en) @ [p]\<rparr>)"
    using c by (auto simp: port_create_def split: sum.splits prod.splits)
  then have "packets_of reg p = packets_of (en_ipc en) p" if "packets_of (en_ipc en) p \<noteq> None" for p
    using that by (auto simp: packets_of_def find_append split: option.splits)
  moreover have "readable reg = readable (en_ipc en)" "endpoint_koids reg = endpoint_koids (en_ipc en)"
    using reg by (auto simp: readable_def endpoint_koids_def fun_eq_iff)
  ultimately show ?thesis
    using assms(1) le unfolding notified_def koids_ok_def watched_ok_def en' announced_def by fastforce
qed

lemma timer_create_notified:
  assumes "notified claimed en" and "dispatch_timer_create grow en t dl = (r, en', t')"
  shows "notified claimed en'"
proof -
  obtain a om1 where a: "create (en_objects en) Timer = (a, om1)" by force
  show ?thesis
    by (rule notified_cong [OF assms(1)])
       (use assms(2) a create_bounds(3) [OF a] in
         \<open>auto simp: dispatch_timer_create_def split: if_splits sum.splits prod.splits\<close>)
qed

lemma timer_loop_notified: "notified claimed en \<Longrightarrow> notified claimed (timer_loop now en is)"
proof (induction now en "is" rule: timer_loop.induct)
  case (2 now en i rest)
  have "notified claimed (en\<lparr>en_timers := ts\<rparr>)" for ts by (rule notified_cong [OF 2(2)]) simp_all
  then have "notified claimed (if \<not> tb_fired (en_timers en ! i) \<and> tb_deadline_ns (en_timers en ! i) \<le> now
      then signal_ports (en\<lparr>en_timers := (en_timers en)[i := (en_timers en ! i)\<lparr>tb_fired := True\<rparr>]\<rparr>)
             (tb_koid (en_timers en ! i)) SIGNAL_TIMER
      else en)" using 2(2) by (simp add: notified_signal)
  from 2(1) [OF refl this] show ?case by (simp add: Let_def)
qed simp

lemma irq_loop_notified: "notified claimed en \<Longrightarrow> notified claimed (irq_loop held irq st en is)"
proof (induction held irq st en "is" rule: irq_loop.induct)
  case (2 held irq st en i rest)
  have "notified claimed (en\<lparr>en_interrupts := bs\<rparr>)" for bs by (rule notified_cong [OF 2(2)]) simp_all
  then have "notified claimed (if ib_irq b = irq \<and> ib_state b = Bound \<and> is_referenced held (en_ipc en) (ib_references b)
        \<and> \<not> (ib_requires_complete b \<and> ib_outstanding b)
      then signal_ports (log_wake (WakeInterrupt (ib_koid b))
             (en\<lparr>en_interrupts := (en_interrupts en)[i := irq_fired b st]\<rparr>)) (ib_koid b) SIGNAL_IRQ
      else en)" for b using 2(2) by (simp add: notified_signal notified_log)
  from 2(1) [OF refl this] show ?case by (simp add: Let_def)
qed simp

lemma retire_notified: "notified claimed en \<Longrightarrow> notified claimed (snd (retire_loop held mask_line en index removed))"
proof (induction held mask_line en index removed rule: retire_loop.induct)
  case (1 held mask_line en index removed)
  have a: "notified claimed (en\<lparr>en_interrupts := bs\<rparr>)" for bs by (rule notified_cong [OF 1(3)]) simp_all
  have b: "notified claimed ((snd (release_port_bindings (en\<lparr>en_interrupts := bs\<rparr>) k))\<lparr>en_interrupts := bs'\<rparr>)" for bs k bs'
    by (rule notified_cong [OF unbind_notified(2) [OF a [of bs], of k]]) simp_all
  show ?case
    unfolding retire_loop.simps [of held mask_line en index removed] Let_def
    using 1(1) [OF _ refl refl refl _ b] 1(2) [OF _ refl refl refl _ a] 1(3) by (simp add: Let_def)
qed

lemma remove_message_calmer: "calmer reg (snd (remove_message_with_bytes reg k bs))"
proof (cases rule: channel_end_for_cases [of reg k])
  case (missing e)
  then show ?thesis by (simp add: remove_message_with_bytes_def)
next
  case (found i e)
  let ?P = "\<lambda>m. mh_ordinal (km_header m) = 1 \<and> mh_flags (km_header m) = 0 \<and> km_bytes m = bs"
  let ?inbox = "ep_inbox (registry_endpoint reg i e)"
  show ?thesis
  proof (cases "find_rindex ?P ?inbox")
    case None
    with found show ?thesis by (simp add: remove_message_with_bytes_def)
  next
    case (Some j)
    then have "?inbox \<noteq> []" by (auto simp: find_rindex_def)
    then have "calmer reg (set_endpoint reg i e ((registry_endpoint reg i e)\<lparr>ep_inbox := remove_nth j ?inbox\<rparr>))"
      by (intro calmer_set_endpoint [OF found(3)]) simp_all
    moreover have "set_endpoint reg i e ((registry_endpoint reg i e)\<lparr>ep_inbox := remove_nth j ?inbox\<rparr>) =
        set_channel reg i (update_endpoint e (\<lambda>s. s\<lparr>ep_inbox := remove_nth j ?inbox\<rparr>) (ir_channels reg ! i))"
      by (cases e) (simp_all add: set_endpoint_def)
    ultimately show ?thesis using found Some by (simp add: remove_message_with_bytes_def Let_def)
  qed
qed

text \<open>Operations on call records, and a caller taking its reply out of its inbox.\<close>

fun record_op :: "call_op \<Rightarrow> bool" where
  "record_op (OpBegin _ _ _ _ _ _ _ _ _ _) = False"
| "record_op (OpIpc _) = False"
| "record_op _ = True"

lemma record_op_notified:
  assumes "notified claimed en" and "call_do op en = Some (out, en')" and "record_op op"
  shows "notified claimed en'"
proof (cases op)
  case (OpRead t h m th)
  with assms(2) obtain d where "note_call_read en t h m th = (d, en')" by (auto split: prod.splits)
  then show ?thesis by (cases rule: note_call_read_cases) (use assms(1) in \<open>auto intro: notified_cong\<close>)
next
  case (OpSweep now)
  with assms(2) show ?thesis
    by (auto simp: sweep_pending_calls_def dest!: complete_where_frame split: prod.splits
        intro!: notified_cong [OF assms(1)])
next
  case (OpClosed k)
  with assms(2) show ?thesis
    by (auto simp: complete_calls_on_endpoint_closed_def dest!: complete_where_frame split: prod.splits
        intro!: notified_cong [OF assms(1)])
next
  case (OpLegacy i bs)
  with assms(2) show ?thesis
    by (auto dest!: complete_legacy_frame split: prod.splits intro!: notified_cong [OF assms(1)])
next
  case (OpPop k len ws)
  with assms show ?thesis
    by (auto simp: pop_legacy_reply_def split: option.splits prod.splits
        intro!: calmer_notified [OF remove_message_calmer])
qed (use assms in \<open>auto simp: take_call_completion_def channel_reply_slot complete_call_slot
      note_call_donation_def abandon_calls_for_process_def split: option.splits if_splits prod.splits
      intro!: notified_cong [OF assms(1)]\<close>)

section \<open>All interleavings\<close>

text \<open>
  The engine states reachable from boot, each with the watches whose announcement is claimed.
  A watch needs the port's record to exist, which a handle to the port guarantees; handle
  tables are the well-formed ones; the object counter must not have reached its saturation
  value when a channel is created.
\<close>

inductive engine_reach :: "engine \<Rightarrow> (ko_id \<times> ko_id) set \<Rightarrow> bool" where
  boot: "engine_reach engine_new {}"
| channel_write: "engine_reach en cl \<Longrightarrow> table_wf t \<Longrightarrow> dispatch_channel_write en t h msg = (r, en', t') \<Longrightarrow>
    engine_reach en' cl"
| channel_read: "engine_reach en cl \<Longrightarrow> table_wf t \<Longrightarrow> dispatch_channel_read grow room en t h = (r, en', t') \<Longrightarrow>
    engine_reach en' (unclaimed t h r cl)"
| channel_call: "engine_reach en cl \<Longrightarrow> install_channel_call en t h th p sora dl len ws sb = Some (res, en') \<Longrightarrow>
    engine_reach en' cl"
| call_record: "engine_reach en cl \<Longrightarrow> record_op op \<Longrightarrow> call_do op en = Some (out, en') \<Longrightarrow> engine_reach en' cl"
| port_wait: "engine_reach en cl \<Longrightarrow> dispatch_port_wait en t h = (r, en') \<Longrightarrow> engine_reach en' (cl \<union> claims t h r)"
| port_bind: "engine_reach en cl \<Longrightarrow> dispatch_port_bind en t h ob = (r, en') \<Longrightarrow>
    (\<And>entry. require t h Port RIGHT_WAIT = Inr entry \<Longrightarrow> packets_of (en_ipc en) (he_koid entry) \<noteq> None) \<Longrightarrow>
    engine_reach en' cl"
| port_unbind: "engine_reach en cl \<Longrightarrow> dispatch_port_unbind en t h ob = (r, en') \<Longrightarrow> engine_reach en' cl"
| handle_close: "engine_reach en cl \<Longrightarrow> dispatch_handle_close held en t h = (r, en', t') \<Longrightarrow> engine_reach en' cl"
| channel_create: "engine_reach en cl \<Longrightarrow> unat (next_koid (en_objects en)) + 2 < 2 ^ 64 \<Longrightarrow>
    dispatch_channel_create grow fresh fresh' en t = (r, en', t') \<Longrightarrow> engine_reach en' cl"
| port_create: "engine_reach en cl \<Longrightarrow> dispatch_port_create grow fresh en t = (r, en', t') \<Longrightarrow> engine_reach en' cl"
| timer_create: "engine_reach en cl \<Longrightarrow> dispatch_timer_create grow en t dl = (r, en', t') \<Longrightarrow> engine_reach en' cl"
| timer_irq: "engine_reach en cl \<Longrightarrow> engine_reach (signal_timers en now) cl"
| device_irq: "engine_reach en cl \<Longrightarrow> engine_reach (signal_interrupt_at held en irq stamp) cl"
| retire_irqs: "engine_reach en cl \<Longrightarrow> engine_reach (snd (retire_interrupts_with held mask_line en)) cl"
| reclaim: "engine_reach en cl \<Longrightarrow> engine_reach (snd (reclaim_unowned_ipc held en)) cl"
| teardown: "engine_reach en cl \<Longrightarrow> teardown_drained held ds (a, b, c, en) = (a', b', c', en') \<Longrightarrow> engine_reach en' cl"

lemma engine_reach_notified: "engine_reach en cl \<Longrightarrow> notified cl en"
proof (induction rule: engine_reach.induct)
  case boot
  show ?case
    by (simp add: notified_def koids_ok_def watched_ok_def engine_new_def ipc_registry_new_def endpoint_koids_def)
next
  case channel_write
  then show ?case using write_notified by blast
next
  case channel_read
  then show ?case using read_notified by blast
next
  case channel_call
  then show ?case using call_notified by blast
next
  case call_record
  then show ?case using record_op_notified by blast
next
  case port_wait
  then show ?case using wait_notified by blast
next
  case port_bind
  then show ?case using dispatch_bind_notified by blast
next
  case port_unbind
  then show ?case using dispatch_unbind_notified by blast
next
  case handle_close
  then show ?case using handle_close_notified by blast
next
  case channel_create
  then show ?case using channel_create_notified by blast
next
  case port_create
  then show ?case using port_create_notified by blast
next
  case timer_create
  then show ?case using timer_create_notified by blast
next
  case timer_irq
  then show ?case by (simp add: signal_timers_def timer_loop_notified)
next
  case device_irq
  then show ?case by (simp add: signal_interrupt_at_def irq_loop_notified)
next
  case retire_irqs
  then show ?case by (simp add: retire_interrupts_with_def retire_notified)
next
  case reclaim
  then show ?case using reclaim_notified by blast
next
  case teardown
  then show ?case using teardown_notified by blast
qed

text \<open>
  C4: No lost notification. In every reachable state, when a port watches a channel endpoint
  and the endpoint is readable, the port holds a packet that announces it, unless a thread has
  taken such a packet and no message was read from the endpoint since. A server that waits on
  the port and then reads one message therefore never sleeps on a non-empty inbox, although
  a burst of writes coalesces into one packet and messages may arrive before the watch.
\<close>

theorem no_lost_notification:
  assumes "engine_reach en claimed" and "(p, k) \<in> set (en_port_bindings en)"
    and "channel_signals_by_koid (en_ipc en) k = Inr s" and "mask_contains s SIGNAL_READABLE"
    and "(p, k) \<notin> claimed"
  shows "\<exists>i q. port_mut_by_koid (en_ipc en) p = Inr i \<and> q \<in> set (po_packets (ir_ports (en_ipc en) ! i))
    \<and> pk_source q = k \<and> mask_contains (pk_signals q) SIGNAL_READABLE"
proof -
  from engine_reach_notified [OF assms(1)] have n: "koids_ok en" "watched_ok claimed {} en" by (auto simp: notified_def)
  have "readable (en_ipc en) k" using signals_readable n(1) assms(3,4) by (auto simp: koids_ok_def)
  with n(2) assms(2,5) have "announced (en_ipc en) p k" by (auto simp: watched_ok_def)
  then show ?thesis
    by (auto simp: announced_def packets_of_def port_mut_find list_ex_iff split: option.splits sum.splits)
qed

section \<open>A watched channel\<close>

definition watch_entry :: "handle \<Rightarrow> object_kind \<Rightarrow> rights \<Rightarrow> lineage \<Rightarrow> owned_handle_entry" where
  "watch_entry h kind rs l =
     \<lparr>oh_entry = \<lparr>he_handle = h, he_koid = ucast h, he_kind = kind, he_rights = rs\<rparr>, oh_reference = Some l\<rparr>"

definition watch_table :: "owned_handle_entry list \<Rightarrow> handle \<Rightarrow> handle_table" where
  "watch_table port_entries next =
     \<lparr>ht_entries = [watch_entry 1 Channel 47 1, watch_entry 2 Channel 47 2] @ port_entries, ht_next_handle = next\<rparr>"

definition watch_registry :: "kernel_message list \<Rightarrow> port list \<Rightarrow> ipc_registry" where
  "watch_registry inbox ports =
     \<lparr>ir_channels =
        [\<lparr>cp_left = (endpoint_new (kernel_object_new 1 Channel))\<lparr>ep_references := Some 1\<rparr>,
          cp_right = (endpoint_new (kernel_object_new 2 Channel))\<lparr>ep_inbox := inbox, ep_references := Some 2\<rparr>\<rparr>],
      ir_ports = ports\<rparr>"

definition watch_port :: "port_packet list \<Rightarrow> port" where
  "watch_port packets = \<lparr>po_object = kernel_object_new 3 Port, po_packets = packets, po_references = Some 3\<rparr>"

definition watch_engine :: "ko_id \<Rightarrow> ipc_registry \<Rightarrow> (ko_id \<times> ko_id) list \<Rightarrow> user_wake list \<Rightarrow> engine" where
  "watch_engine next reg bindings wakes =
     engine_new\<lparr>en_objects := \<lparr>next_koid = next\<rparr>, en_ipc := reg, en_port_bindings := bindings, en_wakes := wakes\<rparr>"

definition watch_message :: message where
  "watch_message = \<lparr>ms_header = message_header_new 1 1 0, ms_bytes = [7], ms_handles = []\<rparr>"

definition watch_queued :: kernel_message where
  "watch_queued = \<lparr>km_header = message_header_new 1 1 0, km_bytes = [7], km_handles = [], km_transfers = []\<rparr>"

lemmas watch_eval = watch_entry_def watch_table_def watch_registry_def watch_port_def watch_engine_def
  engine_new_def object_manager_new_def ipc_registry_new_def handle_table_new_def endpoint_new_def
  kernel_object_new_def create_def saturating_add_def max_def CHANNEL_RIGHTS_def right_defs

lemma watch_create:
  "dispatch_channel_create (\<lambda>_. True) 1 2 engine_new handle_table_new =
     (KR_Handles 1 2, watch_engine 3 (watch_registry [] []) [] [], watch_table [] 3)"
  by (simp add: dispatch_channel_create_def channel_create_def channel_pair_new_def insert_channel_def
      insert_referenced_def insert_parts_def reserve_insert_def checked_add_def set_references_def Let_def word_le_nat_alt watch_eval)

lemma watch_port_create:
  "dispatch_port_create (\<lambda>_. True) 3 (watch_engine 3 (watch_registry [] []) [] []) (watch_table [] 3) =
     (KR_Handle 3, watch_engine 4 (watch_registry [] [watch_port []]) [] [], watch_table [watch_entry 3 Port 35 3] 4)"
  by (simp add: dispatch_port_create_def port_create_def port_new_def insert_referenced_def insert_parts_def
      reserve_insert_def checked_add_def Let_def word_le_nat_alt watch_eval)

abbreviation watch_full :: handle_table where
  "watch_full \<equiv> watch_table [watch_entry 3 Port 35 3] 4"

lemma watch_full_wf: "table_wf watch_full"
  by (simp add: table_wf_def table_issued_def watch_eval)

lemma watch_get:
  "get watch_full 1 = Inr (oh_entry (watch_entry 1 Channel 47 1))"
  "get watch_full 2 = Inr (oh_entry (watch_entry 2 Channel 47 2))"
  "get watch_full 3 = Inr (oh_entry (watch_entry 3 Port 35 3))"
  by (simp_all add: get_lookup [OF watch_full_wf] table_lookup_def) (simp_all add: watch_eval)

lemma watch_bind:
  "dispatch_port_bind (watch_engine 4 (watch_registry [] [watch_port []]) [] []) watch_full 3 2 =
     (KR_Status 0, watch_engine 4 (watch_registry [] [watch_port []]) [(3, 2)] [])"
proof -
  have "watch_koids watch_full 3 2 = Inr (3, 2)"
    by (simp add: watch_koids_def require_def watch_get) (simp add: watch_eval rights_contains_def mask_contains_def)
  then show ?thesis
    by (simp add: dispatch_port_bind_def port_bind_def channel_signals_by_koid_def pair_signals_def channel_backlog_def
        signal_defs mask_contains_def process_by_koid_def List.map_filter_def Let_def watch_eval)
qed

lemma watch_write:
  "\<exists>t. dispatch_channel_write (watch_engine 4 (watch_registry [] [watch_port []]) [(3, 2)] []) watch_full 1 watch_message =
     (KR_Status 0, watch_engine 4 (watch_registry [watch_queued] [watch_port [\<lparr>pk_source = 2, pk_signals = 1\<rparr>]]) [(3, 2)]
        [WakePort 3, WakeChannel 2], t)"
proof -
  have "require watch_full 1 Channel RIGHT_WRITE = Inr (oh_entry (watch_entry 1 Channel 47 1))"
    by (simp add: require_def watch_get) (simp add: watch_eval rights_contains_def mask_contains_def)
  moreover have "channel_end_for (watch_registry [] [watch_port []]) 1 = Inr Left"
    "channel_mut_by_koid (watch_registry [] [watch_port []]) 1 = Inr 0" "he_koid (oh_entry (watch_entry 1 Channel 47 1)) = 1"
    by (simp_all add: channel_end_for_def channel_mut_by_koid_def watch_eval)
  ultimately have w: "channel_write (watch_registry [] [watch_port []]) watch_full 1 watch_message =
      (Inr (), watch_registry [watch_queued] [watch_port []], watch_full)"
    by (simp add: channel_write_def watch_message_def from_borrowed_def attach_transfers_def MAX_INLINE_BYTES_def
        MAX_MESSAGE_HANDLES_def)
       (simp add: watch_registry_def pair_write_def endpoint_new_def set_channel_def watch_queued_def)
  have "legacy_candidate (watch_engine 4 (watch_registry [] [watch_port []]) [(3, 2)] []) watch_full 1 watch_message = None"
    by (simp add: legacy_candidate_def watch_get legacy_reply_candidate_def watch_engine_def engine_new_def split: sum.splits)
  moreover have "peer_of_handle (watch_engine 4 (watch_registry [] [watch_port []]) [(3, 2)] []) watch_full 1 = Some 2"
    by (simp add: peer_of_handle_def watch_get) (simp add: peer_koid_for_def watch_eval)
  ultimately show ?thesis
    using w by (simp add: dispatch_channel_write_def watch_engine_def Let_def)
      (simp add: signal_ports_def log_wake_def port_queue_signal_by_koid_def port_mut_by_koid_def queue_signal_def
        watch_registry_def watch_port_def kernel_object_new_def signal_defs)
qed

theorem no_lost_notification_witness:
  "\<exists>i q. port_mut_by_koid (watch_registry [watch_queued] [watch_port [\<lparr>pk_source = 2, pk_signals = 1\<rparr>]]) 3 = Inr i
     \<and> q \<in> set (po_packets (ir_ports (watch_registry [watch_queued] [watch_port [\<lparr>pk_source = 2, pk_signals = 1\<rparr>]]) ! i))
     \<and> pk_source q = 2 \<and> mask_contains (pk_signals q) SIGNAL_READABLE"
proof -
  let ?reg = "watch_registry [watch_queued] [watch_port [\<lparr>pk_source = 2, pk_signals = 1\<rparr>]]"
  have "engine_reach (watch_engine 3 (watch_registry [] []) [] []) {}"
    by (rule engine_reach.channel_create [OF engine_reach.boot _ watch_create])
       (simp add: engine_new_def object_manager_new_def)
  note bind = engine_reach.port_bind [OF engine_reach.port_create [OF this watch_port_create] watch_bind]
  have "engine_reach (watch_engine 4 (watch_registry [] [watch_port []]) [(3, 2)] []) {}"
  proof (rule bind)
    fix entry assume "require watch_full 3 Port RIGHT_WAIT = Inr entry"
    then have "entry = oh_entry (watch_entry 3 Port 35 3)" by (auto simp: require_def watch_get split: if_splits)
    then have "he_koid entry = 3" by (simp add: watch_entry_def)
    then show "packets_of (en_ipc (watch_engine 4 (watch_registry [] [watch_port []]) [] [])) (he_koid entry) \<noteq> None"
      by (simp add: packets_of_def watch_engine_def watch_registry_def watch_port_def kernel_object_new_def)
  qed
  with watch_write engine_reach.channel_write [OF _ watch_full_wf]
  have r: "engine_reach (watch_engine 4 ?reg [(3, 2)] [WakePort 3, WakeChannel 2]) {}" by blast
  have e: "en_ipc (watch_engine 4 ?reg [(3, 2)] [WakePort 3, WakeChannel 2]) = ?reg"
    "en_port_bindings (watch_engine 4 ?reg [(3, 2)] [WakePort 3, WakeChannel 2]) = [(3, 2)]"
    by (simp_all add: watch_engine_def)
  have "channel_signals_by_koid ?reg 2 = Inr 3"
    by (simp add: channel_signals_by_koid_def pair_signals_def signal_defs watch_eval)
  then show ?thesis
    using no_lost_notification [OF r, of 3 2 3] e by (simp add: mask_contains_def signal_defs)
qed

end
