(* ===== verification/Engine_Gaps.thy ===== *)
theory Engine_Gaps
  imports Engine_Dispatch
begin

text \<open>
  Two runs of the engine in which a thread waits for an event the kernel no longer delivers:
  a caller whose server endpoint is closed by the cascade of another close, and a watch that
  is dropped when a process dies that only shared the watched port.
\<close>

section \<open>A call on an endpoint closed by a cascade\<close>

definition cascade_call :: pending_call where
  "cascade_call =
     \<lparr>pc_caller_end = 2, pc_peer_end = 1, pc_caller_thread = 31, pc_caller_process = 21, pc_caller_is_sora = False,
      pc_ordinal = 2, pc_deadline_ns = 0, pc_payload_len = 0, pc_payload_words = replicate 4 0,
      pc_completion = None, pc_reply_len = 0, pc_reply_words = replicate 4 0, pc_legacy_reply = False,
      pc_consumed = False, pc_served_by = None, pc_donation = None, pc_caller_gone = False\<rparr>"

definition cascade_engine :: engine where
  "cascade_engine = engine_new\<lparr>en_ipc := sample_registry, en_pending_calls := [Some cascade_call]\<rparr>"

definition cascade_table :: handle_table where
  "cascade_table = \<lparr>ht_entries = [sample_owner 3 13], ht_next_handle = 2\<rparr>"

lemma cascade_remove: "remove cascade_table 1 = (Inr (sample_owner 3 13), cascade_table\<lparr>ht_entries := []\<rparr>)"
proof -
  have wf: "table_wf cascade_table"
    by (simp add: table_wf_def table_issued_def cascade_table_def sample_owner_def)
  have "position cascade_table 1 = Some 0"
    using position_iff [OF wf, of 1 0] by (simp add: cascade_table_def sample_owner_def)
  then show ?thesis by (simp add: remove_def cascade_table_def remove_nth_def)
qed

lemma cascade_closed:
  "\<exists>reg. close_by_koid (sample_held {12, 14, 16}) sample_registry 3 = (Inr [4, 2, 6], reg)
     \<and> snd (reap_unowned_channels (sample_held {12, 14, 16}) reg) = reg
     \<and> channel_signals_by_koid reg 2 = Inr SIGNAL_PEER_CLOSED \<and> ir_ports reg = []"
  by (simp add: close_eval reap_eval sample_registry_eval channel_signals_by_koid_def pair_signals_def Let_def)


section \<open>A watch dropped with a shared port\<close>

definition shared_engine :: engine where
  "shared_engine =
     engine_new\<lparr>en_ipc := \<lparr>ir_channels = [], ir_ports = [\<lparr>po_object = kernel_object_new 5 Port, po_packets = [],
                   po_references = Some 7\<rparr>]\<rparr>,
       en_port_bindings := [(5, 9)],
       en_processes := [Some (process_from_parts 9 \<lparr>va_base = 0, va_len = 4096\<rparr>)]\<rparr>"


end
