(* ===== verification/Engine_Devices.thy ===== *)
theory Engine_Devices
  imports Engine_Dispatch Mm_Vmo
begin

text \<open>
  Hardware authority: the Resource and Interrupt part of the system-call engine
  (\<open>kernel/src/syscall.rs\<close>) with the interrupt encodings of \<open>lib/kumo-abi/src/sys.rs\<close>.

  A Resource grants a physical range and a window of interrupt numbers. Root Resources are
  made by the kernel at boot; every other Resource is a child cut out of a Resource its
  creator may manage. Registers are minted into a memory object, and interrupt lines are
  bound, only through a Resource that covers them. The answers of the hardware abstraction
  layer are the fields of \<open>irq_hal\<close> and the parameters \<open>blocked\<close> and \<open>read_only\<close>.
\<close>

unbundle bit_operations_syntax

section \<open>Interrupt encodings\<close>

definition IRQ_KIND_TLMM_GPIO :: u32 where "IRQ_KIND_TLMM_GPIO = 0x80000000"
definition TLMM_GPIO_PIN_MASK :: u32 where "TLMM_GPIO_PIN_MASK = 0x00000FFF"
definition TLMM_GPIO_FLAGS_SHIFT :: nat where "TLMM_GPIO_FLAGS_SHIFT = 12"
definition TLMM_GPIO_FLAGS_MASK :: u32 where "TLMM_GPIO_FLAGS_MASK = 0x000FF000"

record tlmm_gpio =
  tg_pin :: u32
  tg_flags :: u32

definition tlmm_gpio_irq_window_base :: "u32 \<Rightarrow> u32" where
  "tlmm_gpio_irq_window_base pin = IRQ_KIND_TLMM_GPIO OR (pin AND TLMM_GPIO_PIN_MASK)"

definition tlmm_gpio_irq :: "u32 \<Rightarrow> u32 \<Rightarrow> u32" where
  "tlmm_gpio_irq pin flags =
     tlmm_gpio_irq_window_base pin OR (push_bit TLMM_GPIO_FLAGS_SHIFT flags AND TLMM_GPIO_FLAGS_MASK)"

definition decode_tlmm_gpio_irq :: "u32 \<Rightarrow> tlmm_gpio option" where
  "decode_tlmm_gpio_irq irq =
     (if irq AND IRQ_KIND_TLMM_GPIO = 0 then None
      else Some \<lparr>tg_pin = irq AND TLMM_GPIO_PIN_MASK,
                 tg_flags = drop_bit TLMM_GPIO_FLAGS_SHIFT (irq AND TLMM_GPIO_FLAGS_MASK)\<rparr>)"

definition interrupt_authority_key :: "u32 \<Rightarrow> u32" where
  "interrupt_authority_key irq =
     (case decode_tlmm_gpio_irq irq of
        Some gpio \<Rightarrow> tlmm_gpio_irq_window_base (tg_pin gpio)
      | None \<Rightarrow> irq)"

section \<open>Interrupt sources\<close>

record irq_hal =
  hal_configure_gpio :: "u32 \<Rightarrow> u32 \<Rightarrow> u32 \<Rightarrow> bool"
  hal_configure_spi :: "u32 \<Rightarrow> bool"
  hal_display_last_close :: "u32 \<Rightarrow> bool option"
  hal_mask_gpio :: "u32 \<Rightarrow> bool"
  hal_mask_spi :: "u32 \<Rightarrow> bool"
  hal_complete_gpio :: "u32 \<Rightarrow> bool"
  hal_unmask_spi :: "u32 \<Rightarrow> bool"

definition configure_interrupt_source :: "irq_hal \<Rightarrow> u32 \<Rightarrow> errno + u32" where
  "configure_interrupt_source hal irq =
     (let key = interrupt_authority_key irq in
      case decode_tlmm_gpio_irq irq of
        Some gpio \<Rightarrow>
          if \<not> hal_configure_gpio hal (tg_pin gpio) (tg_flags gpio) key then Inl E_NotSupported
          else Inr key
      | None \<Rightarrow> if \<not> hal_configure_spi hal irq then Inl E_NotSupported else Inr key)"

definition mask_interrupt_source :: "irq_hal \<Rightarrow> u32 \<Rightarrow> bool" where
  "mask_interrupt_source hal irq =
     (case hal_display_last_close hal irq of
        Some retired \<Rightarrow> retired
      | None \<Rightarrow>
          if decode_tlmm_gpio_irq irq \<noteq> None then hal_mask_gpio hal irq
          else 32 \<le> irq \<and> hal_mask_spi hal irq)"

definition complete_interrupt_source :: "irq_hal \<Rightarrow> u32 \<Rightarrow> errno + unit" where
  "complete_interrupt_source hal irq =
     (if decode_tlmm_gpio_irq irq \<noteq> None
      then (if \<not> hal_complete_gpio hal irq then Inl E_NotSupported else Inr ())
      else if 32 \<le> irq \<and> \<not> hal_unmask_spi hal irq then Inl E_BadState
      else Inr ())"

definition irq_complete :: "(u32 \<Rightarrow> errno + unit) \<Rightarrow> irq_binding \<Rightarrow> (errno + unit) \<times> irq_binding" where
  "irq_complete complete b =
     (if \<not> ib_outstanding b \<and> ib_requires_complete b then (Inr (), b)
      else case complete (ib_irq b) of
             Inl e \<Rightarrow> (Inl e, b)
           | Inr _ \<Rightarrow> (Inr (), b\<lparr>ib_outstanding := False\<rparr>))"

section \<open>Resources\<close>

definition resource_contains :: "resource_binding \<Rightarrow> u64 \<Rightarrow> u64 \<Rightarrow> bool" where
  "resource_contains parent phys_base len =
     (case checked_add phys_base len of
        None \<Rightarrow> False
      | Some e \<Rightarrow>
          (case checked_add (rb_phys_base parent) (rb_len parent) of
             None \<Rightarrow> False
           | Some parent_end \<Rightarrow> rb_phys_base parent \<le> phys_base \<and> e \<le> parent_end))"

definition resource_contains_irq_window :: "resource_binding \<Rightarrow> u32 \<Rightarrow> u32 \<Rightarrow> bool" where
  "resource_contains_irq_window parent irq_base irq_count =
     (let start = (ucast irq_base :: u64);
          e = start + ucast irq_count;
          parent_start = (ucast (rb_irq_base parent) :: u64);
          parent_end = parent_start + ucast (rb_irq_count parent)
      in parent_start \<le> start \<and> e \<le> parent_end)"

definition resource_contains_irq :: "resource_binding \<Rightarrow> u32 \<Rightarrow> bool" where
  "resource_contains_irq parent irq =
     (let key = (ucast (interrupt_authority_key irq) :: u64);
          parent_start = (ucast (rb_irq_base parent) :: u64);
          parent_end = parent_start + ucast (rb_irq_count parent)
      in parent_start \<le> key \<and> key < parent_end)"

definition resource_by_koid :: "engine \<Rightarrow> ko_id \<Rightarrow> resource_binding option" where
  "resource_by_koid en koid = find (\<lambda>r. rb_koid r = koid) (en_resources en)"

definition root_resource_create ::
  "(handle_table \<Rightarrow> bool) \<Rightarrow> engine \<Rightarrow> handle_table \<Rightarrow> u64 \<Rightarrow> u64 \<Rightarrow> u32 \<Rightarrow> u32
     \<Rightarrow> (object_error + handle) \<times> engine \<times> handle_table" where
  "root_resource_create grow en t phys_base len irq_base irq_count =
     (case create (en_objects en) Resource of (ob, objects) \<Rightarrow>
        (case table_insert grow t ob
                (RIGHT_READ OR RIGHT_WRITE OR RIGHT_DUPLICATE OR RIGHT_TRANSFER OR RIGHT_MANAGE) of
           (Inl e, t') \<Rightarrow> (Inl e, en\<lparr>en_objects := objects\<rparr>, t')
         | (Inr h, t') \<Rightarrow>
             (Inr h,
              en\<lparr>en_objects := objects,
                 en_resources := en_resources en @
                   [\<lparr>rb_koid = ko_koid ob, rb_phys_base = phys_base, rb_len = len,
                     rb_irq_base = irq_base, rb_irq_count = irq_count\<rparr>]\<rparr>, t')))"

definition resource_create_child ::
  "(handle_table \<Rightarrow> bool) \<Rightarrow> engine \<Rightarrow> handle_table \<Rightarrow> handle \<Rightarrow> u64 \<Rightarrow> u64 \<Rightarrow> u32 \<Rightarrow> u32
     \<Rightarrow> (errno + handle) \<times> engine \<times> handle_table" where
  "resource_create_child grow en t parent_h phys_base len irq_base irq_count =
     (if len = 0 then (Inl E_InvalidArgs, en, t)
      else case require t parent_h Resource RIGHT_MANAGE of
        Inl e \<Rightarrow> (Inl (errno_from_object e), en, t)
      | Inr parent_entry \<Rightarrow>
          (case resource_by_koid en (he_koid parent_entry) of
             None \<Rightarrow> (Inl E_BadHandle, en, t)
           | Some parent \<Rightarrow>
               if \<not> resource_contains parent phys_base len then (Inl E_AccessDenied, en, t)
               else if \<not> resource_contains_irq_window parent irq_base irq_count
               then (Inl E_AccessDenied, en, t)
               else case create (en_objects en) Resource of (ob, objects) \<Rightarrow>
                 (case table_insert grow t ob
                         (RIGHT_READ OR RIGHT_WRITE OR RIGHT_DUPLICATE OR RIGHT_TRANSFER) of
                    (Inl e, t') \<Rightarrow> (Inl (errno_from_object e), en\<lparr>en_objects := objects\<rparr>, t')
                  | (Inr h, t') \<Rightarrow>
                      (Inr h,
                       en\<lparr>en_objects := objects,
                          en_resources := en_resources en @
                            [\<lparr>rb_koid = ko_koid ob, rb_phys_base = phys_base, rb_len = len,
                              rb_irq_base = irq_base, rb_irq_count = irq_count\<rparr>]\<rparr>, t'))))"

definition dispatch_resource_create_child ::
  "(handle_table \<Rightarrow> bool) \<Rightarrow> engine \<Rightarrow> handle_table \<Rightarrow> handle \<Rightarrow> u64 \<Rightarrow> u64 \<Rightarrow> u32 \<Rightarrow> u32
     \<Rightarrow> kernel_call_result \<times> engine \<times> handle_table" where
  "dispatch_resource_create_child grow en t parent_h phys_base len irq_base irq_count =
     (case resource_create_child grow en t parent_h phys_base len irq_base irq_count of
        (Inr h, en', t') \<Rightarrow> (KR_Handle h, en', t')
      | (Inl e, en', t') \<Rightarrow> (status_of e, en', t'))"

definition dispatch_framebuffer_claim :: "engine \<Rightarrow> handle_table \<Rightarrow> handle \<Rightarrow> u64 \<Rightarrow> u64 \<Rightarrow> kernel_call_result" where
  "dispatch_framebuffer_claim en t resource phys_base len =
     (case require t resource Resource RIGHT_WRITE of
        Inl e \<Rightarrow> status_of (errno_from_object e)
      | Inr entry \<Rightarrow>
          (case resource_by_koid en (he_koid entry) of
             None \<Rightarrow> status_of E_BadHandle
           | Some res \<Rightarrow>
               if len = 0 then status_of E_InvalidArgs
               else if \<not> resource_contains res phys_base len then status_of E_AccessDenied
               else status_of E_Ok))"

text \<open>
  \<open>ResourceMintMmio\<close> up to the memory object and the rights it hands to \<open>root_vmo_create\<close>.
  \<open>blocked\<close> and \<open>read_only\<close> are \<open>device_aperture_blocked\<close> and \<open>device_mmio_read_only\<close> of the
  hardware layer; \<open>fb\<close> is the span of \<open>framebuffer_ram\<close>.
\<close>

definition mint_mmio ::
  "(u64 \<Rightarrow> u64 \<Rightarrow> bool) \<Rightarrow> (u64 \<Rightarrow> u64 \<Rightarrow> bool) \<Rightarrow> (u64 \<times> u64) option
     \<Rightarrow> engine \<Rightarrow> handle_table \<Rightarrow> handle \<Rightarrow> u64 \<Rightarrow> u64 \<Rightarrow> errno + vmo \<times> rights" where
  "mint_mmio blocked read_only fb en t resource phys_base len =
     (case require t resource Resource RIGHT_READ of
        Inl e \<Rightarrow> Inl (errno_from_object e)
      | Inr entry \<Rightarrow>
          (case resource_by_koid en (he_koid entry) of
             None \<Rightarrow> Inl E_BadHandle
           | Some res \<Rightarrow>
               if len = 0 then Inl E_InvalidArgs
               else if \<not> resource_contains res phys_base len then Inl E_AccessDenied
               else if blocked phys_base len then Inl E_BadState
               else
                 let wr = (if read_only phys_base len then 0 else he_rights entry AND RIGHT_WRITE);
                     tr = (if rights_contains (he_rights entry) RIGHT_TRANSFER \<and> fb = Some (phys_base, len)
                           then RIGHT_TRANSFER else 0)
                 in case from_mmio_range phys_base len of
                      Inl _ \<Rightarrow> Inl E_InvalidArgs
                    | Inr v \<Rightarrow> Inr (v, RIGHT_READ OR RIGHT_DUPLICATE OR wr OR tr)))"

section \<open>Interrupts\<close>

text \<open>\<open>room\<close> is the answer of \<open>interrupts.try_reserve(1)\<close>.\<close>

definition dispatch_interrupt_create ::
  "irq_hal \<Rightarrow> (handle_table \<Rightarrow> bool) \<Rightarrow> bool \<Rightarrow> lineage \<Rightarrow> engine \<Rightarrow> handle_table \<Rightarrow> handle \<Rightarrow> u32
     \<Rightarrow> kernel_call_result \<times> engine \<times> handle_table" where
  "dispatch_interrupt_create hal grow room fresh en t resource irq =
     (case require t resource Resource RIGHT_WRITE of
        Inl e \<Rightarrow> (status_of (errno_from_object e), en, t)
      | Inr entry \<Rightarrow>
      (case resource_by_koid en (he_koid entry) of
         None \<Rightarrow> (status_of E_BadHandle, en, t)
       | Some res \<Rightarrow>
       if \<not> resource_contains_irq res irq then (status_of E_AccessDenied, en, t)
       else if list_ex (\<lambda>b. ib_irq b = interrupt_authority_key irq \<and> ib_state b \<noteq> Released) (en_interrupts en)
       then (status_of E_BadState, en, t)
       else case reserve_insert grow t of
         Inl e \<Rightarrow> (status_of (errno_from_object e), en, t)
       | Inr _ \<Rightarrow>
       if \<not> room then (status_of E_NoMemory, en, t)
       else case create (en_objects en) Interrupt of (ob, objects) \<Rightarrow>
       (case insert_interrupt grow fresh t ob (RIGHT_READ OR RIGHT_WAIT OR RIGHT_DUPLICATE) of
          (Inl e, t') \<Rightarrow> (status_of (errno_from_object e), en\<lparr>en_objects := objects\<rparr>, t')
        | (Inr (h, references), t') \<Rightarrow>
        (case configure_interrupt_source hal irq of
           Inl e \<Rightarrow> (status_of e, en\<lparr>en_objects := objects\<rparr>, snd (close t' h))
         | Inr key \<Rightarrow>
             (KR_Handle h,
              en\<lparr>en_objects := objects,
                 en_interrupts := en_interrupts en @
                   [\<lparr>ib_references = references, ib_state = Bound, ib_irq = key, ib_koid = ko_koid ob,
                     ib_count = 0, ib_requires_complete = (decode_tlmm_gpio_irq key \<noteq> None),
                     ib_outstanding = False, ib_stamp_ns = 0, ib_consumed_stamp_ns = 0\<rparr>]\<rparr>, t')))))"

definition dispatch_interrupt_wait :: "engine \<Rightarrow> handle_table \<Rightarrow> handle \<Rightarrow> kernel_call_result \<times> engine" where
  "dispatch_interrupt_wait en t interrupt =
     (case require t interrupt Interrupt RIGHT_WAIT of
        Inl e \<Rightarrow> (status_of (errno_from_object e), en)
      | Inr entry \<Rightarrow>
          (case find_index (\<lambda>b. ib_koid b = he_koid entry \<and> ib_state b = Bound) (en_interrupts en) of
             None \<Rightarrow> (status_of E_BadHandle, en)
           | Some i \<Rightarrow>
               let b = en_interrupts en ! i in
               if 0 < ib_count b
               then (KR_Handle (ucast (ib_count b)),
                     en\<lparr>en_interrupts := (en_interrupts en)
                          [i := b\<lparr>ib_count := 0, ib_consumed_stamp_ns := ib_stamp_ns b, ib_stamp_ns := 0\<rparr>]\<rparr>)
               else (status_of E_ShouldWait, en)))"

definition dispatch_interrupt_complete ::
  "irq_hal \<Rightarrow> engine \<Rightarrow> handle_table \<Rightarrow> handle \<Rightarrow> kernel_call_result \<times> engine" where
  "dispatch_interrupt_complete hal en t interrupt =
     (case require t interrupt Interrupt RIGHT_WAIT of
        Inl e \<Rightarrow> (status_of (errno_from_object e), en)
      | Inr entry \<Rightarrow>
          (case find_index (\<lambda>b. ib_koid b = he_koid entry \<and> ib_state b = Bound) (en_interrupts en) of
             None \<Rightarrow> (status_of E_BadHandle, en)
           | Some i \<Rightarrow>
               (case irq_complete (complete_interrupt_source hal) (en_interrupts en ! i) of
                  (r, b) \<Rightarrow>
                    ((case r of Inr _ \<Rightarrow> status_of E_Ok | Inl e \<Rightarrow> status_of e),
                     en\<lparr>en_interrupts := (en_interrupts en)[i := b]\<rparr>))))"

definition retire_interrupts :: "irq_hal \<Rightarrow> (lineage \<Rightarrow> bool) \<Rightarrow> engine \<Rightarrow> nat \<times> engine" where
  "retire_interrupts hal held en = retire_interrupts_with held (mask_interrupt_source hal) en"

text \<open>
  The lines bound at the moment, each once: the loop fills the caller's slice of \<open>cap\<close> words.
\<close>

fun bound_irqs_loop :: "nat \<Rightarrow> irq_binding list \<Rightarrow> u32 list \<Rightarrow> u32 list" where
  "bound_irqs_loop cap [] out = out"
| "bound_irqs_loop cap (b # bs) out =
     (if ib_state b = Released then bound_irqs_loop cap bs out
      else if length out = cap then out
      else if ib_irq b \<in> set out then bound_irqs_loop cap bs out
      else bound_irqs_loop cap bs (out @ [ib_irq b]))"

definition bound_interrupt_irqs :: "engine \<Rightarrow> nat \<Rightarrow> u32 list" where
  "bound_interrupt_irqs en cap = bound_irqs_loop cap (en_interrupts en) []"

end
