(* ===== verification/Device_Authority.thy ===== *)
theory Device_Authority
  imports Engine_Devices Engine_Watch
begin

text \<open>
  What the Resource and Interrupt operations of \<open>Engine_Devices\<close> guarantee over every
  sequence of calls: hardware authority never exceeds what the kernel granted at boot, an
  interrupt line has one binding at a time, and a bound line loses no delivery.
\<close>

unbundle bit_operations_syntax

section \<open>Interrupt keys\<close>

text \<open>Bit 31 and the low twelve bits are what an authority key keeps of a GPIO interrupt.\<close>

lemma gpio_bit_consts:
  "bit IRQ_KIND_TLMM_GPIO n \<longleftrightarrow> n = 31" "bit TLMM_GPIO_PIN_MASK n \<longleftrightarrow> n < 12"
  "bit TLMM_GPIO_FLAGS_MASK n \<longleftrightarrow> 12 \<le> n \<and> n < 20"
proof -
  have k: "IRQ_KIND_TLMM_GPIO = 2 ^ 31" by (simp add: IRQ_KIND_TLMM_GPIO_def)
  show "bit IRQ_KIND_TLMM_GPIO n \<longleftrightarrow> n = 31" unfolding k by (simp only: bit_exp_iff) auto
  have p: "TLMM_GPIO_PIN_MASK = mask 12" by (simp add: TLMM_GPIO_PIN_MASK_def mask_eq_exp_minus_1)
  show "bit TLMM_GPIO_PIN_MASK n \<longleftrightarrow> n < 12" unfolding p by (auto simp: bit_simps)
  have f: "TLMM_GPIO_FLAGS_MASK = push_bit 12 (mask 8)"
    by (simp add: TLMM_GPIO_FLAGS_MASK_def mask_eq_exp_minus_1)
  show "bit TLMM_GPIO_FLAGS_MASK n \<longleftrightarrow> 12 \<le> n \<and> n < 20" unfolding f by (auto simp: bit_simps)
qed

lemma decode_None_iff: "decode_tlmm_gpio_irq irq = None \<longleftrightarrow> \<not> bit irq 31"
proof -
  have "irq AND IRQ_KIND_TLMM_GPIO = 0 \<longleftrightarrow> \<not> bit irq 31"
  proof
    assume "irq AND IRQ_KIND_TLMM_GPIO = 0"
    then have "\<not> bit (irq AND IRQ_KIND_TLMM_GPIO) 31" by simp
    then show "\<not> bit irq 31" by (simp add: bit_and_iff gpio_bit_consts)
  next
    assume "\<not> bit irq 31"
    then show "irq AND IRQ_KIND_TLMM_GPIO = 0"
      by (intro bit_word_eqI) (auto simp: bit_and_iff gpio_bit_consts)
  qed
  then show ?thesis by (simp add: decode_tlmm_gpio_irq_def)
qed

lemma bit_authority_key:
  "bit (interrupt_authority_key irq) n \<longleftrightarrow> (if bit irq 31 then n = 31 \<or> n < 12 \<and> bit irq n else bit irq n)"
proof (cases "decode_tlmm_gpio_irq irq")
  case None
  then show ?thesis using decode_None_iff [of irq] by (simp add: interrupt_authority_key_def)
next
  case (Some g)
  then have "tg_pin g = irq AND TLMM_GPIO_PIN_MASK"
    by (auto simp: decode_tlmm_gpio_irq_def split: if_splits)
  moreover have "bit irq 31" using Some decode_None_iff [of irq] by auto
  ultimately show ?thesis using Some
    by (auto simp: interrupt_authority_key_def tlmm_gpio_irq_window_base_def bit_or_iff bit_and_iff gpio_bit_consts)
qed

lemma authority_key_idem [simp]:
  "interrupt_authority_key (interrupt_authority_key irq) = interrupt_authority_key irq"
  by (rule bit_word_eqI) (auto simp: bit_authority_key)

lemma decode_key_None_iff [simp]:
  "decode_tlmm_gpio_irq (interrupt_authority_key irq) = None \<longleftrightarrow> decode_tlmm_gpio_irq irq = None"
  by (simp add: decode_None_iff bit_authority_key)

text \<open>
  A driver asks for a pin with its trigger flags; the kernel reads both back, and the
  authority key depends on the pin alone.
\<close>

lemma tlmm_round_trip:
  assumes "pin < 4096" and "flags < 256"
  shows "decode_tlmm_gpio_irq (tlmm_gpio_irq pin flags) = Some \<lparr>tg_pin = pin, tg_flags = flags\<rparr>"
    and "interrupt_authority_key (tlmm_gpio_irq pin flags) = tlmm_gpio_irq_window_base pin"
proof -
  have "take_bit 12 pin = pin" "take_bit 8 flags = flags"
    using assms by (simp_all add: word_unat_eq_iff unsigned_take_bit_eq take_bit_nat_eq_self word_less_nat_alt)
  then have p: "bit pin n \<Longrightarrow> n < 12" and f: "bit flags n \<Longrightarrow> n < 8" for n
    by (metis bit_take_bit_iff)+
  have b: "bit (tlmm_gpio_irq pin flags) n \<longleftrightarrow> n = 31 \<or> bit pin n \<or> 12 \<le> n \<and> bit flags (n - 12)" for n
    using p [of n] f [of "n - 12"]
    by (auto simp: tlmm_gpio_irq_def tlmm_gpio_irq_window_base_def bit_or_iff bit_and_iff gpio_bit_consts
        bit_push_bit_iff TLMM_GPIO_FLAGS_SHIFT_def)
  show d: "decode_tlmm_gpio_irq (tlmm_gpio_irq pin flags) = Some \<lparr>tg_pin = pin, tg_flags = flags\<rparr>"
  proof -
    have "bit (tlmm_gpio_irq pin flags) 31" by (simp add: b)
    then have "tlmm_gpio_irq pin flags AND IRQ_KIND_TLMM_GPIO \<noteq> 0"
      using decode_None_iff [of "tlmm_gpio_irq pin flags"] by (auto simp: decode_tlmm_gpio_irq_def)
    moreover have "tlmm_gpio_irq pin flags AND TLMM_GPIO_PIN_MASK = pin"
      using p by (intro bit_word_eqI) (auto simp: bit_and_iff b gpio_bit_consts)
    moreover have "drop_bit TLMM_GPIO_FLAGS_SHIFT (tlmm_gpio_irq pin flags AND TLMM_GPIO_FLAGS_MASK) = flags"
      using p f by (intro bit_word_eqI)
        (force simp: bit_drop_bit_eq bit_and_iff b gpio_bit_consts TLMM_GPIO_FLAGS_SHIFT_def)
    ultimately show ?thesis by (simp add: decode_tlmm_gpio_irq_def)
  qed
  show "interrupt_authority_key (tlmm_gpio_irq pin flags) = tlmm_gpio_irq_window_base pin"
    using d by (simp add: interrupt_authority_key_def)
qed

lemma configure_key: "configure_interrupt_source hal irq = Inr key \<Longrightarrow> key = interrupt_authority_key irq"
  by (auto simp: configure_interrupt_source_def Let_def split: option.splits if_splits)

section \<open>Ranges over natural numbers\<close>

lemma resource_contains_nat:
  "resource_contains r b n \<longleftrightarrow>
     unat (rb_phys_base r) + unat (rb_len r) < 2 ^ 64 \<and> unat (rb_phys_base r) \<le> unat b
     \<and> unat b + unat n \<le> unat (rb_phys_base r) + unat (rb_len r)"
proof (cases "checked_add (rb_phys_base r) (rb_len r)")
  case None
  from None [unfolded checked_add_None_iff] None show ?thesis
    by (simp add: resource_contains_def split: option.splits)
next
  case (Some l)
  then have l: "unat l = unat (rb_phys_base r) + unat (rb_len r)" by (simp add: checked_add_Some_iff)
  show ?thesis
  proof (cases "checked_add b n")
    case None
    from None [unfolded checked_add_None_iff] None Some l unat_u64_bound [of l] show ?thesis
      by (simp add: resource_contains_def)
  next
    case (Some e)
    then have "unat e = unat b + unat n" by (simp add: checked_add_Some_iff)
    then show ?thesis using l unat_u64_bound [of l] Some \<open>checked_add (rb_phys_base r) (rb_len r) = Some l\<close>
      by (simp add: resource_contains_def word_le_nat_alt)
  qed
qed

lemma unat_wide_sum: "unat (ucast a + ucast b :: u64) = unat a + unat b" for a b :: u32
proof -
  have "unat (ucast a :: u64) = unat a" "unat (ucast b :: u64) = unat b"
    by (simp_all add: unsigned_ucast_eq take_bit_nat_eq_self_iff order_less_trans [OF unat_u32_bound])
  then show ?thesis using unat_u32_bound [of a] unat_u32_bound [of b] by (simp add: unat_word_ariths)
qed

lemma unat_wide: "unat (ucast a :: u64) = unat a" for a :: u32
  by (simp add: unsigned_ucast_eq take_bit_nat_eq_self_iff order_less_trans [OF unat_u32_bound])

definition irq_window :: "resource_binding \<Rightarrow> nat set" where
  "irq_window r = {unat (rb_irq_base r) ..< unat (rb_irq_base r) + unat (rb_irq_count r)}"

definition mmio_span :: "resource_binding \<Rightarrow> nat set" where
  "mmio_span r = {unat (rb_phys_base r) ..< unat (rb_phys_base r) + unat (rb_len r)}"

lemma irq_window_sub: "resource_contains_irq_window r b n \<Longrightarrow>
    {unat b ..< unat b + unat n} \<subseteq> irq_window r"
  by (auto simp: resource_contains_irq_window_def Let_def irq_window_def word_le_nat_alt unat_wide_sum unat_wide)

lemma irq_in_window: "resource_contains_irq r irq \<longleftrightarrow> unat (interrupt_authority_key irq) \<in> irq_window r"
  by (auto simp: resource_contains_irq_def Let_def irq_window_def word_le_nat_alt word_less_nat_alt unat_wide_sum unat_wide)

lemma mmio_span_sub: "resource_contains r b n \<Longrightarrow> {unat b ..< unat b + unat n} \<subseteq> mmio_span r"
  by (auto simp: resource_contains_nat mmio_span_def)

section \<open>Reachable hardware authority\<close>

text \<open>
  The states of the engine reachable by the hardware calls of any processes (a call may be
  made with any handle table), with the list of the root Resources made so far. The rule
  \<open>other\<close> stands for the operations that leave Resources and interrupt bindings alone.
\<close>

inductive device_reach :: "resource_binding list \<Rightarrow> engine \<Rightarrow> bool" where
  dr_new: "device_reach [] engine_new"
| dr_root: "device_reach roots en \<Longrightarrow>
    root_resource_create grow en t phys_base len irq_base irq_count = (Inr h, en', t') \<Longrightarrow>
    device_reach (last (en_resources en') # roots) en'"
| dr_child: "device_reach roots en \<Longrightarrow>
    dispatch_resource_create_child grow en t parent_h phys_base len irq_base irq_count = (r, en', t') \<Longrightarrow>
    device_reach roots en'"
| dr_release: "device_reach roots en \<Longrightarrow> device_reach roots (snd (release_resource en koid))"
| dr_create: "device_reach roots en \<Longrightarrow>
    dispatch_interrupt_create hal grow room fresh en t resource irq = (r, en', t') \<Longrightarrow>
    device_reach roots en'"
| dr_wait: "device_reach roots en \<Longrightarrow> device_reach roots (snd (dispatch_interrupt_wait en t interrupt))"
| dr_complete: "device_reach roots en \<Longrightarrow>
    device_reach roots (snd (dispatch_interrupt_complete hal en t interrupt))"
| dr_signal: "device_reach roots en \<Longrightarrow> device_reach roots (signal_interrupt_at held en irq stamp_ns)"
| dr_retire: "device_reach roots en \<Longrightarrow> device_reach roots (snd (retire_interrupts hal held en))"
| dr_other: "device_reach roots en \<Longrightarrow> en_resources en' = en_resources en \<Longrightarrow>
    en_interrupts en' = en_interrupts en \<Longrightarrow> device_reach roots en'"

definition granted :: "resource_binding list \<Rightarrow> resource_binding \<Rightarrow> bool" where
  "granted roots r \<longleftrightarrow> (\<exists>g \<in> set roots. mmio_span r \<subseteq> mmio_span g \<and> irq_window r \<subseteq> irq_window g)"

definition line_granted :: "resource_binding list \<Rightarrow> u32 \<Rightarrow> bool" where
  "line_granted roots irq \<longleftrightarrow> interrupt_authority_key irq = irq \<and> (\<exists>g \<in> set roots. unat irq \<in> irq_window g)"

text \<open>The lines that are taken: those of the bindings that are not released.\<close>

definition taken_lines :: "irq_binding list \<Rightarrow> u32 list" where
  "taken_lines bs = map ib_irq (filter (\<lambda>b. ib_state b \<noteq> Released) bs)"

definition authority_ok :: "resource_binding list \<Rightarrow> engine \<Rightarrow> bool" where
  "authority_ok roots en \<longleftrightarrow>
     (\<forall>r \<in> set (en_resources en). granted roots r)
     \<and> (\<forall>b \<in> set (en_interrupts en). line_granted roots (ib_irq b))
     \<and> distinct (taken_lines (en_interrupts en))"

lemma granted_mono: "granted roots r \<Longrightarrow> granted (g # roots) r"
  by (auto simp: granted_def)

lemma line_granted_mono: "line_granted roots q \<Longrightarrow> line_granted (g # roots) q"
  by (auto simp: line_granted_def)

text \<open>
  Every operation on the bindings keeps the line of a binding, and none turns a released
  binding into a taken one: \<open>tamed\<close> is that relation between the lists before and after.
\<close>

definition tamed :: "irq_binding list \<Rightarrow> irq_binding list \<Rightarrow> bool" where
  "tamed bs bs' \<longleftrightarrow> set (map ib_irq bs') \<subseteq> set (map ib_irq bs)
     \<and> (distinct (taken_lines bs) \<longrightarrow> distinct (taken_lines bs'))"

lemma tamed_refl [simp, intro]: "tamed bs bs"
  by (simp add: tamed_def)

lemma tamed_trans: "tamed a b \<Longrightarrow> tamed b c \<Longrightarrow> tamed a c"
  unfolding tamed_def by (meson subset_trans)

lemma taken_split: "i < length bs \<Longrightarrow>
    taken_lines bs = taken_lines (take i bs) @ taken_lines [bs ! i] @ taken_lines (drop (Suc i) bs)"
  unfolding taken_lines_def
  by (subst id_take_nth_drop [of i bs]) (simp_all only: filter_append map_append append.assoc append_Cons append_Nil filter.simps list.map if_distrib, auto)

lemma tamed_update:
  assumes "ib_irq b = ib_irq (bs ! i)" and "ib_state (bs ! i) = Released \<Longrightarrow> ib_state b = Released"
  shows "tamed bs (bs[i := b])"
proof (cases "i < length bs")
  case True
  have "set (map ib_irq (bs[i := b])) \<subseteq> set (map ib_irq bs)"
    using True assms(1) set_update_subset_insert [of bs i b] by (force simp: in_set_conv_nth)
  moreover have "distinct (taken_lines (bs[i := b]))" if "distinct (taken_lines bs)"
    using that taken_split [OF True] taken_split [of i "bs[i := b]"] True assms
    by (auto simp: taken_lines_def split: if_splits)
  ultimately show ?thesis by (simp add: tamed_def)
qed (simp add: list_update_beyond)

lemma tamed_remove: "tamed bs (remove_nth i bs)"
proof (cases "i < length bs")
  case True
  have "distinct (taken_lines (remove_nth i bs))" if "distinct (taken_lines bs)"
    using that taken_split [OF True] by (auto simp: taken_lines_def remove_nth_def)
  then show ?thesis using set_remove_nth_subset [of i bs] by (auto simp: tamed_def)
next
  case False
  then show ?thesis by (simp add: remove_nth_def)
qed

lemma authority_tamed:
  assumes "authority_ok roots en" and "set (en_resources en') \<subseteq> set (en_resources en)"
    and "tamed (en_interrupts en) (en_interrupts en')"
  shows "authority_ok roots en'"
  using assms by (fastforce simp: authority_ok_def tamed_def)

lemma signal_ports_resources [simp]: "en_resources (signal_ports en k s) = en_resources en"
  using signal_each_frame [of "en_port_bindings en" k s en] by (auto simp: signal_ports_def)

lemma log_wake_devices [simp]:
  "en_resources (log_wake w en) = en_resources en" "en_interrupts (log_wake w en) = en_interrupts en"
  "en_ipc (log_wake w en) = en_ipc en" "en_port_bindings (log_wake w en) = en_port_bindings en"
  by (simp_all add: log_wake_def)

lemma irq_loop_authority: "authority_ok roots en \<Longrightarrow> authority_ok roots (irq_loop held irq st en is)"
proof (induction held irq st en "is" rule: irq_loop.induct)
  case (2 held irq st en i rest)
  show ?case unfolding irq_loop.simps Let_def
    by (rule "2.IH" [OF refl], rule authority_tamed [OF "2.prems"])
      (auto intro!: tamed_update simp: irq_fired_def)
qed simp

lemma retire_loop_authority: "authority_ok roots en \<Longrightarrow> authority_ok roots (snd (retire_loop held mask_line en index removed))"
proof (induction held mask_line en index removed rule: retire_loop.induct)
  case (1 held mask_line en index removed)
  define b where "b = (if ib_state (en_interrupts en ! index) = Bound
      \<and> \<not> is_referenced held (en_ipc en) (ib_references (en_interrupts en ! index))
    then (en_interrupts en ! index)\<lparr>ib_state := (if mask_line (ib_irq (en_interrupts en ! index)) then Released else MaskFailed)\<rparr>
    else en_interrupts en ! index)"
  have t: "tamed (en_interrupts en) ((en_interrupts en)[index := b])"
    by (rule tamed_update) (simp_all add: b_def)
  show ?case
    using "1.IH"(1) [OF _ refl b_def refl] "1.IH"(2) [OF _ refl b_def refl] "1.prems"
      authority_tamed [OF "1.prems", of "en\<lparr>en_interrupts := (en_interrupts en)[index := b]\<rparr>"] t
      authority_tamed [OF "1.prems", of "(snd (release_port_bindings (en\<lparr>en_interrupts := (en_interrupts en)[index := b]\<rparr>)
        (ib_koid b)))\<lparr>en_interrupts := remove_nth index ((en_interrupts en)[index := b])\<rparr>"]
      tamed_trans [OF t tamed_remove]
    by (subst retire_loop.simps) (simp add: Let_def b_def [symmetric] release_port_bindings_def)
qed

lemma wait_authority: "authority_ok roots en \<Longrightarrow> authority_ok roots (snd (dispatch_interrupt_wait en t h))"
  by (erule authority_tamed)
    (auto simp: dispatch_interrupt_wait_def Let_def intro!: tamed_update split: sum.splits option.splits)

lemma irq_complete_keeps: "irq_complete f b = (r, b') \<Longrightarrow> ib_irq b' = ib_irq b \<and> ib_state b' = ib_state b"
  by (auto simp: irq_complete_def split: if_splits sum.splits)

lemma complete_authority: "authority_ok roots en \<Longrightarrow> authority_ok roots (snd (dispatch_interrupt_complete hal en t h))"
  by (erule authority_tamed)
    (auto simp: dispatch_interrupt_complete_def dest!: irq_complete_keeps intro!: tamed_update
      split: sum.splits option.splits prod.splits)

lemma release_authority: "authority_ok roots en \<Longrightarrow> authority_ok roots (snd (release_resource en koid))"
  by (erule authority_tamed) (auto simp: release_resource_def Let_def)

lemma resource_by_koid_in: "resource_by_koid en k = Some r \<Longrightarrow> r \<in> set (en_resources en)"
  by (auto simp: resource_by_koid_def find_Some_iff)

lemma root_authority:
  assumes "authority_ok roots en"
    and "root_resource_create grow en t pb n ib ic = (Inr h, en', t')"
  shows "authority_ok (last (en_resources en') # roots) en'"
proof -
  from assms(2) obtain r where r: "en_resources en' = en_resources en @ [r]" "en_interrupts en' = en_interrupts en"
    by (auto simp: root_resource_create_def split: prod.splits sum.splits)
  have "granted (r # roots) r" by (auto simp: granted_def)
  with r assms(1) show ?thesis by (auto simp: authority_ok_def intro: granted_mono line_granted_mono)
qed

lemma child_granted:
  assumes "granted roots r" and "resource_contains r pb n" and "resource_contains_irq_window r ib ic"
  shows "granted roots \<lparr>rb_koid = k, rb_phys_base = pb, rb_len = n, rb_irq_base = ib, rb_irq_count = ic\<rparr>"
proof -
  from assms(1) obtain g where "g \<in> set roots" "mmio_span r \<subseteq> mmio_span g" "irq_window r \<subseteq> irq_window g"
    by (auto simp: granted_def)
  moreover have "mmio_span \<lparr>rb_koid = k, rb_phys_base = pb, rb_len = n, rb_irq_base = ib, rb_irq_count = ic\<rparr> \<subseteq> mmio_span r"
    using mmio_span_sub [OF assms(2)] by (simp only: mmio_span_def resource_binding.simps)
  moreover have "irq_window \<lparr>rb_koid = k, rb_phys_base = pb, rb_len = n, rb_irq_base = ib, rb_irq_count = ic\<rparr> \<subseteq> irq_window r"
    using irq_window_sub [OF assms(3)] by (simp only: irq_window_def resource_binding.simps)
  ultimately show ?thesis unfolding granted_def by blast
qed

lemma child_cases:
  assumes "resource_create_child grow en t ph pb n ib ic = (r, en', t')"
  shows "en_interrupts en' = en_interrupts en \<and> (en_resources en' = en_resources en \<or>
      (\<exists>p \<in> set (en_resources en). \<exists>k. resource_contains p pb n \<and> resource_contains_irq_window p ib ic
       \<and> en_resources en' = en_resources en @
         [\<lparr>rb_koid = k, rb_phys_base = pb, rb_len = n, rb_irq_base = ib, rb_irq_count = ic\<rparr>]))"
proof (cases "n = 0 \<or> (\<exists>e. require t ph Resource RIGHT_MANAGE = Inl e)")
  case True
  then have "en' = en" using assms by (cases "require t ph Resource RIGHT_MANAGE") (auto simp: resource_create_child_def split: if_splits)
  then show ?thesis by simp
next
  case False
  then obtain pe where n: "n \<noteq> 0" and pe: "require t ph Resource RIGHT_MANAGE = Inr pe"
    by (cases "require t ph Resource RIGHT_MANAGE") auto
  show ?thesis
  proof (cases "resource_by_koid en (he_koid pe)")
    case None
    with assms n pe show ?thesis by (simp add: resource_create_child_def)
  next
    case (Some p)
    obtain ob objects where ob: "create (en_objects en) Resource = (ob, objects)" by fastforce
    obtain x t1 where ins: "table_insert grow t ob (RIGHT_READ OR RIGHT_WRITE OR RIGHT_DUPLICATE OR RIGHT_TRANSFER) = (x, t1)"
      by fastforce
    note eqs = resource_create_child_def n pe Some ob ins
    show ?thesis
    proof (cases "resource_contains p pb n \<and> resource_contains_irq_window p ib ic")
      case False
      then have "en' = en" using assms by (auto simp: eqs split: if_splits)
      then show ?thesis by simp
    next
      case ok: True
      show ?thesis
      proof (cases x)
        case (Inr h)
        with assms ok have "en_interrupts en' = en_interrupts en" "en_resources en' = en_resources en @
            [\<lparr>rb_koid = ko_koid ob, rb_phys_base = pb, rb_len = n, rb_irq_base = ib, rb_irq_count = ic\<rparr>]"
          by (auto simp: eqs)
        with ok resource_by_koid_in [OF Some] show ?thesis by blast
      qed (use assms ok in \<open>auto simp: eqs\<close>)
    qed
  qed
qed

lemma child_authority:
  assumes "authority_ok roots en" and "dispatch_resource_create_child grow en t ph pb n ib ic = (r, en', t')"
  shows "authority_ok roots en'"
proof -
  from assms(2) obtain r' where "resource_create_child grow en t ph pb n ib ic = (r', en', t')"
    by (auto simp: dispatch_resource_create_child_def split: prod.splits sum.splits)
  note cases' = child_cases [OF this]
  show ?thesis
  proof (cases "en_resources en' = en_resources en")
    case True
    with cases' assms(1) show ?thesis by (simp add: authority_ok_def)
  next
    case False
    with cases' obtain p k where p: "p \<in> set (en_resources en)" "resource_contains p pb n" "resource_contains_irq_window p ib ic"
      and en': "en_interrupts en' = en_interrupts en" "en_resources en' = en_resources en @
        [\<lparr>rb_koid = k, rb_phys_base = pb, rb_len = n, rb_irq_base = ib, rb_irq_count = ic\<rparr>]"
      by blast
    have "granted roots p" using p(1) assms(1) by (simp add: authority_ok_def)
    from child_granted [OF this p(2,3), of k] en' assms(1) show ?thesis by (simp add: authority_ok_def)
  qed
qed

lemma create_irq_cases:
  assumes "dispatch_interrupt_create hal grow room fresh en t resource irq = (r, en', t')"
  shows "en_resources en' = en_resources en \<and> (en_interrupts en' = en_interrupts en \<or>
      (\<exists>res \<in> set (en_resources en). \<exists>b. resource_contains_irq res irq
       \<and> interrupt_authority_key irq \<notin> set (taken_lines (en_interrupts en))
       \<and> ib_irq b = interrupt_authority_key irq \<and> en_interrupts en' = en_interrupts en @ [b]))"
proof (cases "require t resource Resource RIGHT_WRITE")
  case (Inl e)
  with assms show ?thesis by (simp add: dispatch_interrupt_create_def)
next
  case req: (Inr entry)
  show ?thesis
  proof (cases "resource_by_koid en (he_koid entry)")
    case None
    with assms req show ?thesis by (simp add: dispatch_interrupt_create_def)
  next
    case (Some res)
    let ?busy = "list_ex (\<lambda>b. ib_irq b = interrupt_authority_key irq \<and> ib_state b \<noteq> Released) (en_interrupts en)"
    obtain ob objects where ob: "create (en_objects en) Interrupt = (ob, objects)" by fastforce
    show ?thesis
    proof (cases "resource_contains_irq res irq \<and> \<not> ?busy")
      case False
      then have "en' = en" using assms by (auto simp: dispatch_interrupt_create_def req Some split: if_splits)
      then show ?thesis by simp
    next
      case True
      then have "interrupt_authority_key irq \<notin> set (taken_lines (en_interrupts en))"
        by (auto simp: taken_lines_def list_ex_iff)
      moreover obtain x t1 where ins: "insert_interrupt grow fresh t ob (RIGHT_READ OR RIGHT_WAIT OR RIGHT_DUPLICATE) = (x, t1)"
        by fastforce
      have "en_resources en' = en_resources en \<and> (en_interrupts en' = en_interrupts en \<or>
          (\<exists>b. ib_irq b = interrupt_authority_key irq \<and> en_interrupts en' = en_interrupts en @ [b]))"
      proof (cases "\<exists>h l key. x = Inr (h, l) \<and> configure_interrupt_source hal irq = Inr key
          \<and> room \<and> reserve_insert grow t = Inr ()")
        case True
        then obtain h l key where k: "x = Inr (h, l)" "configure_interrupt_source hal irq = Inr key" "room"
          "reserve_insert grow t = Inr ()" by blast
        show ?thesis using assms \<open>resource_contains_irq res irq \<and> \<not> ?busy\<close> configure_key [OF k(2)]
          by (auto simp: dispatch_interrupt_create_def req Some ob ins k)
      next
        case False
        then have "en' = en \<or> en' = en\<lparr>en_objects := objects\<rparr>"
          using assms \<open>resource_contains_irq res irq \<and> \<not> ?busy\<close>
          by (auto simp: dispatch_interrupt_create_def req Some ob ins split: sum.splits if_splits)
        then show ?thesis by auto
      qed
      ultimately show ?thesis using True resource_by_koid_in [OF Some] by blast
    qed
  qed
qed

lemma create_irq_authority:
  assumes "authority_ok roots en" and "dispatch_interrupt_create hal grow room fresh en t resource irq = (r, en', t')"
  shows "authority_ok roots en'"
proof (cases "en_interrupts en' = en_interrupts en")
  case True
  with create_irq_cases [OF assms(2)] assms(1) show ?thesis by (simp add: authority_ok_def)
next
  case False
  with create_irq_cases [OF assms(2)] obtain res b where made: "res \<in> set (en_resources en)" "resource_contains_irq res irq"
      "interrupt_authority_key irq \<notin> set (taken_lines (en_interrupts en))" "ib_irq b = interrupt_authority_key irq"
      "en_resources en' = en_resources en" "en_interrupts en' = en_interrupts en @ [b]"
    by blast
  then have "line_granted roots (ib_irq b)"
    using assms(1) by (fastforce simp: authority_ok_def granted_def line_granted_def irq_in_window)
  moreover have "distinct (taken_lines (en_interrupts en @ [b]))"
    using made assms(1) by (auto simp: authority_ok_def taken_lines_def)
  ultimately show ?thesis using made assms(1) by (simp add: authority_ok_def)
qed

lemma device_reach_ok: "device_reach roots en \<Longrightarrow> authority_ok roots en"
proof (induction rule: device_reach.induct)
  case dr_new
  show ?case by (simp add: authority_ok_def engine_new_def taken_lines_def)
next
  case (dr_other roots en en')
  then show ?case by (simp add: authority_ok_def)
next
  case dr_root
  then show ?case by (blast intro: root_authority)
next
  case dr_child
  then show ?case by (blast intro: child_authority)
next
  case dr_create
  then show ?case by (blast intro: create_irq_authority)
qed (auto intro: release_authority wait_authority complete_authority
    simp: irq_loop_authority retire_loop_authority signal_interrupt_at_def
    retire_interrupts_def retire_interrupts_with_def)

lemma mint_mmio_ok:
  assumes "mint_mmio blocked read_only fb en t h pb n = Inr (v, rs)"
  shows "\<exists>entry res. require t h Resource RIGHT_READ = Inr entry \<and> resource_by_koid en (he_koid entry) = Some res
    \<and> resource_contains res pb n \<and> from_mmio_range pb n = Inr v \<and> \<not> blocked pb n
    \<and> rs = RIGHT_READ OR RIGHT_DUPLICATE
        OR (if read_only pb n then 0 else he_rights entry AND RIGHT_WRITE)
        OR (if rights_contains (he_rights entry) RIGHT_TRANSFER \<and> fb = Some (pb, n) then RIGHT_TRANSFER else 0)"
  using assms by (auto simp: mint_mmio_def Let_def split: sum.splits option.splits if_splits)

lemma from_mmio_ok:
  assumes "from_mmio_range pb n = Inr v"
  shows "vmo_backing v = MmioBacking pb \<and> unat n \<le> unat (vmo_len v) \<and> unat (vmo_len v) < unat n + 4096"
proof -
  from assms obtain m where "align_up n = Some m" "v = \<lparr>vmo_len = m, vmo_backing = MmioBacking pb\<rparr>"
    by (auto simp: from_mmio_range_def vmo_of_len_def split: if_splits option.splits)
  with align_up_bounds [of n m] show ?thesis by simp
qed

section \<open>Deliveries\<close>

definition takes_irq :: "(lineage \<Rightarrow> bool) \<Rightarrow> engine \<Rightarrow> u32 \<Rightarrow> irq_binding \<Rightarrow> bool" where
  "takes_irq held en irq b \<longleftrightarrow> ib_irq b = irq \<and> ib_state b = Bound
     \<and> is_referenced held (en_ipc en) (ib_references b) \<and> \<not> (ib_requires_complete b \<and> ib_outstanding b)"

lemma is_referenced_cong:
  "ir_channels reg = ir_channels reg' \<Longrightarrow> is_referenced held reg l = is_referenced held reg' l"
  by (simp add: is_referenced_def registry_lineages_def registry_entries_def)

lemma irq_loop_effect:
  assumes "distinct is"
  shows "ir_channels (en_ipc (irq_loop held irq st en is)) = ir_channels (en_ipc en)
    \<and> length (en_interrupts (irq_loop held irq st en is)) = length (en_interrupts en)
    \<and> (\<forall>j < length (en_interrupts en). en_interrupts (irq_loop held irq st en is) ! j =
        (if j \<in> set is \<and> takes_irq held en irq (en_interrupts en ! j)
         then irq_fired (en_interrupts en ! j) st else en_interrupts en ! j))"
  using assms
proof (induction "is" arbitrary: en)
  case (Cons i rest)
  define en1 where "en1 = (if takes_irq held en irq (en_interrupts en ! i)
    then signal_ports (log_wake (WakeInterrupt (ib_koid (en_interrupts en ! i)))
           (en\<lparr>en_interrupts := (en_interrupts en)[i := irq_fired (en_interrupts en ! i) st]\<rparr>))
           (ib_koid (en_interrupts en ! i)) SIGNAL_IRQ
    else en)"
  have step: "irq_loop held irq st en (i # rest) = irq_loop held irq st en1 rest"
    by (simp add: en1_def takes_irq_def Let_def)
  have ch: "ir_channels (en_ipc en1) = ir_channels (en_ipc en)" by (simp add: en1_def)
  have t: "takes_irq held en1 irq b = takes_irq held en irq b" for b
    using is_referenced_cong [OF ch] by (simp add: takes_irq_def)
  have n: "length (en_interrupts en1) = length (en_interrupts en)" by (simp add: en1_def)
  have at: "en_interrupts en1 ! j = (if j = i \<and> takes_irq held en irq (en_interrupts en ! j)
      then irq_fired (en_interrupts en ! j) st else en_interrupts en ! j)" if "j < length (en_interrupts en)" for j
    using that by (auto simp: en1_def)
  have i: "i \<notin> set rest" and d: "distinct rest" using Cons.prems by simp_all
  note ih = Cons.IH [OF d, of en1, unfolded ch n t]
  show ?case unfolding step
  proof (intro conjI allI impI)
    fix j assume j: "j < length (en_interrupts en)"
    with ih have "en_interrupts (irq_loop held irq st en1 rest) ! j =
        (if j \<in> set rest \<and> takes_irq held en irq (en_interrupts en1 ! j)
         then irq_fired (en_interrupts en1 ! j) st else en_interrupts en1 ! j)" by blast
    with at [OF j] i show "en_interrupts (irq_loop held irq st en1 rest) ! j =
        (if j \<in> set (i # rest) \<and> takes_irq held en irq (en_interrupts en ! j)
         then irq_fired (en_interrupts en ! j) st else en_interrupts en ! j)"
      by (cases "j = i") auto
  qed (use ih in auto)
qed simp

definition signal_all :: "(lineage \<Rightarrow> bool) \<Rightarrow> u32 \<Rightarrow> u64 list \<Rightarrow> engine \<Rightarrow> engine" where
  "signal_all held irq stamps en = fold (\<lambda>st e. signal_interrupt_at held e irq st) stamps en"

lemma signal_all_effect:
  "ir_channels (en_ipc (signal_all held irq stamps en)) = ir_channels (en_ipc en)
    \<and> length (en_interrupts (signal_all held irq stamps en)) = length (en_interrupts en)
    \<and> (\<forall>j < length (en_interrupts en). en_interrupts (signal_all held irq stamps en) ! j =
        fold (\<lambda>st b. if takes_irq held en irq b then irq_fired b st else b) stamps (en_interrupts en ! j))"
proof (induction stamps arbitrary: en)
  case (Cons st rest)
  note one = irq_loop_effect [of "[0..<length (en_interrupts en)]" held irq st en, folded signal_interrupt_at_def]
  have "takes_irq held (signal_interrupt_at held en irq st) irq b = takes_irq held en irq b" for b
    using one is_referenced_cong [of "en_ipc (signal_interrupt_at held en irq st)" "en_ipc en"] by (simp add: takes_irq_def)
  with Cons.IH [of "signal_interrupt_at held en irq st"] one show ?case
    by (simp add: signal_all_def)
qed (simp add: signal_all_def)

text \<open>
  The deliveries a binding accepts from a run of signals: all of them on a plain line, at
  most one on a line that must be completed first.
\<close>

definition accepted :: "irq_binding \<Rightarrow> u64 list \<Rightarrow> u64 list" where
  "accepted b stamps =
     (if ib_requires_complete b then (if ib_outstanding b then [] else take 1 stamps) else stamps)"

lemma fold_fired_plain:
  assumes "takes_irq held en irq b" and "\<not> ib_requires_complete b" and "unat (ib_count b) + length stamps < 2 ^ 64"
  shows "unat (ib_count (fold (\<lambda>st b. if takes_irq held en irq b then irq_fired b st else b) stamps b))
      = unat (ib_count b) + length stamps
    \<and> ib_stamp_ns (fold (\<lambda>st b. if takes_irq held en irq b then irq_fired b st else b) stamps b)
      = (if ib_count b = 0 \<and> stamps \<noteq> [] then hd stamps else ib_stamp_ns b)"
  using assms
proof (induction stamps arbitrary: b)
  case (Cons st rest)
  have f: "takes_irq held en irq (irq_fired b st)" "\<not> ib_requires_complete (irq_fired b st)"
    using Cons.prems(1,2) by (simp_all add: takes_irq_def irq_fired_def)
  have c: "unat (ib_count (irq_fired b st)) = unat (ib_count b) + 1"
    using Cons.prems(3) by (simp add: irq_fired_def unat_saturating_add)
  then have "ib_count (irq_fired b st) \<noteq> 0" by auto
  with Cons.IH [OF f] c Cons.prems(1,3) show ?case by (simp add: irq_fired_def)
qed simp

lemma fold_idle:
  assumes "\<not> takes_irq held en irq b"
  shows "fold (\<lambda>st b. if takes_irq held en irq b then irq_fired b st else b) stamps b = b"
  using assms by (induction stamps) auto

lemma fold_fired_keeps:
  "ib_koid (fold (\<lambda>st b. if P b then irq_fired b st else b) stamps b) = ib_koid b
   \<and> ib_state (fold (\<lambda>st b. if P b then irq_fired b st else b) stamps b) = ib_state b"
  by (induction stamps arbitrary: b) (auto simp: irq_fired_def)

lemma fold_fired:
  assumes "ib_irq b = irq" "ib_state b = Bound" "is_referenced held (en_ipc en) (ib_references b)"
    and "ib_count b = 0" and "length stamps < 2 ^ 64"
  shows "unat (ib_count (fold (\<lambda>st b. if takes_irq held en irq b then irq_fired b st else b) stamps b))
      = length (accepted b stamps)
    \<and> (accepted b stamps \<noteq> [] \<longrightarrow>
       ib_stamp_ns (fold (\<lambda>st b. if takes_irq held en irq b then irq_fired b st else b) stamps b) = hd (accepted b stamps))"
proof (cases "ib_requires_complete b")
  case False
  then have "takes_irq held en irq b" using assms by (simp add: takes_irq_def)
  from fold_fired_plain [OF this False, of stamps] assms False show ?thesis by (simp add: accepted_def)
next
  case req: True
  show ?thesis
  proof (cases "ib_outstanding b \<or> stamps = []")
    case True
    then show ?thesis using fold_idle [of held en irq b stamps] req assms
      by (auto simp: accepted_def takes_irq_def)
  next
    case False
    then obtain st rest where st: "stamps = st # rest" and o': "\<not> ib_outstanding b" by (cases stamps) auto
    have "\<not> takes_irq held en irq (irq_fired b st)" using req by (simp add: takes_irq_def irq_fired_def)
    from fold_idle [OF this, of rest] show ?thesis
      using req assms o' st by (simp add: accepted_def takes_irq_def irq_fired_def saturating_add_def)
  qed
qed

lemma find_index_cong_nth:
  assumes "length xs = length ys" and "\<And>j. j < length ys \<Longrightarrow> P (xs ! j) = P (ys ! j)"
  shows "find_index P xs = find_index P ys"
proof (rule option_eqI)
  show "find_index P xs = Some i \<longleftrightarrow> find_index P ys = Some i" for i
    unfolding find_index_Some_iff using assms by (auto dest: order_less_trans)
qed

lemma find_via_index: "find P xs = map_option ((!) xs) (find_index P xs)"
  by (induction xs) (auto simp: option.map_comp o_def)

section \<open>The properties\<close>

text \<open>
  C11: hardware authority is confined to what was granted at boot. In every reachable state
  every Resource covers only addresses and interrupt numbers of some root Resource, every
  interrupt binding holds an authority key inside the interrupt window of some root
  Resource, and a memory object minted from registers starts in the physical range of a root
  Resource, covers the requested bytes, which lie inside that range, and runs on by less than
  a page; it is never minted from a blocked aperture.
\<close>

theorem hardware_authority_confined:
  assumes "device_reach roots en"
  shows "(\<forall>r \<in> set (en_resources en). granted roots r)
    \<and> (\<forall>b \<in> set (en_interrupts en). line_granted roots (ib_irq b))
    \<and> (mint_mmio blocked read_only fb en t h pb n = Inr (v, rs) \<longrightarrow>
         \<not> blocked pb n \<and> vmo_backing v = MmioBacking pb
         \<and> unat n \<le> unat (vmo_len v) \<and> unat (vmo_len v) < unat n + 4096
         \<and> (\<exists>g \<in> set roots. {unat pb ..< unat pb + unat n} \<subseteq> mmio_span g))"
proof -
  have ok: "authority_ok roots en" by (rule device_reach_ok [OF assms])
  have "\<not> blocked pb n \<and> vmo_backing v = MmioBacking pb \<and> unat n \<le> unat (vmo_len v)
      \<and> unat (vmo_len v) < unat n + 4096 \<and> (\<exists>g \<in> set roots. {unat pb ..< unat pb + unat n} \<subseteq> mmio_span g)"
    if mint: "mint_mmio blocked read_only fb en t h pb n = Inr (v, rs)"
  proof -
    from mint_mmio_ok [OF mint] obtain entry :: handle_entry and res where res: "resource_by_koid en (he_koid entry) = Some res"
      "resource_contains res pb n" "from_mmio_range pb n = Inr v" "\<not> blocked pb n" by blast
    from resource_by_koid_in [OF res(1)] ok obtain g where "g \<in> set roots" "mmio_span res \<subseteq> mmio_span g"
      by (auto simp: authority_ok_def granted_def)
    with mmio_span_sub [OF res(2)] from_mmio_ok [OF res(3)] res(4) show ?thesis by blast
  qed
  with ok show ?thesis by (simp add: authority_ok_def)
qed

text \<open>
  C18: an interrupt line has one owner. In every reachable state no two bindings that are not
  released hold the same authority key, and while a line is taken, \<open>InterruptCreate\<close> for any
  encoding of that line hands out no handle and changes no binding.
\<close>

theorem interrupt_line_exclusive:
  assumes "device_reach roots en"
  shows "distinct (taken_lines (en_interrupts en))
    \<and> (interrupt_authority_key irq \<in> set (taken_lines (en_interrupts en)) \<longrightarrow>
       (\<exists>code. dispatch_interrupt_create hal grow room fresh en t resource irq = (KR_Status code, en, t)))"
proof -
  have "\<exists>code. dispatch_interrupt_create hal grow room fresh en t resource irq = (KR_Status code, en, t)"
    if "interrupt_authority_key irq \<in> set (taken_lines (en_interrupts en))"
  proof -
    from that have "list_ex (\<lambda>b. ib_irq b = interrupt_authority_key irq \<and> ib_state b \<noteq> Released) (en_interrupts en)"
      by (auto simp: taken_lines_def list_ex_iff)
    then show ?thesis by (auto simp: dispatch_interrupt_create_def split: sum.splits option.splits)
  qed
  with device_reach_ok [OF assms] show ?thesis by (simp add: authority_ok_def)
qed

text \<open>
  C19: no delivery of a bound interrupt line is lost or counted twice. Let a referenced, bound
  line hold no pending delivery. After any run of fewer than \<open>2^32\<close> signals of the line, the
  next \<open>InterruptWait\<close> returns the number of accepted deliveries (all of them on a plain line;
  the first one only on a GPIO line, which must be completed before it fires again), the time
  stamp it consumes is that of the first of them, and the wait after it reports
  \<open>ShouldWait\<close>; with no accepted delivery the wait reports \<open>ShouldWait\<close> at once.
\<close>

theorem interrupt_delivery_exact:
  assumes "require t h Interrupt RIGHT_WAIT = Inr entry"
    and "find_index (\<lambda>b. ib_koid b = he_koid entry \<and> ib_state b = Bound) (en_interrupts en) = Some i"
    and "is_referenced held (en_ipc en) (ib_references (en_interrupts en ! i))"
    and "ib_count (en_interrupts en ! i) = 0" and "length stamps < 2 ^ 32"
  shows "let got = accepted (en_interrupts en ! i) stamps;
             en1 = signal_all held (ib_irq (en_interrupts en ! i)) stamps en;
             en2 = snd (dispatch_interrupt_wait en1 t h)
         in if got = [] then dispatch_interrupt_wait en1 t h = (status_of E_ShouldWait, en1)
            else fst (dispatch_interrupt_wait en1 t h) = KR_Handle (of_nat (length got))
              \<and> interrupt_consumed_stamp en2 (he_koid entry) = hd got
              \<and> dispatch_interrupt_wait en2 t h = (status_of E_ShouldWait, en2)"
proof -
  let ?b = "en_interrupts en ! i" and ?P = "\<lambda>b. ib_koid b = he_koid entry \<and> ib_state b = Bound"
  define en1 where "en1 = signal_all held (ib_irq ?b) stamps en"
  define b' where "b' = fold (\<lambda>st b. if takes_irq held en (ib_irq ?b) b then irq_fired b st else b) stamps ?b"
  note eff = signal_all_effect [of held "ib_irq ?b" stamps en, folded en1_def]
  have i: "i < length (en_interrupts en)" and P: "?P ?b" using assms(2) by (simp_all add: find_index_Some_iff)
  have b': "en_interrupts en1 ! i = b'" using eff i by (simp add: b'_def)
  have idx: "find_index ?P (en_interrupts en1) = Some i"
    using find_index_cong_nth [of "en_interrupts en1" "en_interrupts en" ?P] eff assms(2) fold_fired_keeps by auto
  have "length stamps < 2 ^ 64" using assms(5) by simp
  from fold_fired [OF refl _ assms(3,4) this] P
  have c: "unat (ib_count b') = length (accepted ?b stamps)"
    and st: "accepted ?b stamps \<noteq> [] \<Longrightarrow> ib_stamp_ns b' = hd (accepted ?b stamps)"
    by (simp_all add: b'_def)
  have u: "ucast (ib_count b') = (of_nat (length (accepted ?b stamps)) :: u32)"
    unfolding c [symmetric] by (simp add: unsigned_of_nat)
  have P': "?P b'" using idx b' by (simp add: find_index_Some_iff)
  let ?b2 = "b'\<lparr>ib_count := 0, ib_consumed_stamp_ns := ib_stamp_ns b', ib_stamp_ns := 0\<rparr>"
  have idx2: "find_index ?P ((en_interrupts en1)[i := ?b2]) = Some i"
    using idx P' eff i by (auto simp: find_index_Some_iff nth_list_update)
  show ?thesis
  proof (cases "accepted ?b stamps = []")
    case True
    with c have "ib_count b' = 0" by (simp add: unat_eq_zero)
    with True assms(1) idx b' show ?thesis
      by (simp add: dispatch_interrupt_wait_def Let_def en1_def [symmetric])
  next
    case False
    with c have pos: "0 < ib_count b'" by (metis gr0I length_0_conv unat_eq_zero word_gt_0)
    then have w: "dispatch_interrupt_wait en1 t h =
        (KR_Handle (of_nat (length (accepted ?b stamps))), en1\<lparr>en_interrupts := (en_interrupts en1)[i := ?b2]\<rparr>)"
      using assms(1) idx b' u by (simp add: dispatch_interrupt_wait_def Let_def)
    have li: "i < length (en_interrupts en1)" using eff i by simp
    show ?thesis using False w idx2 st li assms(1)
      by (simp add: Let_def en1_def [symmetric] interrupt_consumed_stamp_def find_via_index
          dispatch_interrupt_wait_def [of "en1\<lparr>en_interrupts := _\<rparr>"])
  qed
qed

subsection \<open>Witnesses\<close>

definition sample_hal :: irq_hal where
  "sample_hal = \<lparr>hal_configure_gpio = (\<lambda>_ _ _. True), hal_configure_spi = (\<lambda>_. True),
     hal_display_last_close = (\<lambda>_. None), hal_mask_gpio = (\<lambda>_. True), hal_mask_spi = (\<lambda>_. True),
     hal_complete_gpio = (\<lambda>_. True), hal_unmask_spi = (\<lambda>_. True)\<rparr>"

definition sample_root :: resource_binding where
  "sample_root = \<lparr>rb_koid = 1, rb_phys_base = 0x10000000, rb_len = 0x1000, rb_irq_base = 32, rb_irq_count = 64\<rparr>"

definition sample_irq :: irq_binding where
  "sample_irq = \<lparr>ib_references = 5, ib_state = Bound, ib_irq = 40, ib_koid = 2, ib_count = 0,
     ib_requires_complete = False, ib_outstanding = False, ib_stamp_ns = 0, ib_consumed_stamp_ns = 0\<rparr>"

definition sample_rights :: rights where
  "sample_rights = RIGHT_READ OR RIGHT_WRITE OR RIGHT_DUPLICATE OR RIGHT_TRANSFER OR RIGHT_MANAGE"

definition sample_root_table :: handle_table where
  "sample_root_table = \<lparr>ht_entries = [\<lparr>oh_entry = \<lparr>he_handle = 1, he_koid = 1, he_kind = Resource,
     he_rights = sample_rights\<rparr>, oh_reference = None\<rparr>], ht_next_handle = 2\<rparr>"

definition sample_bound_table :: handle_table where
  "sample_bound_table = \<lparr>ht_entries = ht_entries sample_root_table @
     [\<lparr>oh_entry = \<lparr>he_handle = 2, he_koid = 2, he_kind = Interrupt,
        he_rights = RIGHT_READ OR RIGHT_WAIT OR RIGHT_DUPLICATE\<rparr>, oh_reference = Some 5\<rparr>], ht_next_handle = 3\<rparr>"

lemma sample_roots_eq:
  "root_resource_create (\<lambda>_. True) engine_new handle_table_new 0x10000000 0x1000 32 64 =
     (Inr 1, engine_new\<lparr>en_objects := \<lparr>next_koid = 2\<rparr>, en_resources := [sample_root]\<rparr>, sample_root_table)"
  by (simp add: root_resource_create_def create_def engine_new_def object_manager_new_def sample_defs Let_def
      saturating_add_def sample_root_def sample_root_table_def sample_rights_def)

lemma sample_root_tables_wf: "table_wf sample_root_table" "table_wf sample_bound_table"
  by (simp_all add: table_wf_def table_issued_def sample_root_table_def sample_bound_table_def)

lemma sample_root_require:
  "rights_contains sample_rights r \<Longrightarrow> require sample_root_table 1 Resource r =
     Inr \<lparr>he_handle = 1, he_koid = 1, he_kind = Resource, he_rights = sample_rights\<rparr>"
  unfolding require_def get_lookup [OF sample_root_tables_wf(1)]
  by (simp add: table_lookup_def sample_root_table_def)

lemma sample_irq_require:
  "require sample_bound_table 2 Interrupt RIGHT_WAIT =
     Inr \<lparr>he_handle = 2, he_koid = 2, he_kind = Interrupt, he_rights = RIGHT_READ OR RIGHT_WAIT OR RIGHT_DUPLICATE\<rparr>"
  unfolding require_def get_lookup [OF sample_root_tables_wf(2)]
  by (simp add: table_lookup_def sample_bound_table_def sample_root_table_def rights_contains_def
      mask_contains_def right_defs)

lemma sample_key: "interrupt_authority_key 40 = 40" "decode_tlmm_gpio_irq 40 = None"
  by (simp_all add: interrupt_authority_key_def decode_tlmm_gpio_irq_def IRQ_KIND_TLMM_GPIO_def)

lemma sample_rights_ok: "rights_contains sample_rights RIGHT_WRITE" "rights_contains sample_rights RIGHT_READ"
  by (simp_all add: rights_contains_def mask_contains_def sample_rights_def right_defs)

definition sample_devices :: engine where
  "sample_devices = engine_new\<lparr>en_objects := \<lparr>next_koid = 3\<rparr>, en_resources := [sample_root], en_interrupts := [sample_irq]\<rparr>"

lemma sample_bound_eq:
  "dispatch_interrupt_create sample_hal (\<lambda>_. True) True 5
     (engine_new\<lparr>en_objects := \<lparr>next_koid = 2\<rparr>, en_resources := [sample_root]\<rparr>) sample_root_table 1 40 =
   (KR_Handle 2, sample_devices, sample_bound_table)"
proof -
  have "resource_contains_irq sample_root 40"
    by (simp add: irq_in_window sample_key irq_window_def sample_root_def)
  moreover have "resource_by_koid (engine_new\<lparr>en_objects := x, en_resources := [sample_root]\<rparr>) 1 = Some sample_root" for x
    by (simp add: resource_by_koid_def sample_root_def)
  moreover have "insert_interrupt (\<lambda>_. True) 5 sample_root_table (kernel_object_new 2 Interrupt)
      (RIGHT_READ OR RIGHT_WAIT OR RIGHT_DUPLICATE) = (Inr (2, 5), sample_bound_table)"
    by (simp add: insert_interrupt_def insert_referenced_def insert_parts_def reserve_insert_def sample_root_table_def
        sample_bound_table_def kernel_object_new_def checked_add_def Let_def)
  moreover have "create \<lparr>next_koid = 2\<rparr> Interrupt = (kernel_object_new 2 Interrupt, \<lparr>next_koid = 3\<rparr>)"
    by (simp add: create_def saturating_add_def)
  moreover have "reserve_insert (\<lambda>_. True) sample_root_table = Inr ()"
    by (simp add: reserve_insert_def sample_root_table_def)
  moreover have "en_interrupts engine_new = []" by (simp add: engine_new_def)
  moreover have "configure_interrupt_source sample_hal 40 = Inr 40"
    by (simp add: configure_interrupt_source_def sample_hal_def sample_key Let_def)
  ultimately show ?thesis
    by (simp add: dispatch_interrupt_create_def sample_root_require sample_rights_ok sample_key
        sample_devices_def sample_irq_def kernel_object_new_def)
qed

lemma sample_reach: "device_reach [sample_root] sample_devices"
proof -
  have "device_reach [sample_root] (engine_new\<lparr>en_objects := \<lparr>next_koid = 2\<rparr>, en_resources := [sample_root]\<rparr>)"
    using dr_root [OF dr_new sample_roots_eq] by simp
  from dr_create [OF this sample_bound_eq] show ?thesis .
qed

theorem hardware_authority_confined_witness:
  "granted [sample_root] sample_root \<and> line_granted [sample_root] 40
   \<and> {268435456 ..< 268435456 + 2048} \<subseteq> mmio_span sample_root"
proof -
  have "resource_contains sample_root 0x10000000 0x800" by (simp add: resource_contains_nat sample_root_def)
  moreover have "resource_by_koid sample_devices 1 = Some sample_root"
    by (simp add: resource_by_koid_def sample_root_def sample_devices_def)
  moreover have "from_mmio_range 0x10000000 0x800 = Inr \<lparr>vmo_len = 4096, vmo_backing = MmioBacking 0x10000000\<rparr>"
    by (simp add: from_mmio_range_def vmo_of_len_def align_up_def align_down_def is_page_aligned_def PAGE_SIZE_def
        Let_def checked_add_def)
  ultimately have m: "\<exists>rs. mint_mmio (\<lambda>_ _. False) (\<lambda>_ _. False) None sample_devices sample_root_table 1 0x10000000 0x800
      = Inr (\<lparr>vmo_len = 4096, vmo_backing = MmioBacking 0x10000000\<rparr>, rs)"
    by (simp add: mint_mmio_def sample_root_require sample_rights_ok Let_def)
  then obtain rs where m: "mint_mmio (\<lambda>_ _. False) (\<lambda>_ _. False) None sample_devices sample_root_table 1 0x10000000 0x800
      = Inr (\<lparr>vmo_len = 4096, vmo_backing = MmioBacking 0x10000000\<rparr>, rs)" by blast
  from hardware_authority_confined [OF sample_reach, of "\<lambda>_ _. False" "\<lambda>_ _. False" None sample_root_table 1
      "0x10000000" "0x800" "\<lparr>vmo_len = 4096, vmo_backing = MmioBacking 0x10000000\<rparr>" rs] m
  show ?thesis by (simp add: sample_devices_def sample_irq_def)
qed

theorem interrupt_line_exclusive_witness:
  "\<exists>code. dispatch_interrupt_create sample_hal (\<lambda>_. True) True 6 sample_devices sample_bound_table 1 40 =
     (KR_Status code, sample_devices, sample_bound_table)"
proof -
  have "interrupt_authority_key 40 \<in> set (taken_lines (en_interrupts sample_devices))"
    by (simp add: sample_key sample_devices_def taken_lines_def sample_irq_def)
  with interrupt_line_exclusive [OF sample_reach, of 40] show ?thesis by blast
qed

theorem interrupt_delivery_exact_witness:
  "fst (dispatch_interrupt_wait (signal_all (\<lambda>l. l = 5) 40 [100, 200, 300] sample_devices) sample_bound_table 2) = KR_Handle 3"
proof -
  have i: "find_index (\<lambda>b. ib_koid b = 2 \<and> ib_state b = Bound) (en_interrupts sample_devices) = Some 0"
    and b: "en_interrupts sample_devices ! 0 = sample_irq"
    by (simp_all add: sample_devices_def sample_irq_def)
  have "is_referenced (\<lambda>l. l = 5) (en_ipc sample_devices) (ib_references (en_interrupts sample_devices ! 0))"
    by (simp add: b sample_irq_def is_referenced_def)
  moreover have "accepted sample_irq [100, 200, 300] = [100, 200, 300]" "ib_irq sample_irq = 40" "ib_count sample_irq = 0"
    by (simp_all add: accepted_def sample_irq_def)
  ultimately show ?thesis
    using interrupt_delivery_exact [OF sample_irq_require, of sample_devices 0 "\<lambda>l. l = 5" "[100, 200, 300]"] i b
    by (simp add: Let_def)
qed

text \<open>
  The bytes of a minted object beyond the request are not checked against the Resource: a
  Resource over the first half of a page yields an object that maps the whole page, so the
  registers of the second half, which a sibling Resource may own alone, can be reached.
\<close>

theorem mint_exceeds_resource:
  "\<exists>en t r. resource_by_koid en 1 = Some r \<and> mmio_span r = {268435456 ..< 268435456 + 2048}
     \<and> (\<exists>v rs. mint_mmio (\<lambda>_ _. False) (\<lambda>_ _. False) None en t 1 0x10000000 0x800 = Inr (v, rs) \<and> vmo_len v = 4096)"
proof -
  let ?r = "\<lparr>rb_koid = 1, rb_phys_base = 0x10000000, rb_len = 0x800, rb_irq_base = 0, rb_irq_count = 0\<rparr>"
  let ?en = "engine_new\<lparr>en_resources := [?r]\<rparr>"
  have r: "resource_by_koid ?en 1 = Some ?r" by (simp add: resource_by_koid_def)
  have "resource_contains ?r 0x10000000 0x800" by (simp add: resource_contains_nat)
  moreover have "from_mmio_range 0x10000000 0x800 = Inr \<lparr>vmo_len = 4096, vmo_backing = MmioBacking 0x10000000\<rparr>"
    by (simp add: from_mmio_range_def vmo_of_len_def align_up_def align_down_def is_page_aligned_def PAGE_SIZE_def
        Let_def checked_add_def)
  ultimately have "\<exists>v rs. mint_mmio (\<lambda>_ _. False) (\<lambda>_ _. False) None ?en sample_root_table 1 0x10000000 0x800 = Inr (v, rs)
      \<and> vmo_len v = 4096"
    using r by (simp add: mint_mmio_def sample_root_require sample_rights_ok Let_def)
  moreover have "mmio_span ?r = {268435456 ..< 268435456 + 2048}" by (simp add: mmio_span_def)
  ultimately show ?thesis using r by blast
qed

end
