(* ===== verification/Xhci_Trb.thy ===== *)
theory Xhci_Trb
  imports Kumo_Prelude
begin

text \<open>
  Transfer request blocks of the USB host controller library (\<open>lib/kumo-xhci/src/trb.rs\<close>): the
  types, the four-word block with its accessors, the constructors of commands and transfers,
  and the decoder of events. \<open>[u32; 4]\<close> is a record of four words.
\<close>

unbundle bit_operations_syntax

datatype xhci_error =
    XE_InvalidField | XE_MisalignedIova | XE_BufferCrosses64K | XE_RingTooSmall | XE_RingTooLarge
  | XE_RingMemoryLength | XE_RingFull | XE_CompletionNotPending | XE_WrongRingType
  | XE_RegisterWindowTooSmall | XE_ControllerNotHalted | XE_ControllerNotReady

section \<open>Types\<close>

datatype trb_type =
    T_Normal | T_SetupStage | T_DataStage | T_StatusStage | T_Isochronous | T_Link | T_EventData | T_NoOpTransfer
  | T_EnableSlotCommand | T_DisableSlotCommand | T_AddressDeviceCommand | T_ConfigureEndpointCommand
  | T_EvaluateContextCommand | T_ResetEndpointCommand | T_StopEndpointCommand | T_SetTransferRingDequeueCommand
  | T_ResetDeviceCommand | T_ForceEventCommand | T_NegotiateBandwidthCommand | T_SetLatencyToleranceCommand
  | T_GetPortBandwidthCommand | T_ForceHeaderCommand | T_NoOpCommand | T_GetExtendedPropertyCommand
  | T_SetExtendedPropertyCommand
  | T_TransferEvent | T_CommandCompletionEvent | T_PortStatusChangeEvent | T_BandwidthRequestEvent
  | T_DoorbellEvent | T_HostControllerEvent | T_DeviceNotificationEvent | T_MfindexWrapEvent

fun trb_type_code :: "trb_type \<Rightarrow> u8" where
  "trb_type_code T_Normal = 1" | "trb_type_code T_SetupStage = 2" | "trb_type_code T_DataStage = 3"
| "trb_type_code T_StatusStage = 4" | "trb_type_code T_Isochronous = 5" | "trb_type_code T_Link = 6"
| "trb_type_code T_EventData = 7" | "trb_type_code T_NoOpTransfer = 8" | "trb_type_code T_EnableSlotCommand = 9"
| "trb_type_code T_DisableSlotCommand = 10" | "trb_type_code T_AddressDeviceCommand = 11"
| "trb_type_code T_ConfigureEndpointCommand = 12" | "trb_type_code T_EvaluateContextCommand = 13"
| "trb_type_code T_ResetEndpointCommand = 14" | "trb_type_code T_StopEndpointCommand = 15"
| "trb_type_code T_SetTransferRingDequeueCommand = 16" | "trb_type_code T_ResetDeviceCommand = 17"
| "trb_type_code T_ForceEventCommand = 18" | "trb_type_code T_NegotiateBandwidthCommand = 19"
| "trb_type_code T_SetLatencyToleranceCommand = 20" | "trb_type_code T_GetPortBandwidthCommand = 21"
| "trb_type_code T_ForceHeaderCommand = 22" | "trb_type_code T_NoOpCommand = 23"
| "trb_type_code T_GetExtendedPropertyCommand = 24" | "trb_type_code T_SetExtendedPropertyCommand = 25"
| "trb_type_code T_TransferEvent = 32" | "trb_type_code T_CommandCompletionEvent = 33"
| "trb_type_code T_PortStatusChangeEvent = 34" | "trb_type_code T_BandwidthRequestEvent = 35"
| "trb_type_code T_DoorbellEvent = 36" | "trb_type_code T_HostControllerEvent = 37"
| "trb_type_code T_DeviceNotificationEvent = 38" | "trb_type_code T_MfindexWrapEvent = 39"

definition trb_type_from_raw :: "u8 \<Rightarrow> trb_type option" where
  "trb_type_from_raw raw =
     map_of [(1, T_Normal), (2, T_SetupStage), (3, T_DataStage), (4, T_StatusStage), (5, T_Isochronous), (6, T_Link),
       (7, T_EventData), (8, T_NoOpTransfer), (9, T_EnableSlotCommand), (10, T_DisableSlotCommand),
       (11, T_AddressDeviceCommand), (12, T_ConfigureEndpointCommand), (13, T_EvaluateContextCommand),
       (14, T_ResetEndpointCommand), (15, T_StopEndpointCommand), (16, T_SetTransferRingDequeueCommand),
       (17, T_ResetDeviceCommand), (18, T_ForceEventCommand), (19, T_NegotiateBandwidthCommand),
       (20, T_SetLatencyToleranceCommand), (21, T_GetPortBandwidthCommand), (22, T_ForceHeaderCommand),
       (23, T_NoOpCommand), (24, T_GetExtendedPropertyCommand), (25, T_SetExtendedPropertyCommand),
       (32, T_TransferEvent), (33, T_CommandCompletionEvent), (34, T_PortStatusChangeEvent),
       (35, T_BandwidthRequestEvent), (36, T_DoorbellEvent), (37, T_HostControllerEvent),
       (38, T_DeviceNotificationEvent), (39, T_MfindexWrapEvent)] raw"

definition is_command :: "trb_type \<Rightarrow> bool" where
  "is_command k = (9 \<le> trb_type_code k \<and> trb_type_code k \<le> 25)"

definition is_transfer :: "trb_type \<Rightarrow> bool" where
  "is_transfer k = (1 \<le> trb_type_code k \<and> trb_type_code k \<le> 8 \<and> k \<noteq> T_Link)"

section \<open>Blocks\<close>

record trb =
  tw0 :: u32
  tw1 :: u32
  tw2 :: u32
  tw3 :: u32

definition trb_zero :: trb where
  "trb_zero = \<lparr>tw0 = 0, tw1 = 0, tw2 = 0, tw3 = 0\<rparr>"

definition trb_cycle :: "trb \<Rightarrow> bool" where
  "trb_cycle t = (tw3 t AND 1 \<noteq> 0)"

definition trb_type_raw :: "trb \<Rightarrow> u8" where
  "trb_type_raw t = ucast (drop_bit 10 (tw3 t) AND 0x3f)"

definition trb_type_of :: "trb \<Rightarrow> trb_type option" where
  "trb_type_of t = trb_type_from_raw (trb_type_raw t)"

definition trb_pointer :: "trb \<Rightarrow> u64" where
  "trb_pointer t = ucast (tw0 t) OR push_bit 32 (ucast (tw1 t))"

definition completion_code :: "trb \<Rightarrow> u8" where
  "completion_code t = ucast (drop_bit 24 (tw2 t))"

definition slot_id :: "trb \<Rightarrow> u8" where
  "slot_id t = ucast (drop_bit 24 (tw3 t))"

definition endpoint_id :: "trb \<Rightarrow> u8" where
  "endpoint_id t = ucast (drop_bit 16 (tw3 t) AND 0x1f)"

definition with_cycle :: "trb \<Rightarrow> bool \<Rightarrow> trb" where
  "with_cycle t cycle = t\<lparr>tw3 := (tw3 t AND NOT 1) OR of_bool cycle\<rparr>"

definition typed :: "trb_type \<Rightarrow> trb" where
  "typed k = trb_zero\<lparr>tw3 := push_bit 10 (ucast (trb_type_code k))\<rparr>"

definition set_pointer :: "trb \<Rightarrow> u64 \<Rightarrow> trb" where
  "set_pointer t p = t\<lparr>tw0 := ucast p, tw1 := ucast (drop_bit 32 p)\<rparr>"

definition or_control :: "trb \<Rightarrow> u32 \<Rightarrow> trb" where
  "or_control t w = t\<lparr>tw3 := tw3 t OR w\<rparr>"

definition trb_link :: "u64 \<Rightarrow> bool \<Rightarrow> trb" where
  "trb_link base_iova cycle = with_cycle (or_control (set_pointer (typed T_Link) base_iova) 2) cycle"

section \<open>Constructors\<close>

definition no_op_command :: trb where
  "no_op_command = typed T_NoOpCommand"

definition enable_slot :: "u8 \<Rightarrow> xhci_error + trb" where
  "enable_slot slot_type =
     (if 31 < slot_type then Inl XE_InvalidField
      else Inr (or_control (typed T_EnableSlotCommand) (push_bit 16 (ucast slot_type))))"

definition command_with_context :: "trb_type \<Rightarrow> u64 \<Rightarrow> u8 \<Rightarrow> bool \<Rightarrow> xhci_error + trb" where
  "command_with_context kind input_context_iova slot bit_nine =
     (if input_context_iova AND 0xf \<noteq> 0 \<or> slot = 0
      then Inl (if input_context_iova AND 0xf \<noteq> 0 then XE_MisalignedIova else XE_InvalidField)
      else Inr (or_control (set_pointer (typed kind) input_context_iova)
                  (push_bit 9 (of_bool bit_nine) OR push_bit 24 (ucast slot))))"

definition address_device :: "u64 \<Rightarrow> u8 \<Rightarrow> bool \<Rightarrow> xhci_error + trb" where
  "address_device input_context_iova slot block_set_address =
     command_with_context T_AddressDeviceCommand input_context_iova slot block_set_address"

definition configure_endpoint :: "u64 \<Rightarrow> u8 \<Rightarrow> xhci_error + trb" where
  "configure_endpoint input_context_iova slot =
     command_with_context T_ConfigureEndpointCommand input_context_iova slot False"

definition validate_buffer :: "u64 \<Rightarrow> u32 \<Rightarrow> xhci_error + unit" where
  "validate_buffer iova length' =
     (if length' \<noteq> 0 \<and> 0x10000 < (iova AND 0xffff) + ucast length' then Inl XE_BufferCrosses64K else Inr ())"

record normal_transfer_config =
  nt_buffer_iova :: u64
  nt_length :: u32
  nt_td_size :: u8
  nt_interrupter_target :: u16
  nt_interrupt_on_short_packet :: bool
  nt_interrupt_on_completion :: bool
  nt_chain :: bool

definition interrupt_in :: "u64 \<Rightarrow> u32 \<Rightarrow> normal_transfer_config" where
  "interrupt_in buffer_iova length' =
     \<lparr>nt_buffer_iova = buffer_iova, nt_length = length', nt_td_size = 0, nt_interrupter_target = 0,
      nt_interrupt_on_short_packet = True, nt_interrupt_on_completion = True, nt_chain = False\<rparr>"

definition bulk_out :: "u64 \<Rightarrow> u32 \<Rightarrow> normal_transfer_config" where
  "bulk_out buffer_iova length' =
     \<lparr>nt_buffer_iova = buffer_iova, nt_length = length', nt_td_size = 0, nt_interrupter_target = 0,
      nt_interrupt_on_short_packet = False, nt_interrupt_on_completion = True, nt_chain = False\<rparr>"

definition bulk_in :: "u64 \<Rightarrow> u32 \<Rightarrow> normal_transfer_config" where
  "bulk_in buffer_iova length' = (bulk_out buffer_iova length')\<lparr>nt_interrupt_on_short_packet := True\<rparr>"

definition normal_transfer :: "normal_transfer_config \<Rightarrow> xhci_error + trb" where
  "normal_transfer c =
     (if 0x1ffff < nt_length c \<or> 31 < nt_td_size c \<or> 0x3ff < nt_interrupter_target c then Inl XE_InvalidField
      else case validate_buffer (nt_buffer_iova c) (nt_length c) of
             Inl e \<Rightarrow> Inl e
           | Inr _ \<Rightarrow>
               let t = (set_pointer (typed T_Normal) (nt_buffer_iova c))
                         \<lparr>tw2 := nt_length c OR push_bit 17 (ucast (nt_td_size c))
                                 OR push_bit 22 (ucast (nt_interrupter_target c))\<rparr>;
                   t1 = (if nt_interrupt_on_short_packet c then or_control t 4 else t);
                   t2 = or_control t1 (push_bit 4 (of_bool (nt_chain c)))
               in Inr (if nt_interrupt_on_completion c then or_control t2 32 else t2))"

datatype setup_transfer_type = ST_NoData | ST_Out | ST_In

fun setup_transfer_code :: "setup_transfer_type \<Rightarrow> u32" where
  "setup_transfer_code ST_NoData = 0"
| "setup_transfer_code ST_Out = 2"
| "setup_transfer_code ST_In = 3"

text \<open>\<open>u32::from_le_bytes\<close>\<close>

definition le_word :: "u8 \<Rightarrow> u8 \<Rightarrow> u8 \<Rightarrow> u8 \<Rightarrow> u32" where
  "le_word b0 b1 b2 b3 = ucast b0 OR push_bit 8 (ucast b1) OR push_bit 16 (ucast b2) OR push_bit 24 (ucast b3)"

text \<open>The packet \<open>[u8; 8]\<close> is a list of eight bytes.\<close>

definition setup_stage :: "u8 list \<Rightarrow> setup_transfer_type \<Rightarrow> u16 \<Rightarrow> xhci_error + trb" where
  "setup_stage packet transfer_type interrupter_target =
     (if 0x3ff < interrupter_target then Inl XE_InvalidField
      else Inr (or_control
             ((typed T_SetupStage)\<lparr>tw0 := le_word (packet ! 0) (packet ! 1) (packet ! 2) (packet ! 3),
                tw1 := le_word (packet ! 4) (packet ! 5) (packet ! 6) (packet ! 7),
                tw2 := 8 OR push_bit 22 (ucast interrupter_target)\<rparr>)
             (64 OR push_bit 16 (setup_transfer_code transfer_type))))"

definition data_stage :: "u64 \<Rightarrow> u32 \<Rightarrow> u8 \<Rightarrow> u16 \<Rightarrow> bool \<Rightarrow> xhci_error + trb" where
  "data_stage buffer_iova length' td_size interrupter_target direction_in =
     (if 0x1ffff < length' \<or> 31 < td_size \<or> 0x3ff < interrupter_target then Inl XE_InvalidField
      else case validate_buffer buffer_iova length' of
             Inl e \<Rightarrow> Inl e
           | Inr _ \<Rightarrow>
               Inr (or_control
                 ((set_pointer (typed T_DataStage) buffer_iova)
                    \<lparr>tw2 := length' OR push_bit 17 (ucast td_size) OR push_bit 22 (ucast interrupter_target)\<rparr>)
                 (16 OR push_bit 16 (of_bool direction_in))))"

definition status_stage :: "u16 \<Rightarrow> bool \<Rightarrow> bool \<Rightarrow> xhci_error + trb" where
  "status_stage interrupter_target direction_in interrupt_on_completion =
     (if 0x3ff < interrupter_target then Inl XE_InvalidField
      else let t = or_control ((typed T_StatusStage)\<lparr>tw2 := push_bit 22 (ucast interrupter_target)\<rparr>)
                     (push_bit 16 (of_bool direction_in))
           in Inr (if interrupt_on_completion then or_control t 32 else t))"

section \<open>Events\<close>

datatype xhci_event =
    Ev_Transfer u64 u32 u8 u8 u8
  | Ev_CommandCompletion u64 u32 u8 u8
  | Ev_PortStatusChange u8 u8
  | Ev_HostController u8

definition decode_event :: "trb \<Rightarrow> xhci_event option" where
  "decode_event t =
     (case trb_type_of t of
        Some T_TransferEvent \<Rightarrow>
          Some (Ev_Transfer (trb_pointer t AND NOT 0xf) (tw2 t AND 0x00ffffff) (completion_code t) (endpoint_id t) (slot_id t))
      | Some T_CommandCompletionEvent \<Rightarrow>
          Some (Ev_CommandCompletion (trb_pointer t AND NOT 0xf) (tw2 t AND 0x00ffffff) (completion_code t) (slot_id t))
      | Some T_PortStatusChangeEvent \<Rightarrow> Some (Ev_PortStatusChange (ucast (drop_bit 24 (tw0 t))) (completion_code t))
      | Some T_HostControllerEvent \<Rightarrow> Some (Ev_HostController (completion_code t))
      | _ \<Rightarrow> None)"

section \<open>Fields\<close>

lemma trb_type_code_inverse [simp]: "trb_type_from_raw (trb_type_code k) = Some k"
  by (cases k) (simp_all add: trb_type_from_raw_def)

lemma trb_type_code_bound: "trb_type_code k < 64"
  by (cases k) simp_all

lemma bit_3f: "bit (0x3f :: u32) n \<longleftrightarrow> n < 6"
proof -
  have m: "(0x3f :: u32) = mask 6" by (simp add: mask_eq_exp_minus_1)
  show ?thesis unfolding m by (auto simp: bit_mask_iff)
qed

text \<open>Bits 10 to 15 of the control word hold the type, bit 0 the cycle.\<close>

lemma trb_type_cong:
  assumes "\<And>n. 10 \<le> n \<Longrightarrow> n < 16 \<Longrightarrow> bit (tw3 s) n = bit (tw3 t) n"
  shows "trb_type_of s = trb_type_of t"
proof -
  have "drop_bit 10 (tw3 s) AND 0x3f = drop_bit 10 (tw3 t) AND 0x3f"
    using assms by (intro bit_word_eqI) (auto simp only: bit_and_iff bit_drop_bit_eq bit_3f comp_apply)
  then show ?thesis by (simp add: trb_type_of_def trb_type_raw_def)
qed

lemma trb_cycle_bit: "trb_cycle t = bit (tw3 t) 0"
  by (simp add: trb_cycle_def and_one_eq odd_iff_mod_2_eq_one bit_0)

lemma trb_type_typed [simp]: "trb_type_of (typed k) = Some k"
proof -
  have "drop_bit 10 (push_bit 10 (ucast (trb_type_code k)) :: u32) AND 0x3f = ucast (trb_type_code k)"
    by (cases k) simp_all
  then have "trb_type_raw (typed k) = trb_type_code k"
    by (cases k) (simp_all add: trb_type_raw_def typed_def)
  then show ?thesis by (simp add: trb_type_of_def)
qed

lemma trb_cycle_typed [simp]: "\<not> trb_cycle (typed k)"
  by (simp add: trb_cycle_bit typed_def bit_push_bit_iff)

lemma bit_with_cycle: "bit (tw3 (with_cycle t c)) n \<longleftrightarrow> (if n = 0 then c else bit (tw3 t) n)"
  using bit_imp_le_length [of "tw3 t" n] by (auto simp: with_cycle_def bit_simps)

lemma trb_type_with_cycle [simp]: "trb_type_of (with_cycle t c) = trb_type_of t"
  by (rule trb_type_cong) (simp add: bit_with_cycle)

lemma trb_cycle_with_cycle [simp]: "trb_cycle (with_cycle t c) = c"
  by (simp add: trb_cycle_bit bit_with_cycle)

lemma with_cycle_idem [simp]: "with_cycle (with_cycle t a) b = with_cycle t b"
proof -
  have "tw3 (with_cycle (with_cycle t a) b) = tw3 (with_cycle t b)"
    by (rule bit_word_eqI) (simp add: bit_with_cycle)
  then show ?thesis by (simp add: with_cycle_def)
qed

text \<open>A control word outside the type field and the cycle bit keeps both.\<close>

definition spares :: "u32 \<Rightarrow> bool" where
  "spares w \<longleftrightarrow> \<not> bit w 0 \<and> (\<forall>n. 10 \<le> n \<longrightarrow> n < 16 \<longrightarrow> \<not> bit w n)"

lemma or_control_keeps [simp]:
  assumes "spares w"
  shows "trb_type_of (or_control t w) = trb_type_of t" and "trb_cycle (or_control t w) = trb_cycle t"
  using assms by (auto intro!: trb_type_cong simp: or_control_def spares_def bit_or_iff trb_cycle_bit)

lemma spares_or [simp]: "spares (a OR b) \<longleftrightarrow> spares a \<and> spares b"
  by (auto simp: spares_def bit_or_iff)

lemma spares_push [simp]: "16 \<le> k \<Longrightarrow> spares (push_bit k x)"
  by (auto simp: spares_def bit_push_bit_iff)

lemma spares_flag: "0 < k \<Longrightarrow> k < 10 \<Longrightarrow> spares (push_bit k (of_bool b))"
  by (auto simp: spares_def bit_push_bit_iff bit_simps)

lemma spares_flags [simp]:
  "spares 0" "spares 2" "spares 4" "spares 16" "spares 32" "spares 64" "spares 512" "spares 65536"
  using spares_flag [of 9 True] spares_push [of 16 1] spares_flag [of 1 True] spares_flag [of 2 True] spares_flag [of 4 True] spares_flag [of 5 True] spares_flag [of 6 True]
  by (simp_all add: spares_def [of 0])

lemma spares_direction [simp]: "spares 65552"
  using spares_or [of 16 65536] by simp

lemma set_pointer_keeps [simp]:
  "trb_type_of (set_pointer t p) = trb_type_of t" "trb_cycle (set_pointer t p) = trb_cycle t"
  "trb_type_of (t\<lparr>tw0 := x\<rparr>) = trb_type_of t" "trb_cycle (t\<lparr>tw0 := x\<rparr>) = trb_cycle t"
  "trb_type_of (t\<lparr>tw1 := x\<rparr>) = trb_type_of t" "trb_cycle (t\<lparr>tw1 := x\<rparr>) = trb_cycle t"
  "trb_type_of (t\<lparr>tw2 := x\<rparr>) = trb_type_of t" "trb_cycle (t\<lparr>tw2 := x\<rparr>) = trb_cycle t"
  by (auto intro!: trb_type_cong simp: set_pointer_def trb_cycle_def)

lemma trb_pointer_words:
  assumes "tw0 t = ucast p" and "tw1 t = ucast (drop_bit 32 p)"
  shows "trb_pointer t = p"
  using assms by (intro bit_word_eqI) (auto simp: trb_pointer_def bit_simps)

lemma trb_pointer_keeps [simp]:
  "trb_pointer (set_pointer t p) = p" "trb_pointer (or_control t w) = trb_pointer t"
  "trb_pointer (t\<lparr>tw2 := x\<rparr>) = trb_pointer t" "trb_pointer (with_cycle t c) = trb_pointer t"
  by (simp_all add: trb_pointer_words set_pointer_def) (simp_all add: trb_pointer_def or_control_def with_cycle_def)

lemma trb_link_fields [simp]:
  "trb_type_of (trb_link base c) = Some T_Link" "trb_cycle (trb_link base c) = c" "trb_pointer (trb_link base c) = base"
  by (simp_all add: trb_link_def)

section \<open>The property\<close>

text \<open>What a constructor builds, when it builds something: a block of the type with the cycle bit clear.\<close>

definition builds :: "xhci_error + trb \<Rightarrow> trb_type \<Rightarrow> bool" where
  "builds r k = (case r of Inl _ \<Rightarrow> True | Inr t \<Rightarrow> trb_type_of t = Some k \<and> \<not> trb_cycle t)"

definition carries :: "xhci_error + trb \<Rightarrow> u64 \<Rightarrow> bool" where
  "carries r p = (case r of Inl _ \<Rightarrow> True | Inr t \<Rightarrow> trb_pointer t = p)"

text \<open>
  Every constructor of a transfer request block is typed. Whatever arguments it accepts,
  the block it returns decodes to the type of the constructor, its cycle bit is clear (so a ring
  alone decides when the controller may take it), and the constructors that take an address
  return a block whose pointer is that address; a command constructor builds a command and a
  transfer constructor a transfer, never a link, so the matching ring accepts the block.
\<close>

lemma trb_constructors_typed:
  "builds (Inr no_op_command) T_NoOpCommand \<and> builds (enable_slot slot_type) T_EnableSlotCommand
   \<and> builds (address_device iova slot bsr) T_AddressDeviceCommand \<and> carries (address_device iova slot bsr) iova
   \<and> builds (configure_endpoint iova slot) T_ConfigureEndpointCommand \<and> carries (configure_endpoint iova slot) iova
   \<and> builds (normal_transfer c) T_Normal \<and> carries (normal_transfer c) (nt_buffer_iova c)
   \<and> builds (setup_stage packet tt target) T_SetupStage
   \<and> builds (data_stage iova len td target din) T_DataStage \<and> carries (data_stage iova len td target din) iova
   \<and> builds (status_stage target din ioc) T_StatusStage
   \<and> trb_type_of (trb_link iova cycle) = Some T_Link \<and> trb_cycle (trb_link iova cycle) = cycle
   \<and> trb_pointer (trb_link iova cycle) = iova
   \<and> list_all is_command [T_NoOpCommand, T_EnableSlotCommand, T_AddressDeviceCommand, T_ConfigureEndpointCommand]
   \<and> list_all is_transfer [T_Normal, T_SetupStage, T_DataStage, T_StatusStage]
   \<and> \<not> is_command T_Link \<and> \<not> is_transfer T_Link"
proof -
  have ctx: "builds (command_with_context k iova slot b) k \<and> carries (command_with_context k iova slot b) iova" for k b
    by (simp add: builds_def carries_def command_with_context_def spares_flag)
  have "builds (normal_transfer c) T_Normal \<and> carries (normal_transfer c) (nt_buffer_iova c)"
    by (simp add: builds_def carries_def normal_transfer_def spares_flag Let_def split: sum.splits)
  moreover have "builds (data_stage iova len td target din) T_DataStage \<and> carries (data_stage iova len td target din) iova"
    by (simp add: builds_def carries_def data_stage_def split: sum.splits)
  moreover have "builds (setup_stage packet tt target) T_SetupStage"
    by (simp add: builds_def setup_stage_def)
  moreover have "builds (status_stage target din ioc) T_StatusStage"
    by (simp add: builds_def status_stage_def Let_def)
  moreover have "builds (Inr no_op_command) T_NoOpCommand" "builds (enable_slot slot_type) T_EnableSlotCommand"
    by (simp_all add: builds_def no_op_command_def enable_slot_def)
  ultimately show ?thesis
    using ctx by (simp add: address_device_def configure_endpoint_def is_command_def is_transfer_def word_le_nat_alt)
qed

end
