(* ===== verification/Xhci_Ring.thy ===== *)
theory Xhci_Ring
  imports Xhci_Trb
begin

text \<open>
  The rings of the USB host controller library (\<open>lib/kumo-xhci/src/ring.rs\<close>): the producer ring
  behind command and transfer rings, the event ring, and the segment table entry. A segment is
  the list of its blocks (\<open>TrbSink\<close> and \<open>TrbSource\<close> for slices).

  The theorem relates the producer ring to a bounded queue and to what a controller reads by
  the rule of the cycle bit: a block belongs to the controller while its cycle bit equals the
  controller's cycle state, and a link block sends it back to the base and toggles that state.
\<close>

unbundle bit_operations_syntax

section \<open>Producer rings\<close>

definition TRB_BYTES :: u64 where "TRB_BYTES = 16"
definition RING_ALIGNMENT :: u64 where "RING_ALIGNMENT = 64"
definition MAX_SEGMENT_TRBS :: nat where "MAX_SEGMENT_TRBS = 4096"

definition validate_base :: "u64 \<Rightarrow> nat \<Rightarrow> xhci_error + unit" where
  "validate_base base_iova len =
     (if base_iova AND (RING_ALIGNMENT - 1) \<noteq> 0 then Inl XE_MisalignedIova
      else case checked_add base_iova (of_nat len * TRB_BYTES) of
             None \<Rightarrow> Inl XE_InvalidField
           | Some _ \<Rightarrow> Inr ())"

definition validate_producer_segment :: "nat \<Rightarrow> u64 \<Rightarrow> xhci_error + unit" where
  "validate_producer_segment len base_iova =
     (if len < 2 then Inl XE_RingTooSmall
      else if MAX_SEGMENT_TRBS < len then Inl XE_RingTooLarge
      else validate_base base_iova len)"

definition validate_event_segment :: "nat \<Rightarrow> u64 \<Rightarrow> xhci_error + unit" where
  "validate_event_segment len base_iova =
     (if len < 16 then Inl XE_RingTooSmall
      else if MAX_SEGMENT_TRBS < len then Inl XE_RingTooLarge
      else validate_base base_iova len)"

definition advance :: "nat \<Rightarrow> nat \<Rightarrow> nat" where
  "advance index segment_len = (if index + 1 = segment_len - 1 then 0 else index + 1)"

record producer_ring =
  pg_base_iova :: u64
  pg_segment_len :: nat
  pg_enqueue :: nat
  pg_dequeue :: nat
  pg_queued :: nat
  pg_producer_cycle :: bool

definition ring_initialize :: "trb list \<Rightarrow> u64 \<Rightarrow> (xhci_error + producer_ring) \<times> trb list" where
  "ring_initialize segment base_iova =
     (let len = length segment in
      case validate_producer_segment len base_iova of
        Inl e \<Rightarrow> (Inl e, segment)
      | Inr _ \<Rightarrow>
          (Inr \<lparr>pg_base_iova = base_iova, pg_segment_len = len, pg_enqueue = 0, pg_dequeue = 0,
                pg_queued = 0, pg_producer_cycle = True\<rparr>,
           (fold (\<lambda>index seg. seg[index := trb_zero]) [0..<len - 1] segment)[len - 1 := trb_link base_iova False]))"

definition ring_capacity :: "producer_ring \<Rightarrow> nat" where
  "ring_capacity r = pg_segment_len r - 1"

definition check_memory :: "producer_ring \<Rightarrow> nat \<Rightarrow> xhci_error + unit" where
  "check_memory r len = (if len = pg_segment_len r then Inr () else Inl XE_RingMemoryLength)"

text \<open>The address of a block, the \<open>RingToken\<close> of the source.\<close>

definition ring_enqueue ::
  "producer_ring \<Rightarrow> trb list \<Rightarrow> trb \<Rightarrow> (xhci_error + u64) \<times> producer_ring \<times> trb list" where
  "ring_enqueue r segment t =
     (case check_memory r (length segment) of
        Inl e \<Rightarrow> (Inl e, r, segment)
      | Inr _ \<Rightarrow>
          if pg_queued r = ring_capacity r then (Inl XE_RingFull, r, segment)
          else
            let index = pg_enqueue r;
                segment1 = segment[index := with_cycle t (pg_producer_cycle r)];
                token = pg_base_iova r + of_nat index * TRB_BYTES;
                next = index + 1
            in if next = pg_segment_len r - 1
               then (Inr token,
                     r\<lparr>pg_enqueue := 0, pg_producer_cycle := \<not> pg_producer_cycle r, pg_queued := pg_queued r + 1\<rparr>,
                     segment1[next := trb_link (pg_base_iova r) (pg_producer_cycle r)])
               else (Inr token, r\<lparr>pg_enqueue := next, pg_queued := pg_queued r + 1\<rparr>, segment1))"

definition index_for :: "producer_ring \<Rightarrow> u64 \<Rightarrow> nat option" where
  "index_for r iova =
     (case checked_sub iova (pg_base_iova r) of
        None \<Rightarrow> None
      | Some offset \<Rightarrow>
          if offset mod TRB_BYTES \<noteq> 0 then None
          else let index = unat (offset div TRB_BYTES)
               in if index < pg_segment_len r - 1 then Some index else None)"

fun reclaim_loop :: "producer_ring \<Rightarrow> nat \<Rightarrow> nat \<Rightarrow> nat list \<Rightarrow> (xhci_error + nat) \<times> producer_ring" where
  "reclaim_loop r target index [] = (Inl XE_CompletionNotPending, r)"
| "reclaim_loop r target index (released # rest) =
     (if index = target
      then (Inr released, r\<lparr>pg_dequeue := advance index (pg_segment_len r), pg_queued := pg_queued r - released\<rparr>)
      else reclaim_loop r target (advance index (pg_segment_len r)) rest)"

definition reclaim_through :: "producer_ring \<Rightarrow> u64 \<Rightarrow> (xhci_error + nat) \<times> producer_ring" where
  "reclaim_through r completed_iova =
     (case index_for r completed_iova of
        None \<Rightarrow> (Inl XE_CompletionNotPending, r)
      | Some target \<Rightarrow> reclaim_loop r target (pg_dequeue r) [1..<pg_queued r + 1])"

text \<open>\<open>CommandRing::enqueue\<close> and \<open>TransferRing::enqueue\<close> check the type of the block first.\<close>

definition command_enqueue ::
  "producer_ring \<Rightarrow> trb list \<Rightarrow> trb \<Rightarrow> (xhci_error + u64) \<times> producer_ring \<times> trb list" where
  "command_enqueue r segment t =
     (case trb_type_of t of
        None \<Rightarrow> (Inl XE_WrongRingType, r, segment)
      | Some kind \<Rightarrow> if \<not> is_command kind then (Inl XE_WrongRingType, r, segment) else ring_enqueue r segment t)"

definition transfer_enqueue ::
  "producer_ring \<Rightarrow> trb list \<Rightarrow> trb \<Rightarrow> (xhci_error + u64) \<times> producer_ring \<times> trb list" where
  "transfer_enqueue r segment t =
     (case trb_type_of t of
        None \<Rightarrow> (Inl XE_WrongRingType, r, segment)
      | Some kind \<Rightarrow> if \<not> is_transfer kind then (Inl XE_WrongRingType, r, segment) else ring_enqueue r segment t)"

section \<open>Event rings\<close>

record event_ring =
  er_base_iova :: u64
  er_segment_len :: nat
  er_dequeue :: nat
  er_consumer_cycle :: bool

definition event_ring_new :: "trb list \<Rightarrow> u64 \<Rightarrow> (xhci_error + event_ring) \<times> trb list" where
  "event_ring_new segment base_iova =
     (let len = length segment in
      case validate_event_segment len base_iova of
        Inl e \<Rightarrow> (Inl e, segment)
      | Inr _ \<Rightarrow>
          (Inr \<lparr>er_base_iova = base_iova, er_segment_len = len, er_dequeue = 0, er_consumer_cycle = True\<rparr>,
           fold (\<lambda>index seg. seg[index := trb_zero]) [0..<len] segment))"

definition event_pop :: "event_ring \<Rightarrow> trb list \<Rightarrow> (xhci_error + trb option) \<times> event_ring" where
  "event_pop r segment =
     (if length segment \<noteq> er_segment_len r then (Inl XE_RingMemoryLength, r)
      else
        let t = segment ! er_dequeue r in
        if trb_cycle t \<noteq> er_consumer_cycle r then (Inr None, r)
        else if er_dequeue r + 1 = er_segment_len r
             then (Inr (Some t), r\<lparr>er_dequeue := 0, er_consumer_cycle := \<not> er_consumer_cycle r\<rparr>)
             else (Inr (Some t), r\<lparr>er_dequeue := er_dequeue r + 1\<rparr>))"

definition dequeue_iova :: "event_ring \<Rightarrow> u64" where
  "dequeue_iova r = er_base_iova r + of_nat (er_dequeue r) * TRB_BYTES"

definition segment_table_entry :: "u64 \<Rightarrow> nat \<Rightarrow> xhci_error + u32 list" where
  "segment_table_entry segment_iova trb_count =
     (case validate_event_segment trb_count segment_iova of
        Inl e \<Rightarrow> Inl e
      | Inr _ \<Rightarrow> Inr [ucast segment_iova, ucast (drop_bit 32 segment_iova), of_nat trb_count, 0])"

definition entry_qwords :: "u32 list \<Rightarrow> u64 list" where
  "entry_qwords w = [ucast (w ! 0) OR push_bit 32 (ucast (w ! 1)), ucast (w ! 2) OR push_bit 32 (ucast (w ! 3))]"

section \<open>The specification\<close>

text \<open>
  A bounded queue of blocks that numbers them from 0: \<open>bq_start\<close> blocks have left the queue. The
  block with number \<open>n\<close> is at the address \<open>block_iova base cap n\<close>.
\<close>

record block_queue =
  bq_start :: nat
  bq_items :: "trb list"

definition block_iova :: "u64 \<Rightarrow> nat \<Rightarrow> nat \<Rightarrow> u64" where
  "block_iova base cap n = base + of_nat (16 * (n mod cap))"

definition queue_put :: "u64 \<Rightarrow> nat \<Rightarrow> trb \<Rightarrow> block_queue \<Rightarrow> (xhci_error + u64) \<times> block_queue" where
  "queue_put base cap t q =
     (if length (bq_items q) = cap then (Inl XE_RingFull, q)
      else (Inr (block_iova base cap (bq_start q + length (bq_items q))), q\<lparr>bq_items := bq_items q @ [t]\<rparr>))"

definition queue_complete :: "u64 \<Rightarrow> nat \<Rightarrow> u64 \<Rightarrow> block_queue \<Rightarrow> (xhci_error + nat) \<times> block_queue" where
  "queue_complete base cap iova q =
     (case find_index (\<lambda>n. block_iova base cap n = iova) [bq_start q..<bq_start q + length (bq_items q)] of
        None \<Rightarrow> (Inl XE_CompletionNotPending, q)
      | Some k \<Rightarrow> (Inr (k + 1), \<lparr>bq_start = bq_start q + (k + 1), bq_items = drop (k + 1) (bq_items q)\<rparr>))"

text \<open>
  What a controller finds that stands at \<open>index\<close> with a cycle state: it takes blocks while their
  cycle bit equals its state; a link leads to the address it holds and toggles the state. The
  first argument bounds the number of blocks it looks at.
\<close>

fun controller_sees :: "nat \<Rightarrow> u64 \<Rightarrow> trb list \<Rightarrow> nat \<Rightarrow> bool \<Rightarrow> trb list" where
  "controller_sees 0 base seg index cycle = []"
| "controller_sees (Suc fuel) base seg index cycle =
     (let t = seg ! index in
      if trb_cycle t \<noteq> cycle then []
      else if trb_type_of t = Some T_Link
           then controller_sees fuel base seg (unat (trb_pointer t - base) div 16) (\<not> cycle)
           else t # controller_sees fuel base seg (index + 1) cycle)"

definition ring_rep :: "u64 \<Rightarrow> nat \<Rightarrow> block_queue \<Rightarrow> producer_ring \<Rightarrow> trb list \<Rightarrow> bool" where
  "ring_rep base cap q r seg \<longleftrightarrow>
     (let E = bq_start q + length (bq_items q) in
      0 < cap \<and> unat base + 16 * (cap + 1) < 2 ^ 64 \<and> length seg = cap + 1
      \<and> r = \<lparr>pg_base_iova = base, pg_segment_len = cap + 1, pg_enqueue = E mod cap, pg_dequeue = bq_start q mod cap,
             pg_queued = length (bq_items q), pg_producer_cycle = even (E div cap)\<rparr>
      \<and> length (bq_items q) \<le> cap
      \<and> (\<forall>t \<in> set (bq_items q). trb_type_of t \<noteq> Some T_Link)
      \<and> seg ! cap = trb_link base (odd (E div cap))
      \<and> (\<forall>k < length (bq_items q). seg ! ((bq_start q + k) mod cap) =
           with_cycle (bq_items q ! k) (even ((bq_start q + k) div cap)))
      \<and> (\<forall>j < cap. trb_cycle (seg ! ((E + j) mod cap)) = odd ((E + j) div cap)))"

subsection \<open>Positions\<close>

lemma mod_neq_near: "a < b \<Longrightarrow> b < a + cap \<Longrightarrow> a mod cap \<noteq> b mod (cap :: nat)"
proof
  assume "a < b" "b < a + cap" "a mod cap = b mod cap"
  then have "cap dvd b - a" by (metis mod_eq_dvd_iff_nat order_less_imp_le)
  then have "cap \<le> b - a" using \<open>a < b\<close> by (intro dvd_imp_le) auto
  with \<open>b < a + cap\<close> \<open>a < b\<close> show False by linarith
qed

lemma next_position:
  assumes "0 < cap"
  shows "n mod cap + 1 = cap \<Longrightarrow> Suc n mod cap = 0 \<and> Suc n div cap = Suc (n div cap)"
    and "n mod cap + 1 \<noteq> cap \<Longrightarrow> Suc n mod cap = n mod cap + 1 \<and> Suc n div cap = n div cap"
  using assms by (auto simp: mod_Suc div_Suc)

lemma advance_mod: "0 < cap \<Longrightarrow> advance (n mod cap) (cap + 1) = Suc n mod cap"
  using next_position [of cap n] by (auto simp: advance_def)

lemma fold_zero_writes:
  "n \<le> length seg \<Longrightarrow> length (fold (\<lambda>i s. s[i := trb_zero]) [0..<n] seg) = length seg
     \<and> (\<forall>j < n. fold (\<lambda>i s. s[i := trb_zero]) [0..<n] seg ! j = trb_zero)"
  by (induction n) (auto simp: nth_list_update less_Suc_eq)

lemma ring_rep_initialize:
  assumes "ring_initialize seg base = (Inr r, seg')"
  shows "ring_rep base (length seg - 1) \<lparr>bq_start = 0, bq_items = []\<rparr> r seg' \<and> 1 < length seg"
proof -
  let ?z = "fold (\<lambda>i s. s[i := trb_zero]) [0..<length seg - 1] seg"
  have ok: "2 \<le> length seg" "length seg \<le> 4096" "validate_base base (length seg) = Inr ()"
    and r: "r = \<lparr>pg_base_iova = base, pg_segment_len = length seg, pg_enqueue = 0, pg_dequeue = 0, pg_queued = 0,
      pg_producer_cycle = True\<rparr>" and seg': "seg' = ?z[length seg - 1 := trb_link base False]"
    using assms by (auto simp: ring_initialize_def validate_producer_segment_def MAX_SEGMENT_TRBS_def Let_def
        split: if_splits sum.splits)
  have "unat (of_nat (length seg) * TRB_BYTES) = 16 * length seg"
    using ok(2) by (simp add: TRB_BYTES_def unat_word_ariths unat_of_nat take_bit_nat_eq_self)
  moreover have "\<exists>e. checked_add base (of_nat (length seg) * TRB_BYTES) = Some e"
    using ok(3) by (simp add: validate_base_def split: if_splits option.splits)
  ultimately have room: "unat base + 16 * length seg < 2 ^ 64"
    by (auto simp: checked_add_Some_iff) (metis unat_u64_bound)
  have z: "length ?z = length seg" "\<And>j. j < length seg - 1 \<Longrightarrow> ?z ! j = trb_zero"
    using fold_zero_writes [of "length seg - 1" seg] by auto
  have "trb_cycle trb_zero = False" by (simp add: trb_cycle_def trb_zero_def)
  moreover have "length seg = (length seg - 1) + 1" "unat base + 16 * (length seg - 1 + 1) < 2 ^ 64"
    using ok(1) room by simp_all
  ultimately show ?thesis using ok(1) z unfolding ring_rep_def Let_def r seg'
    by (intro conjI) simp_all
qed

subsection \<open>Enqueue\<close>

lemma ring_rep_enqueue:
  assumes rep: "ring_rep base cap q r seg" and "trb_type_of t \<noteq> Some T_Link"
    and run: "ring_enqueue r seg t = (res, r', seg')"
  shows "\<exists>q'. queue_put base cap t q = (res, q') \<and> ring_rep base cap q' r' seg'"
proof (cases "length (bq_items q) = cap")
  case True
  with rep run show ?thesis
    by (auto simp: ring_rep_def Let_def ring_enqueue_def check_memory_def ring_capacity_def queue_put_def)
next
  case False
  define E where "E = bq_start q + length (bq_items q)"
  define m where "m = E mod cap"
  define c where "c = even (E div cap)"
  define seg1 where "seg1 = seg[m := with_cycle t c]"
  have R: "0 < cap" "unat base + 16 * (cap + 1) < 2 ^ 64" "length seg = cap + 1"
      "r = \<lparr>pg_base_iova = base, pg_segment_len = cap + 1, pg_enqueue = m, pg_dequeue = bq_start q mod cap,
         pg_queued = length (bq_items q), pg_producer_cycle = c\<rparr>"
      "length (bq_items q) < cap" "\<forall>t \<in> set (bq_items q). trb_type_of t \<noteq> Some T_Link"
      "seg ! cap = trb_link base (\<not> c)"
      "\<And>k. k < length (bq_items q) \<Longrightarrow> seg ! ((bq_start q + k) mod cap) =
         with_cycle (bq_items q ! k) (even ((bq_start q + k) div cap))"
      "\<And>j. j < cap \<Longrightarrow> trb_cycle (seg ! ((E + j) mod cap)) = odd ((E + j) div cap)"
    using rep False by (auto simp: ring_rep_def Let_def E_def m_def c_def)
  have m: "m < cap" using R(1) by (simp add: m_def)
  let ?q' = "q\<lparr>bq_items := bq_items q @ [t]\<rparr>"
  have put: "queue_put base cap t q = (Inr (base + of_nat m * TRB_BYTES), ?q')"
    using False by (simp add: queue_put_def block_iova_def TRB_BYTES_def E_def m_def mult.commute)
  have E': "bq_start ?q' + length (bq_items ?q') = Suc E" by (simp add: E_def)
  have slot: "seg1 ! i = (if i = m then with_cycle t c else seg ! i)" for i using m R(3) by (simp add: seg1_def nth_list_update)
  have old: "(bq_start q + k) mod cap \<noteq> m" if "k < length (bq_items q)" for k
    unfolding m_def by (rule mod_neq_near) (use that R(5) in \<open>auto simp: E_def\<close>)
  have items: "seg1 ! ((bq_start q + k) mod cap) = with_cycle ((bq_items q @ [t]) ! k) (even ((bq_start q + k) div cap))"
    if "k < Suc (length (bq_items q))" for k
  proof (cases "k = length (bq_items q)")
    case True
    then show ?thesis by (simp add: slot m_def c_def E_def)
  next
    case False
    then have "k < length (bq_items q)" using that by simp
    with R(8) old show ?thesis by (simp add: slot nth_append)
  qed
  have cycles: "trb_cycle (seg1 ! ((Suc E + j) mod cap)) = odd ((Suc E + j) div cap)" if "j < cap" for j
  proof (cases "Suc j = cap")
    case True
    then have "(Suc E + j) mod cap = m" "(Suc E + j) div cap = Suc (E div cap)"
      using R(1) by (metis add_Suc_shift m_def mod_add_self2, metis add_Suc_shift div_add_self2 less_numeral_extra(3) Suc_eq_plus1)
    then show ?thesis by (simp add: slot c_def)
  next
    case False
    then have "Suc j < cap" using that by simp
    moreover from this have "m \<noteq> (E + Suc j) mod cap" unfolding m_def by (intro mod_neq_near) auto
    ultimately show ?thesis using R(9) [of "Suc j"] by (simp add: slot)
  qed
  show ?thesis
  proof (cases "m + 1 = cap")
    case True
    with next_position(1) [OF R(1), of E] have n: "Suc E mod cap = 0" "odd (Suc E div cap) = c" "even (Suc E div cap) = (\<not> c)"
      by (simp_all add: m_def c_def)
    have seg': "seg' = seg1[cap := trb_link base c]" and r': "r' = r\<lparr>pg_enqueue := 0, pg_producer_cycle := \<not> c,
        pg_queued := Suc (length (bq_items q))\<rparr>" and res: "res = Inr (base + of_nat m * TRB_BYTES)"
      using run R(3,5) True by (auto simp: ring_enqueue_def check_memory_def ring_capacity_def R(4) seg1_def)
    have same: "seg' ! (n mod cap) = seg1 ! (n mod cap)" for n
      using mod_less_divisor [OF R(1), of n] unfolding seg' by (metis less_irrefl nth_list_update_neq)
    have link: "seg' ! cap = trb_link base c" using R(3) by (simp add: seg' seg1_def)
    have len: "length seg' = cap + 1" using R(3) by (simp add: seg' seg1_def)
    have "ring_rep base cap ?q' r' seg'"
      unfolding ring_rep_def Let_def E' same link len
      using R(1,2,5,6) assms(2) items cycles n by (simp add: R(4) r')
    with put res show ?thesis by blast
  next
    case ne: False
    with next_position(2) [OF R(1), of E] have n: "Suc E mod cap = m + 1" "even (Suc E div cap) = c"
      by (simp_all add: m_def c_def)
    have seg': "seg' = seg1" and r': "r' = r\<lparr>pg_enqueue := m + 1, pg_queued := Suc (length (bq_items q))\<rparr>"
      and res: "res = Inr (base + of_nat m * TRB_BYTES)"
      using run R(3,5) ne by (auto simp: ring_enqueue_def check_memory_def ring_capacity_def R(4) seg1_def)
    have link: "seg' ! cap = trb_link base (\<not> c)" using m R(7) by (simp add: slot seg')
    have len: "length seg' = cap + 1" using R(3) by (simp add: seg' seg1_def)
    have "ring_rep base cap ?q' r' seg'"
      unfolding ring_rep_def Let_def E' link len
      using R(1,2,5,6) assms(2) items cycles n by (simp add: R(4) r' seg')
    with put res show ?thesis by blast
  qed
qed

subsection \<open>Reclaim\<close>

lemma index_for_iff:
  assumes "ring_rep base cap q r seg"
  shows "index_for r iova = Some i \<longleftrightarrow> i < cap \<and> iova = base + of_nat (16 * i)"
proof -
  have R: "unat base + 16 * (cap + 1) < 2 ^ 64" "pg_base_iova r = base" "pg_segment_len r = cap + 1"
    using assms by (auto simp: ring_rep_def Let_def)
  have addr: "unat (base + of_nat (16 * i)) = unat base + 16 * i" if "i < cap"
    using that R(1) by (simp add: unat_word_ariths unat_of_nat take_bit_nat_eq_self)
  show ?thesis
  proof (cases "unat base \<le> unat iova")
    case True
    define d where "d = unat iova - unat base"
    have off: "checked_sub iova base = Some (iova - base)" "unat (iova - base) = d"
      using True by (simp_all add: checked_sub_def d_def unat_sub word_le_nat_alt)
    have "(iova - base) mod TRB_BYTES = 0 \<longleftrightarrow> d mod 16 = 0"
      by (simp add: word_unat_eq_iff unat_mod_distrib TRB_BYTES_def off)
    moreover have "unat ((iova - base) div TRB_BYTES) = d div 16"
      by (simp add: unat_div_distrib TRB_BYTES_def off)
    ultimately have "index_for r iova = Some i \<longleftrightarrow> d mod 16 = 0 \<and> d div 16 = i \<and> i < cap"
      by (auto simp: index_for_def R off(1) Let_def split: if_splits)
    also have "\<dots> \<longleftrightarrow> i < cap \<and> d = 16 * i" by auto
    also have "\<dots> \<longleftrightarrow> i < cap \<and> unat iova = unat base + 16 * i" using True by (auto simp: d_def)
    also have "\<dots> \<longleftrightarrow> i < cap \<and> iova = base + of_nat (16 * i)" using addr by (auto simp: word_unat_eq_iff)
    finally show ?thesis .
  next
    case False
    then have "index_for r iova = None" by (simp add: index_for_def R checked_sub_def)
    moreover have "\<not> (i < cap \<and> iova = base + of_nat (16 * i))" using False addr by auto
    ultimately show ?thesis by simp
  qed
qed

lemma reclaim_loop_find:
  assumes "0 < cap" and "pg_segment_len r = cap + 1"
  shows "reclaim_loop r target (n mod cap) [a..<a + k] =
    (case find_index (\<lambda>x. x mod cap = target) [n..<n + k] of
       None \<Rightarrow> (Inl XE_CompletionNotPending, r)
     | Some i \<Rightarrow> (Inr (a + i), r\<lparr>pg_dequeue := (n + i + 1) mod cap, pg_queued := pg_queued r - (a + i)\<rparr>))"
proof (induction k arbitrary: n a)
  case (Suc k)
  have l: "[a..<a + Suc k] = a # [Suc a..<Suc a + k]" "[n..<n + Suc k] = n # [Suc n..<Suc n + k]"
    by (simp_all add: upt_conv_Cons)
  show ?case
  proof (cases "n mod cap = target")
    case True
    then show ?thesis unfolding l using advance_mod [OF assms(1), of n] assms(2) by simp
  next
    case False
    then show ?thesis unfolding l using advance_mod [OF assms(1), of n] assms(2) Suc.IH [of "Suc n" "Suc a"]
      by (auto split: option.splits)
  qed
qed simp

lemma find_index_cong: "(\<And>x. x \<in> set xs \<Longrightarrow> P x = Q x) \<Longrightarrow> find_index P xs = find_index Q xs"
  by (induction xs) auto

lemma ring_rep_reclaim:
  assumes rep: "ring_rep base cap q r seg" and run: "reclaim_through r iova = (res, r')"
  shows "\<exists>q'. queue_complete base cap iova q = (res, q') \<and> ring_rep base cap q' r' seg"
proof -
  let ?n = "length (bq_items q)" and ?s = "bq_start q"
  have R: "0 < cap" "pg_segment_len r = cap + 1" "pg_dequeue r = ?s mod cap" "pg_queued r = ?n"
    using rep by (auto simp: ring_rep_def Let_def)
  have addr: "block_iova base cap n = iova \<longleftrightarrow> index_for r iova = Some (n mod cap)" for n
    using index_for_iff [OF rep, of iova "n mod cap"] R(1) by (auto simp: block_iova_def)
  show ?thesis
  proof (cases "index_for r iova")
    case None
    then have "find_index (\<lambda>n. block_iova base cap n = iova) [?s..<?s + ?n] = None"
      by (simp add: find_index_None_iff addr)
    with None run rep show ?thesis by (auto simp: reclaim_through_def queue_complete_def)
  next
    case (Some target)
    have f: "find_index (\<lambda>n. block_iova base cap n = iova) [?s..<?s + ?n] = find_index (\<lambda>x. x mod cap = target) [?s..<?s + ?n]"
      by (rule find_index_cong) (auto simp: addr Some)
    have loop: "(res, r') = (case find_index (\<lambda>x. x mod cap = target) [?s..<?s + ?n] of
        None \<Rightarrow> (Inl XE_CompletionNotPending, r)
      | Some i \<Rightarrow> (Inr (1 + i), r\<lparr>pg_dequeue := (?s + i + 1) mod cap, pg_queued := ?n - (1 + i)\<rparr>))"
      using run Some reclaim_loop_find [OF R(1,2), of target ?s 1 ?n]
      unfolding R(3,4) reclaim_through_def by (simp only: option.case add.commute)
    show ?thesis
    proof (cases "find_index (\<lambda>x. x mod cap = target) [?s..<?s + ?n]")
      case None
      with loop f rep show ?thesis by (auto simp: queue_complete_def)
    next
      case (Some i)
      let ?q' = "\<lparr>bq_start = ?s + (i + 1), bq_items = drop (i + 1) (bq_items q)\<rparr>"
      have i: "i < ?n" using Some by (auto simp: find_index_Some_iff)
      have "res = Inr (i + 1)" "r' = r\<lparr>pg_dequeue := (?s + i + 1) mod cap, pg_queued := ?n - (1 + i)\<rparr>"
        using loop Some by simp_all
      moreover have "queue_complete base cap iova q = (Inr (i + 1), ?q')" using f Some by (simp add: queue_complete_def)
      moreover have E: "?s + (i + 1) + length (drop (i + 1) (bq_items q)) = ?s + ?n" using i by simp
      have items: "\<forall>k < length (drop (i + 1) (bq_items q)). seg ! ((?s + (i + 1) + k) mod cap) =
          with_cycle (drop (i + 1) (bq_items q) ! k) (even ((?s + (i + 1) + k) div cap))"
      proof (intro allI impI)
        fix k assume "k < length (drop (i + 1) (bq_items q))"
        then have "i + 1 + k < ?n" by simp
        moreover have "\<And>k. k < ?n \<Longrightarrow> seg ! ((?s + k) mod cap) = with_cycle (bq_items q ! k) (even ((?s + k) div cap))"
          using rep by (auto simp: ring_rep_def Let_def)
        ultimately have "seg ! ((?s + (i + 1 + k)) mod cap) = with_cycle (bq_items q ! (i + 1 + k)) (even ((?s + (i + 1 + k)) div cap))"
          by blast
        then show "seg ! ((?s + (i + 1) + k) mod cap) =
          with_cycle (drop (i + 1) (bq_items q) ! k) (even ((?s + (i + 1) + k) div cap))"
          using i by (simp add: add.assoc)
      qed
      have le: "length (drop (i + 1) (bq_items q)) \<le> cap"
        using rep by (auto simp: ring_rep_def Let_def)
      have "ring_rep base cap ?q' (r\<lparr>pg_dequeue := (?s + i + 1) mod cap, pg_queued := ?n - (1 + i)\<rparr>) seg"
        unfolding ring_rep_def Let_def block_queue.simps E
        using le rep [unfolded ring_rep_def Let_def] items in_set_dropD [of _ "i + 1" "bq_items q"]
        by (elim conjE, intro conjI; (assumption | simp | blast))
      ultimately show ?thesis by blast
    qed
  qed
qed

subsection \<open>What the controller sees\<close>

abbreviation uncycled :: "trb \<Rightarrow> trb" where
  "uncycled t \<equiv> with_cycle t False"

lemma controller_sees_items:
  assumes rep: "ring_rep base cap q r seg"
  shows "k \<le> length (bq_items q) \<Longrightarrow> 2 * (length (bq_items q) - k) < fuel \<Longrightarrow>
    map uncycled (controller_sees fuel base seg ((bq_start q + k) mod cap) (even ((bq_start q + k) div cap))) =
    map uncycled (drop k (bq_items q))"
proof (induction "length (bq_items q) - k" arbitrary: k fuel)
  case 0
  then have k: "k = length (bq_items q)" by simp
  obtain f where f: "fuel = Suc f" using 0 by (cases fuel) auto
  have "0 < cap" and "\<forall>j < cap. trb_cycle (seg ! ((bq_start q + k + j) mod cap)) = odd ((bq_start q + k + j) div cap)"
    using rep by (auto simp: ring_rep_def Let_def k)
  then have "trb_cycle (seg ! ((bq_start q + k) mod cap)) = odd ((bq_start q + k) div cap)" by fastforce
  then show ?case by (simp add: f k)
next
  case (Suc d)
  define n where "n = bq_start q + k"
  have k: "k < length (bq_items q)" using Suc.hyps(2) by simp
  have R: "0 < cap" "length (bq_items q) \<le> cap" "trb_type_of (bq_items q ! k) \<noteq> Some T_Link"
    "seg ! cap = trb_link base (odd ((bq_start q + length (bq_items q)) div cap))"
    "seg ! (n mod cap) = with_cycle (bq_items q ! k) (even (n div cap))"
    using rep k by (auto simp: ring_rep_def Let_def n_def)
  obtain f where f: "fuel = Suc (Suc f)" "2 * (length (bq_items q) - Suc k) < f"
  proof -
    have "fuel = Suc (Suc (fuel - 2))" "2 * (length (bq_items q) - Suc k) < fuel - 2" using Suc.prems(2) k by linarith+
    then show thesis using that by blast
  qed
  have ih: "map uncycled (controller_sees g base seg (Suc n mod cap) (even (Suc n div cap))) = map uncycled (drop (Suc k) (bq_items q))"
    if "2 * (length (bq_items q) - Suc k) < g" for g
    using Suc.hyps(1) [of "Suc k" g] Suc.hyps(2) k that by (simp add: n_def)
  have head: "controller_sees fuel base seg (n mod cap) (even (n div cap)) =
      with_cycle (bq_items q ! k) (even (n div cap)) # controller_sees (Suc f) base seg (n mod cap + 1) (even (n div cap))"
    using R(3,5) f(1) by simp
  have tail: "map uncycled (controller_sees (Suc f) base seg (n mod cap + 1) (even (n div cap))) =
      map uncycled (drop (Suc k) (bq_items q))"
  proof (cases "n mod cap + 1 = cap")
    case True
    note nx = next_position(1) [OF R(1) True]
    have "bq_start q + length (bq_items q) \<le> n + cap" "Suc n \<le> bq_start q + length (bq_items q)"
      using R(2) k by (simp_all add: n_def)
    then have "(bq_start q + length (bq_items q)) div cap = Suc (n div cap)"
      using nx R(1) by (metis Suc_eq_plus1 div_add_self2 div_le_mono less_numeral_extra(3) order_antisym)
    then have "controller_sees (Suc f) base seg (n mod cap + 1) (even (n div cap)) =
        controller_sees f base seg (Suc n mod cap) (even (Suc n div cap))"
      using R(4) nx True by simp
    with ih [OF f(2)] show ?thesis by simp
  next
    case False
    with next_position(2) [OF R(1) False] ih [of "Suc f"] f(2) show ?thesis by (simp del: controller_sees.simps)
  qed
  show ?case unfolding n_def [symmetric] head using tail k by (simp add: Cons_nth_drop_Suc [symmetric] del: controller_sees.simps)
qed

section \<open>The property\<close>

datatype ring_op = Put trb | Complete u64

type_synonym ring_answer = "(xhci_error + u64) + (xhci_error + nat)"

text \<open>A run of calls on a ring, whose \<open>enqueue\<close> is a parameter, and the same calls on the queue.\<close>

fun ring_run ::
  "(producer_ring \<Rightarrow> trb list \<Rightarrow> trb \<Rightarrow> (xhci_error + u64) \<times> producer_ring \<times> trb list) \<Rightarrow> ring_op list
     \<Rightarrow> producer_ring \<Rightarrow> trb list \<Rightarrow> ring_answer list \<times> producer_ring \<times> trb list" where
  "ring_run enq [] r seg = ([], r, seg)"
| "ring_run enq (Put t # ops) r seg =
     (case enq r seg t of (a, r', seg') \<Rightarrow> (case ring_run enq ops r' seg' of (as, x) \<Rightarrow> (Inl a # as, x)))"
| "ring_run enq (Complete iova # ops) r seg =
     (case reclaim_through r iova of (a, r') \<Rightarrow> (case ring_run enq ops r' seg of (as, x) \<Rightarrow> (Inr a # as, x)))"

fun queue_run :: "(trb_type \<Rightarrow> bool) \<Rightarrow> u64 \<Rightarrow> nat \<Rightarrow> ring_op list \<Rightarrow> block_queue \<Rightarrow> ring_answer list \<times> block_queue" where
  "queue_run ok base cap [] q = ([], q)"
| "queue_run ok base cap (Put t # ops) q =
     (case (if \<exists>k. trb_type_of t = Some k \<and> ok k then queue_put base cap t q else (Inl XE_WrongRingType, q)) of
        (a, q') \<Rightarrow> (case queue_run ok base cap ops q' of (as, x) \<Rightarrow> (Inl a # as, x)))"
| "queue_run ok base cap (Complete iova # ops) q =
     (case queue_complete base cap iova q of (a, q') \<Rightarrow> (case queue_run ok base cap ops q' of (as, x) \<Rightarrow> (Inr a # as, x)))"

lemma checked_enqueue_rep:
  assumes "ring_rep base cap q r seg"
    and "(enq, ok) \<in> {(command_enqueue, is_command), (transfer_enqueue, is_transfer)}"
    and "enq r seg t = (a, r', seg')"
  shows "\<exists>q'. (if \<exists>k. trb_type_of t = Some k \<and> ok k then queue_put base cap t q else (Inl XE_WrongRingType, q)) = (a, q')
    \<and> ring_rep base cap q' r' seg'"
proof (cases "\<exists>k. trb_type_of t = Some k \<and> ok k")
  case True
  then have "trb_type_of t \<noteq> Some T_Link" "ring_enqueue r seg t = (a, r', seg')"
    using assms(2,3) by (auto simp: command_enqueue_def transfer_enqueue_def is_command_def is_transfer_def)
  with ring_rep_enqueue [OF assms(1)] True show ?thesis by simp
next
  case False
  with assms show ?thesis by (auto simp: command_enqueue_def transfer_enqueue_def split: option.splits)
qed

lemma ring_run_refines:
  assumes "ring_rep base cap q r seg" and "(enq, ok) \<in> {(command_enqueue, is_command), (transfer_enqueue, is_transfer)}"
  shows "\<exists>as r' seg' q'. ring_run enq ops r seg = (as, r', seg') \<and> queue_run ok base cap ops q = (as, q')
    \<and> ring_rep base cap q' r' seg'"
  using assms(1)
proof (induction ops arbitrary: q r seg)
  case (Cons op ops)
  show ?case
  proof (cases op)
    case (Put t)
    obtain a r1 seg1 where e: "enq r seg t = (a, r1, seg1)" by (metis prod_cases3)
    from checked_enqueue_rep [OF Cons.prems assms(2) e] obtain q1
      where q1: "(if \<exists>k. trb_type_of t = Some k \<and> ok k then queue_put base cap t q else (Inl XE_WrongRingType, q)) = (a, q1)"
        "ring_rep base cap q1 r1 seg1" by blast
    from Cons.IH [OF q1(2)] e q1(1) show ?thesis by (auto simp: Put)
  next
    case (Complete iova)
    obtain a r1 where e: "reclaim_through r iova = (a, r1)" by fastforce
    from ring_rep_reclaim [OF Cons.prems e] obtain q1
      where q1: "queue_complete base cap iova q = (a, q1)" "ring_rep base cap q1 r1 seg" by blast
    from Cons.IH [OF q1(2)] e q1(1) show ?thesis by (auto simp: Complete)
  qed
qed auto

text \<open>
  C34: a producer ring is a bounded queue that the controller reads in order. For every run of
  \<open>enqueue\<close> and \<open>reclaim_through\<close> calls on a freshly initialised command or transfer ring, every
  answer is that of a queue with one place less than the segment: an address or \<open>RingFull\<close>, the
  number of blocks released or \<open>CompletionNotPending\<close>, and \<open>WrongRingType\<close> for a block of another
  kind. In the memory it leaves, a controller that has taken \<open>k\<close> of the queued blocks sees
  exactly the remaining ones, in order and each once, across any number of wraps, and no block
  that was completed before.
\<close>

theorem producer_ring_is_queue:
  assumes "ring_initialize segment base = (Inr r0, seg0)"
    and "(enq, ok) \<in> {(command_enqueue, is_command), (transfer_enqueue, is_transfer)}"
  shows "\<exists>answers r seg q cap. cap = length segment - 1
    \<and> ring_run enq ops r0 seg0 = (answers, r, seg)
    \<and> queue_run ok base cap ops \<lparr>bq_start = 0, bq_items = []\<rparr> = (answers, q)
    \<and> (\<forall>k \<le> length (bq_items q).
         map uncycled (controller_sees (2 * length segment) base seg ((bq_start q + k) mod cap)
           (even ((bq_start q + k) div cap))) = map uncycled (drop k (bq_items q)))"
proof -
  let ?cap = "length segment - 1"
  have rep0: "ring_rep base ?cap \<lparr>bq_start = 0, bq_items = []\<rparr> r0 seg0" and len: "1 < length segment"
    using ring_rep_initialize [OF assms(1)] by blast+
  from ring_run_refines [OF rep0 assms(2)] obtain as r seg q where run: "ring_run enq ops r0 seg0 = (as, r, seg)"
    "queue_run ok base ?cap ops \<lparr>bq_start = 0, bq_items = []\<rparr> = (as, q)" "ring_rep base ?cap q r seg" by blast
  have "length (bq_items q) \<le> ?cap" using run(3) by (simp add: ring_rep_def Let_def)
  then have "2 * (length (bq_items q) - k) < 2 * length segment" for k using len by simp
  with controller_sees_items [OF run(3)] run(1,2) show ?thesis by blast
qed

section \<open>Event rings in order\<close>

text \<open>
  The controller is the producer of an event ring: it writes event number \<open>n\<close> into slot
  \<open>n mod len\<close> with the cycle bit of its pass, and never more events ahead of the consumer than the
  segment holds.
\<close>

datatype event_op = Post trb | Pop

fun event_run :: "event_op list \<Rightarrow> event_ring \<Rightarrow> trb list \<Rightarrow> nat \<Rightarrow> (xhci_error + trb option) list" where
  "event_run [] r seg n = []"
| "event_run (Post t # ops) r seg n =
     event_run ops r (seg[n mod length seg := with_cycle t (even (n div length seg))]) (Suc n)"
| "event_run (Pop # ops) r seg n = (case event_pop r seg of (a, r') \<Rightarrow> a # event_run ops r' seg n)"

fun fifo_run :: "event_op list \<Rightarrow> trb list \<Rightarrow> (xhci_error + trb option) list" where
  "fifo_run [] q = []"
| "fifo_run (Post t # ops) q = fifo_run ops (q @ [t])"
| "fifo_run (Pop # ops) [] = Inr None # fifo_run ops []"
| "fifo_run (Pop # ops) (x # q) = Inr (Some x) # fifo_run ops q"

fun room_for :: "nat \<Rightarrow> event_op list \<Rightarrow> nat \<Rightarrow> bool" where
  "room_for len [] n = True"
| "room_for len (Post t # ops) n = (n < len \<and> room_for len ops (Suc n))"
| "room_for len (Pop # ops) n = room_for len ops (n - 1)"

definition event_rep :: "nat \<Rightarrow> trb list \<Rightarrow> event_ring \<Rightarrow> trb list \<Rightarrow> bool" where
  "event_rep P q r seg \<longleftrightarrow>
     (let len = length seg in
      0 < len \<and> er_segment_len r = len \<and> er_dequeue r = P mod len \<and> er_consumer_cycle r = even (P div len)
      \<and> length q \<le> len
      \<and> (\<forall>k < length q. seg ! ((P + k) mod len) = with_cycle (q ! k) (even ((P + k) div len)))
      \<and> (\<forall>j < len. trb_cycle (seg ! ((P + length q + j) mod len)) = odd ((P + length q + j) div len)))"

lemma event_rep_post:
  assumes rep: "event_rep P q r seg" and "length q < length seg"
  shows "event_rep P (q @ [t]) r
    (seg[(P + length q) mod length seg := with_cycle t (even ((P + length q) div length seg))])"
proof -
  define len E where "len = length seg" and "E = P + length q"
  define seg1 where "seg1 = seg[E mod len := with_cycle t (even (E div len))]"
  have R: "0 < len" "\<And>k. k < length q \<Longrightarrow> seg ! ((P + k) mod len) = with_cycle (q ! k) (even ((P + k) div len))"
    "\<And>j. j < len \<Longrightarrow> trb_cycle (seg ! ((E + j) mod len)) = odd ((E + j) div len)"
    using rep by (auto simp: event_rep_def Let_def len_def E_def)
  have slot: "seg1 ! (i mod len) = (if i mod len = E mod len then with_cycle t (even (E div len)) else seg ! (i mod len))" for i
    using R(1) by (simp add: seg1_def len_def nth_list_update)
  have items: "seg1 ! ((P + k) mod len) = with_cycle ((q @ [t]) ! k) (even ((P + k) div len))" if "k < Suc (length q)" for k
  proof (cases "k = length q")
    case True
    then show ?thesis by (simp add: slot E_def)
  next
    case False
    then have "k < length q" using that by simp
    moreover from this have "(P + k) mod len \<noteq> E mod len"
      by (intro mod_neq_near) (use assms(2) in \<open>auto simp: E_def len_def\<close>)
    ultimately show ?thesis using R(2) by (simp add: slot nth_append)
  qed
  have cycles: "trb_cycle (seg1 ! ((Suc E + j) mod len)) = odd ((Suc E + j) div len)" if "j < len" for j
  proof (cases "Suc j = len")
    case True
    then have e: "Suc E + j = E + len" by simp
    show ?thesis unfolding e slot using R(1) by (simp add: div_add_self2)
  next
    case False
    then have "Suc j < len" using that by simp
    moreover from this have "E mod len \<noteq> (E + Suc j) mod len" by (intro mod_neq_near) auto
    ultimately show ?thesis using R(3) [of "Suc j"] slot [of "Suc E + j"] by simp
  qed
  have "event_rep P (q @ [t]) r seg1"
    using rep assms(2) items cycles by (auto simp: event_rep_def Let_def seg1_def len_def E_def)
  then show ?thesis by (simp add: seg1_def len_def E_def)
qed

lemma event_rep_pop:
  assumes rep: "event_rep P q r seg"
  shows "case q of
      [] \<Rightarrow> event_pop r seg = (Inr None, r)
    | x # q' \<Rightarrow> \<exists>r' c. event_pop r seg = (Inr (Some (with_cycle x c)), r') \<and> event_rep (Suc P) q' r' seg"
proof (cases q)
  case Nil
  have "0 < length seg" using rep by (simp add: event_rep_def Let_def)
  then have "trb_cycle (seg ! (P mod length seg)) = odd (P div length seg)"
    using rep Nil by (fastforce simp: event_rep_def Let_def)
  with rep Nil show ?thesis by (simp add: event_rep_def event_pop_def Let_def)
next
  case (Cons x q')
  define len where "len = length seg"
  have R: "0 < len" "er_segment_len r = len" "er_dequeue r = P mod len" "er_consumer_cycle r = even (P div len)"
    "length q' < len" "\<And>k. k < Suc (length q') \<Longrightarrow> seg ! ((P + k) mod len) = with_cycle (q ! k) (even ((P + k) div len))"
    "\<And>j. j < len \<Longrightarrow> trb_cycle (seg ! ((Suc P + length q' + j) mod len)) = odd ((Suc P + length q' + j) div len)"
    using rep Cons by (auto simp: event_rep_def Let_def len_def)
  have items: "seg ! ((Suc P + k) mod len) = with_cycle (q' ! k) (even ((Suc P + k) div len))" if "k < length q'" for k
    using R(6) [of "Suc k"] that Cons by simp
  define r' where "r' = (if P mod len + 1 = len then r\<lparr>er_dequeue := 0, er_consumer_cycle := \<not> er_consumer_cycle r\<rparr>
      else r\<lparr>er_dequeue := P mod len + 1\<rparr>)"
  have "event_pop r seg = (Inr (Some (with_cycle x (even (P div len)))), r')"
    using R(1-4) R(6) [of 0] Cons by (simp add: event_pop_def r'_def len_def Let_def)
  moreover have "event_rep (Suc P) q' r' seg"
    unfolding event_rep_def Let_def len_def [symmetric]
    using R(1-5,7) items next_position [OF R(1), of P] by (auto simp: r'_def)
  ultimately show ?thesis using Cons by auto
qed

abbreviation same_answer :: "xhci_error + trb option \<Rightarrow> xhci_error + trb option" where
  "same_answer \<equiv> map_sum id (map_option uncycled)"

lemma event_run_fifo:
  assumes "event_rep P q r seg" and "room_for (length seg) ops (length q)"
  shows "map same_answer (event_run ops r seg (P + length q)) = map same_answer (fifo_run ops q)"
  using assms
proof (induction ops arbitrary: P q r seg)
  case (Cons op ops)
  show ?case
  proof (cases op)
    case (Post t)
    with Cons.prems have "length q < length seg" "room_for (length seg) ops (length (q @ [t]))" by simp_all
    with Cons.IH [OF event_rep_post [OF Cons.prems(1), of t]] show ?thesis by (simp add: Post)
  next
    case Pop
    show ?thesis
    proof (cases q)
      case Nil
      with event_rep_pop [OF Cons.prems(1)] Cons.IH [OF Cons.prems(1)] Cons.prems(2) show ?thesis by (simp add: Pop)
    next
      case (Cons x q')
      with event_rep_pop [OF Cons.prems(1)] obtain r' c
        where p: "event_pop r seg = (Inr (Some (with_cycle x c)), r')" "event_rep (Suc P) q' r' seg" by auto
      from Cons.IH [OF p(2)] Cons.prems(2) p(1) show ?thesis by (simp add: Pop Cons)
    qed
  qed
qed simp

text \<open>
  C35: an event ring delivers the controller's events in order. For every interleaving of events
  written by the controller (at most as many ahead of the consumer as the segment holds) and of
  \<open>pop\<close> calls on a fresh event ring, every \<open>pop\<close> returns the oldest event not yet returned, or
  nothing when all have been returned; no event is skipped, repeated or read from an earlier
  pass over the segment.
\<close>

theorem event_ring_in_order:
  assumes "event_ring_new segment base = (Inr r0, seg0)" and "room_for (length segment) ops 0"
  shows "map same_answer (event_run ops r0 seg0 0) = map same_answer (fifo_run ops [])"
proof -
  have z: "length (fold (\<lambda>i s. s[i := trb_zero]) [0..<length segment] segment) = length segment"
    "\<And>j. j < length segment \<Longrightarrow> fold (\<lambda>i s. s[i := trb_zero]) [0..<length segment] segment ! j = trb_zero"
    using fold_zero_writes [of "length segment" segment] by auto
  have "\<not> trb_cycle trb_zero" by (simp add: trb_cycle_def trb_zero_def)
  then have "event_rep 0 [] r0 seg0" "length seg0 = length segment"
    using assms(1) z by (auto simp: event_ring_new_def validate_event_segment_def event_rep_def Let_def
        split: if_splits sum.splits)
  from event_run_fifo [OF this(1), of ops] this(2) assms(2) show ?thesis by simp
qed

subsection \<open>Witnesses\<close>

theorem producer_ring_is_queue_witness:
  "\<exists>r0 seg0. ring_initialize (replicate 3 trb_zero) 0x4000 = (Inr r0, seg0)
    \<and> fst (ring_run command_enqueue [Put no_op_command, Complete 0x4000, Complete 0x4000] r0 seg0) =
        [Inl (Inr 0x4000), Inr (Inr 1), Inr (Inl XE_CompletionNotPending)]"
proof -
  obtain r0 seg0 where i: "ring_initialize (replicate 3 trb_zero) 0x4000 = (Inr r0, seg0)"
    by (simp add: ring_initialize_def validate_producer_segment_def validate_base_def MAX_SEGMENT_TRBS_def
        RING_ALIGNMENT_def TRB_BYTES_def checked_add_def Let_def)
  have "trb_type_of no_op_command = Some T_NoOpCommand" "is_command T_NoOpCommand"
    by (simp_all add: no_op_command_def is_command_def word_le_nat_alt)
  then have "fst (queue_run is_command 0x4000 2 [Put no_op_command, Complete 0x4000, Complete 0x4000]
      \<lparr>bq_start = 0, bq_items = []\<rparr>) = [Inl (Inr 0x4000), Inr (Inr 1), Inr (Inl XE_CompletionNotPending)]"
    by (simp add: queue_put_def queue_complete_def block_iova_def)
  with producer_ring_is_queue [OF i, of command_enqueue is_command
      "[Put no_op_command, Complete 0x4000, Complete 0x4000]"] i show ?thesis by (auto simp del: queue_run.simps ring_run.simps)
qed

theorem event_ring_in_order_witness:
  "\<exists>r0 seg0. event_ring_new (replicate 16 trb_zero) 0x4000 = (Inr r0, seg0)
    \<and> map same_answer (event_run [Post no_op_command, Pop, Pop] r0 seg0 0) = [Inr (Some (uncycled no_op_command)), Inr None]"
proof -
  obtain r0 seg0 where i: "event_ring_new (replicate 16 trb_zero) 0x4000 = (Inr r0, seg0)"
    by (simp add: event_ring_new_def validate_event_segment_def validate_base_def MAX_SEGMENT_TRBS_def
        RING_ALIGNMENT_def TRB_BYTES_def checked_add_def Let_def)
  from event_ring_in_order [OF i, of "[Post no_op_command, Pop, Pop]"] i show ?thesis by simp
qed

end
