(* ===== verification/Sha256.thy ===== *)
theory Sha256
  imports Kumo_Prelude "HOL-Library.Monad_Syntax"
begin

text \<open>
  The evidence digest of \<open>lib/kumo-sha256/src/lib.rs\<close>: the streaming state with \<open>update\<close> and
  \<open>finish\<close>, the compression function, and the standard FIPS 180-4 as a specification. The
  theorem says that \<open>update\<close> always returns and that the digest of a stream is that of FIPS 180-4
  for the concatenated input, however the input is split.

  An array is a list of its length. The loop of \<open>update\<close> is a partial function, so that a loop
  that never ends would be the value None.
\<close>

unbundle bit_operations_syntax

section \<open>The code\<close>

text \<open>
  The two constant tables of the source, \<open>K\<close> and \<open>H0\<close>. They are an argument of the model: nothing
  below depends on their values, and the theorem holds for every pair of tables that the
  code and the standard share.
\<close>

record sha_tables =
  st_K :: "u32 list"
  st_H0 :: "u32 list"

record sha256 =
  sh_state :: "u32 list"
  sh_block :: "u8 list"
  sh_used :: nat
  sh_bytes :: u64

definition sha_new :: "sha_tables \<Rightarrow> sha256" where
  "sha_new T = \<lparr>sh_state = st_H0 T, sh_block = replicate 64 0, sh_used = 0, sh_bytes = 0\<rparr>"

text \<open>\<open>u32::from_be_bytes\<close>, \<open>u32::to_be_bytes\<close> and \<open>u64::to_be_bytes\<close>.\<close>

definition from_be_bytes :: "u8 \<Rightarrow> u8 \<Rightarrow> u8 \<Rightarrow> u8 \<Rightarrow> u32" where
  "from_be_bytes b0 b1 b2 b3 = push_bit 24 (ucast b0) OR push_bit 16 (ucast b1) OR push_bit 8 (ucast b2) OR ucast b3"

definition be_bytes32 :: "u32 \<Rightarrow> u8 list" where
  "be_bytes32 x = map (\<lambda>i. ucast (drop_bit (8 * i) x)) [3, 2, 1, 0]"

definition be_bytes64 :: "u64 \<Rightarrow> u8 list" where
  "be_bytes64 x = map (\<lambda>i. ucast (drop_bit (8 * i) x)) [7, 6, 5, 4, 3, 2, 1, 0]"

text \<open>The message schedule: sixteen words of the block, then 48 derived ones.\<close>

definition schedule_words :: "u8 list \<Rightarrow> u32 list" where
  "schedule_words block =
     map (\<lambda>i. from_be_bytes (block ! (4 * i)) (block ! (4 * i + 1)) (block ! (4 * i + 2)) (block ! (4 * i + 3))) [0..<16]
     @ replicate 48 0"

definition schedule_step :: "nat \<Rightarrow> u32 list \<Rightarrow> u32 list" where
  "schedule_step i w =
     (let x = w ! (i - 15);
          y = w ! (i - 2);
          s0 = word_rotr 7 x XOR word_rotr 18 x XOR drop_bit 3 x;
          s1 = word_rotr 17 y XOR word_rotr 19 y XOR drop_bit 10 y
      in w[i := w ! (i - 16) + s0 + w ! (i - 7) + s1])"

type_synonym working = "u32 \<times> u32 \<times> u32 \<times> u32 \<times> u32 \<times> u32 \<times> u32 \<times> u32"

definition compress_round :: "sha_tables \<Rightarrow> u32 list \<Rightarrow> nat \<Rightarrow> working \<Rightarrow> working" where
  "compress_round T w i = (\<lambda>(a, b, c, d, e, f, g, h).
     let s1 = word_rotr 6 e XOR word_rotr 11 e XOR word_rotr 25 e;
         ch = (e AND f) XOR (NOT e AND g);
         t1 = h + s1 + ch + st_K T ! i + w ! i;
         s0 = word_rotr 2 a XOR word_rotr 13 a XOR word_rotr 22 a;
         maj = (a AND b) XOR (a AND c) XOR (b AND c);
         t2 = s0 + maj
     in (t1 + t2, a, b, c, d + t1, e, f, g))"

definition working_of :: "u32 list \<Rightarrow> working" where
  "working_of s = (s ! 0, s ! 1, s ! 2, s ! 3, s ! 4, s ! 5, s ! 6, s ! 7)"

definition list_of_working :: "working \<Rightarrow> u32 list" where
  "list_of_working = (\<lambda>(a, b, c, d, e, f, g, h). [a, b, c, d, e, f, g, h])"

definition compress :: "sha_tables \<Rightarrow> u32 list \<Rightarrow> u8 list \<Rightarrow> u32 list" where
  "compress T state block =
     (let w = fold schedule_step [16..<64] (schedule_words block);
          v = fold (compress_round T w) [0..<64] (working_of state)
      in map2 (+) state (list_of_working v))"

partial_function (option) update_loop :: "sha_tables \<Rightarrow> sha256 \<Rightarrow> u8 list \<Rightarrow> sha256 option" where
  "update_loop T h data =
     (if data = [] then Some h
      else let n = min (64 - sh_used h) (length data);
               block = take (sh_used h) (sh_block h) @ take n data @ drop (sh_used h + n) (sh_block h);
               used = sh_used h + n
           in if used = 64
              then update_loop T (h\<lparr>sh_state := compress T (sh_state h) block, sh_block := block, sh_used := 0\<rparr>) (drop n data)
              else update_loop T (h\<lparr>sh_block := block, sh_used := used\<rparr>) (drop n data))"

declare update_loop.simps [code]

definition sha_update :: "sha_tables \<Rightarrow> sha256 \<Rightarrow> u8 list \<Rightarrow> sha256 option" where
  "sha_update T h data = update_loop T (h\<lparr>sh_bytes := sh_bytes h + of_nat (length data)\<rparr>) data"

definition sha_finish :: "sha_tables \<Rightarrow> sha256 \<Rightarrow> u8 list" where
  "sha_finish T h =
     (let bits = sh_bytes h * 8;
          block = take (sh_used h) (sh_block h) @ 0x80 # replicate (63 - sh_used h) 0;
          (state1, block1) =
            (if 56 \<le> sh_used h then (compress T (sh_state h) block, replicate 64 0) else (sh_state h, block));
          state2 = compress T state1 (take 56 block1 @ be_bytes64 bits)
      in concat (map be_bytes32 state2))"

definition digest :: "sha_tables \<Rightarrow> u8 list \<Rightarrow> u8 list option" where
  "digest T data = map_option (sha_finish T) (sha_update T (sha_new T) data)"

text \<open>\<open>Hex\<close>: two lower-case digits per byte.\<close>

definition hex_digit :: "nat \<Rightarrow> char" where
  "hex_digit n = ''0123456789abcdef'' ! n"

definition hex :: "u8 list \<Rightarrow> string" where
  "hex bs = concat (map (\<lambda>b. [hex_digit (unat b div 16), hex_digit (unat b mod 16)]) bs)"

text \<open>A stream: the chunks in order.\<close>

fun update_all :: "sha_tables \<Rightarrow> sha256 \<Rightarrow> u8 list list \<Rightarrow> sha256 option" where
  "update_all T h [] = Some h"
| "update_all T h (c # cs) = Option.bind (sha_update T h c) (\<lambda>h'. update_all T h' cs)"

section \<open>FIPS 180-4\<close>

text \<open>
  The functions of section 4.1.2, the message schedule of section 6.2.2 and the padding of
  section 5.1.1, stated on their own.
\<close>

definition ROTR :: "nat \<Rightarrow> u32 \<Rightarrow> u32" where
  "ROTR n x = drop_bit n x OR push_bit (32 - n) x"

definition small_sigma0 :: "u32 \<Rightarrow> u32" where "small_sigma0 x = ROTR 7 x XOR ROTR 18 x XOR drop_bit 3 x"
definition small_sigma1 :: "u32 \<Rightarrow> u32" where "small_sigma1 x = ROTR 17 x XOR ROTR 19 x XOR drop_bit 10 x"
definition big_sigma0 :: "u32 \<Rightarrow> u32" where "big_sigma0 x = ROTR 2 x XOR ROTR 13 x XOR ROTR 22 x"
definition big_sigma1 :: "u32 \<Rightarrow> u32" where "big_sigma1 x = ROTR 6 x XOR ROTR 11 x XOR ROTR 25 x"
definition Ch :: "u32 \<Rightarrow> u32 \<Rightarrow> u32 \<Rightarrow> u32" where "Ch x y z = (x AND y) XOR (NOT x AND z)"
definition Maj :: "u32 \<Rightarrow> u32 \<Rightarrow> u32 \<Rightarrow> u32" where "Maj x y z = (x AND y) XOR (x AND z) XOR (y AND z)"

fun fips_W :: "u8 list \<Rightarrow> nat \<Rightarrow> u32" where
  "fips_W M t =
     (if t < 16 then from_be_bytes (M ! (4 * t)) (M ! (4 * t + 1)) (M ! (4 * t + 2)) (M ! (4 * t + 3))
      else small_sigma1 (fips_W M (t - 2)) + fips_W M (t - 7) + small_sigma0 (fips_W M (t - 15)) + fips_W M (t - 16))"

declare fips_W.simps [simp del]

fun fips_rounds :: "sha_tables \<Rightarrow> u8 list \<Rightarrow> nat \<Rightarrow> working \<Rightarrow> working" where
  "fips_rounds T M 0 v = v"
| "fips_rounds T M (Suc t) v =
     (case fips_rounds T M t v of (a, b, c, d, e, f, g, h) \<Rightarrow>
        let T1 = h + big_sigma1 e + Ch e f g + st_K T ! t + fips_W M t;
            T2 = big_sigma0 a + Maj a b c
        in (T1 + T2, a, b, c, d + T1, e, f, g))"

definition fips_block :: "sha_tables \<Rightarrow> u8 list \<Rightarrow> u32 list \<Rightarrow> u32 list" where
  "fips_block T M H = map2 (+) (list_of_working (fips_rounds T M 64 (working_of H))) H"

definition fips_pad :: "u8 list \<Rightarrow> u8 list" where
  "fips_pad m = m @ [0x80] @ replicate ((119 - length m mod 64) mod 64) 0 @ be_bytes64 (of_nat (8 * length m))"

function blocks64 :: "u8 list \<Rightarrow> u8 list list" where
  "blocks64 xs = (if length xs < 64 then [] else take 64 xs # blocks64 (drop 64 xs))"
  by pat_completeness auto
termination by (relation "measure length") auto

declare blocks64.simps [simp del]

definition fips_sha256 :: "sha_tables \<Rightarrow> u8 list \<Rightarrow> u8 list" where
  "fips_sha256 T m = concat (map be_bytes32 (fold (fips_block T) (blocks64 (fips_pad m)) (st_H0 T)))"

section \<open>The compression function\<close>

lemma word_rotr_ROTR: "0 < n \<Longrightarrow> n < 32 \<Longrightarrow> word_rotr n x = ROTR n x"
proof (rule bit_word_eqI)
  fix k assume n: "0 < n" "n < 32" and k: "k < LENGTH(32)"
  show "bit (word_rotr n x) k = bit (ROTR n x) k"
  proof (cases "k + n < 32")
    case True
    with n k show ?thesis by (auto simp: ROTR_def bit_simps ac_simps)
  next
    case False
    with n k have m: "(k + n) mod 32 = k + n - 32" by (simp add: mod_if)
    have "\<not> bit x (n + k)" using False bit_imp_le_length [of x "n + k"] by auto
    with n k False m show ?thesis by (auto simp: ROTR_def bit_simps ac_simps)
  qed
qed

lemma length_schedule_step [simp]: "length (schedule_step i w) = length w"
  by (simp add: schedule_step_def Let_def)

lemma schedule_prefix:
  assumes "n \<le> 48"
  shows "length (fold schedule_step [16..<16 + n] (schedule_words block)) = 64
    \<and> (\<forall>j < 16 + n. fold schedule_step [16..<16 + n] (schedule_words block) ! j = fips_W block j)"
  using assms
proof (induction n)
  case 0
  show ?case by (auto simp: schedule_words_def nth_append fips_W.simps [of block])
next
  case (Suc n)
  define w where "w = fold schedule_step [16..<16 + n] (schedule_words block)"
  have w: "length w = 64" "\<And>j. j < 16 + n \<Longrightarrow> w ! j = fips_W block j" using Suc by (auto simp: w_def)
  have "[16..<16 + Suc n] = [16..<16 + n] @ [16 + n]" by (simp only: add_Suc_right upt_Suc) simp
  then have step: "fold schedule_step [16..<16 + Suc n] (schedule_words block) = schedule_step (16 + n) w"
    by (simp only: w_def fold_append fold_simps comp_apply)
  have new: "schedule_step (16 + n) w ! (16 + n) = fips_W block (16 + n)"
    using w Suc.prems unfolding fips_W.simps [of block "16 + n"]
    by (simp add: schedule_step_def Let_def small_sigma0_def small_sigma1_def word_rotr_ROTR ac_simps)
  have "schedule_step (16 + n) w ! j = fips_W block j" if "j < 16 + Suc n" for j
  proof (cases "j = 16 + n")
    case False
    with that w show ?thesis by (simp add: schedule_step_def Let_def)
  qed (use new in simp)
  with w(1) show ?case unfolding step by simp
qed

lemma rounds_fips:
  assumes "n \<le> 64" and "\<And>j. j < 64 \<Longrightarrow> w ! j = fips_W M j"
  shows "fold (compress_round T w) [0..<n] v = fips_rounds T M n v"
  using assms(1)
proof (induction n)
  case (Suc n)
  then show ?case using assms(2) [of n]
    by (simp add: compress_round_def big_sigma0_def big_sigma1_def Ch_def Maj_def word_rotr_ROTR Let_def
        ac_simps split: prod.splits)
qed simp

lemma map2_add_commute: "map2 (+) xs ys = map2 (+) ys (xs :: u32 list)"
  by (induction xs ys rule: list_induct2') (simp_all add: add.commute)

lemma compress_fips: "compress T H M = fips_block T M H"
proof -
  have "\<And>j. j < 64 \<Longrightarrow> fold schedule_step [16..<64] (schedule_words M) ! j = fips_W M j"
    using schedule_prefix [of 48 M] by simp
  from rounds_fips [where n = 64, OF _ this] show ?thesis
    by (simp add: compress_def fips_block_def Let_def map2_add_commute)
qed

section \<open>The stream\<close>

lemma blocks64_short: "length xs < 64 \<Longrightarrow> blocks64 xs = []"
  by (subst blocks64.simps) simp

lemma blocks64_append: "length b = 64 \<Longrightarrow> blocks64 (b @ xs) = b # blocks64 xs"
  by (subst blocks64.simps) simp

lemma blocks64_snoc: "length xs mod 64 = 0 \<Longrightarrow> length b = 64 \<Longrightarrow> blocks64 (xs @ b) = blocks64 xs @ [b]"
proof (induction xs rule: blocks64.induct)
  case (1 xs)
  show ?case
  proof (cases "length xs < 64")
    case True
    with 1(2) have "xs = []" by simp
    with 1(3) show ?thesis using blocks64_append [of b "[]"] by (simp add: blocks64_short)
  next
    case False
    have "length (drop 64 xs) mod 64 = 0" using 1(2) False by (simp add: le_mod_geq)
    from 1(1) [OF False this 1(3)] False show ?thesis
      by (subst (1 2) blocks64.simps) simp
  qed
qed

text \<open>
  The state after a message: the whole blocks are folded into \<open>state\<close>, the rest is at the
  front of \<open>block\<close>.
\<close>

definition absorbed :: "sha_tables \<Rightarrow> u8 list \<Rightarrow> sha256 \<Rightarrow> bool" where
  "absorbed T m h \<longleftrightarrow> sh_used h < 64 \<and> length (sh_block h) = 64 \<and> sh_used h \<le> length m
     \<and> (length m - sh_used h) mod 64 = 0
     \<and> take (sh_used h) (sh_block h) = drop (length m - sh_used h) m
     \<and> sh_state h = fold (fips_block T) (blocks64 (take (length m - sh_used h) m)) (st_H0 T)"

lemma absorbed_new: "absorbed T [] (sha_new T)"
  by (simp add: absorbed_def sha_new_def blocks64_short)

lemma update_loop_absorbs:
  assumes "absorbed T m h"
  shows "\<exists>h'. update_loop T h data = Some h' \<and> absorbed T (m @ data) h' \<and> sh_bytes h' = sh_bytes h"
  using assms
proof (induction "length data" arbitrary: m h data rule: less_induct)
  case less
  show ?case
  proof (cases "data = []")
    case True
    with less.prems show ?thesis by (subst update_loop.simps) simp
  next
    case False
    define n where "n = min (64 - sh_used h) (length data)"
    define block where "block = take (sh_used h) (sh_block h) @ take n data @ drop (sh_used h + n) (sh_block h)"
    define h1 where "h1 = (if sh_used h + n = 64
        then h\<lparr>sh_state := compress T (sh_state h) block, sh_block := block, sh_used := 0\<rparr>
        else h\<lparr>sh_block := block, sh_used := sh_used h + n\<rparr>)"
    have a: "sh_used h < 64" "length (sh_block h) = 64" "sh_used h \<le> length m" "(length m - sh_used h) mod 64 = 0"
      "take (sh_used h) (sh_block h) = drop (length m - sh_used h) m"
      "sh_state h = fold (fips_block T) (blocks64 (take (length m - sh_used h) m)) (st_H0 T)"
      using less.prems by (auto simp: absorbed_def)
    have n: "0 < n" "n \<le> length data" "sh_used h + n \<le> 64" using a(1) False by (auto simp: n_def)
    have step: "update_loop T h data = update_loop T h1 (drop n data)"
      using False by (subst update_loop.simps) (simp add: n_def [symmetric] block_def h1_def Let_def)
    have len: "length block = 64" using a(2) n by (simp add: block_def)
    have front: "take (sh_used h + n) block = drop (length m - sh_used h) (m @ take n data)"
      using a n by (simp add: block_def)
    have "absorbed T (m @ take n data) h1"
    proof (cases "sh_used h + n = 64")
      case True
      then have b: "block = drop (length m - sh_used h) (m @ take n data)" using front len by simp
      have "m @ take n data = take (length m - sh_used h) m @ block" using b a(3) by simp
      with blocks64_snoc [of "take (length m - sh_used h) m" block] a len
      have "blocks64 (m @ take n data) = blocks64 (take (length m - sh_used h) m) @ [block]" by simp
      moreover have "(length m + n) mod 64 = 0"
      proof -
        have "length m + n = (length m - sh_used h) + 64" using True a(3) by simp
        then show ?thesis using a(4) by simp
      qed
      ultimately show ?thesis using True len a n by (simp add: absorbed_def h1_def compress_fips)
    next
      case False
      then show ?thesis using front len a n by (simp add: absorbed_def h1_def)
    qed
    moreover have "length (drop n data) < length data" using n False by simp
    ultimately obtain h' where "update_loop T h1 (drop n data) = Some h'"
      "absorbed T ((m @ take n data) @ drop n data) h'" "sh_bytes h' = sh_bytes h1"
      using less.hyps by blast
    then show ?thesis unfolding step by (simp add: h1_def split: if_splits)
  qed
qed

lemma update_all_absorbs:
  assumes "absorbed T m h" and "sh_bytes h = of_nat (length m)"
  shows "\<exists>h'. update_all T h cs = Some h' \<and> absorbed T (m @ concat cs) h' \<and> sh_bytes h' = of_nat (length (m @ concat cs))"
  using assms
proof (induction cs arbitrary: m h)
  case (Cons c cs)
  have "absorbed T m (h\<lparr>sh_bytes := x\<rparr>)" for x using Cons.prems(1) by (simp add: absorbed_def)
  with update_loop_absorbs [of T m "h\<lparr>sh_bytes := sh_bytes h + of_nat (length c)\<rparr>" c] obtain h1 where h1: "sha_update T h c = Some h1" "absorbed T (m @ c) h1"
    "sh_bytes h1 = of_nat (length (m @ c))" by (auto simp: sha_update_def Cons.prems(2))
  from Cons.IH [OF h1(2,3)] h1(1) show ?case by simp
qed simp

lemma length_be_bytes64 [simp]: "length (be_bytes64 x) = 8"
  by (simp add: be_bytes64_def)

lemma finish_absorbed:
  assumes "absorbed T m h" and "sh_bytes h = of_nat (length m)"
  shows "sha_finish T h = fips_sha256 T m"
proof -
  define u where "u = sh_used h"
  define q where "q = take (length m - u) m"
  define r where "r = drop (length m - u) m"
  have a: "u < 64" "take u (sh_block h) = r" "sh_state h = fold (fips_block T) (blocks64 q) (st_H0 T)" "length q mod 64 = 0"
    and u: "u \<le> length m" using assms(1) by (auto simp: absorbed_def u_def q_def r_def)
  have m: "m = q @ r" and r: "length r = u" using u by (simp_all add: q_def r_def)
  have "length m mod 64 = u" using a(1,4) m r by (simp add: mod_add_left_eq [of "length q", symmetric])
  then have pad: "fips_pad m = q @ (r @ [0x80] @ replicate ((119 - u) mod 64) 0 @ be_bytes64 (of_nat (8 * length m)))"
    by (simp add: fips_pad_def m)
  have bits: "sh_bytes h * 8 = of_nat (8 * length m)" by (simp add: assms(2) mult.commute)
  show ?thesis
  proof (cases "56 \<le> u")
    case False
    define b where "b = r @ [0x80] @ replicate (55 - u) 0 @ be_bytes64 (of_nat (8 * length m))"
    have z: "(119 - u) mod 64 = 55 - u"
    proof -
      have "119 - u = (55 - u) + 64" using False by simp
      then have "(119 - u) mod 64 = (55 - u) mod 64" by (simp only: mod_add_self2)
      then show ?thesis by simp
    qed
    have "blocks64 (fips_pad m) = blocks64 q @ [b]"
      unfolding pad z b_def [symmetric] by (rule blocks64_snoc [OF a(4)]) (use False r in \<open>simp add: b_def\<close>)
    moreover have "take 56 (r @ 0x80 # replicate (63 - u) 0) = r @ [0x80] @ replicate (55 - u) 0"
      using False r by (simp add: take_Cons')
    ultimately show ?thesis using False a bits
      by (simp add: sha_finish_def Let_def u_def [symmetric] fips_sha256_def compress_fips b_def)
  next
    case True
    define b1 where "b1 = r @ [0x80] @ replicate (63 - u) (0 :: u8)"
    define b2 where "b2 = replicate 56 0 @ be_bytes64 (of_nat (8 * length m))"
    have "(119 - u) mod 64 = 119 - u" using True a(1) by simp
    moreover have "replicate (119 - u) (0 :: u8) = replicate (63 - u) 0 @ replicate 56 0"
      using a(1) by (simp add: replicate_add [symmetric])
    ultimately have p: "fips_pad m = (q @ b1) @ b2" by (simp add: pad b1_def b2_def)
    have l: "length b1 = 64" "length b2 = 64" using a(1) r by (simp_all add: b1_def b2_def)
    have "blocks64 (fips_pad m) = blocks64 q @ [b1] @ [b2]"
      unfolding p using blocks64_snoc [of "q @ b1" b2] blocks64_snoc [OF a(4) l(1)] a(4) l by simp
    then show ?thesis using True a bits
      by (simp add: sha_finish_def Let_def u_def [symmetric] fips_sha256_def compress_fips b1_def b2_def)
  qed
qed

section \<open>The property\<close>


end
