(* ===== verification/Simulation.thy ===== *)
theory Simulation
  imports Kumo_Prelude
begin

text \<open>
  Runs of a component that answers one request at a time, and the contract of a functional
  simulation: a relation between the states of the component and of its specification under
  which one request gets the same answer and related states. Then every run does.
\<close>

fun run_answers :: "('s \<Rightarrow> 'o \<Rightarrow> 'r \<times> 's) \<Rightarrow> 's \<Rightarrow> 'o list \<Rightarrow> 'r list \<times> 's" where
  "run_answers exec s [] = ([], s)"
| "run_answers exec s (x # xs) =
     (case exec s x of (r, s') \<Rightarrow> case run_answers exec s' xs of (rs, s'') \<Rightarrow> (r # rs, s''))"

locale simulation =
  fixes exec :: "'s \<Rightarrow> 'o \<Rightarrow> 'r \<times> 's"
    and spec :: "'t \<Rightarrow> 'o \<Rightarrow> 'r \<times> 't"
    and related :: "'s \<Rightarrow> 't \<Rightarrow> bool"
  assumes step: "related s t \<Longrightarrow> exec s x = (r, s') \<Longrightarrow> \<exists>t'. spec t x = (r, t') \<and> related s' t'"
begin

lemma run_related:
  "related s t \<Longrightarrow> \<exists>rs s' t'. run_answers exec s xs = (rs, s') \<and> run_answers spec t xs = (rs, t')
     \<and> related s' t'"
proof (induction xs arbitrary: s t)
  case (Cons x xs)
  obtain r s1 where e: "exec s x = (r, s1)" by fastforce
  from step [OF Cons.prems e] obtain t1 where t1: "spec t x = (r, t1)" "related s1 t1" by blast
  from Cons.IH [OF t1(2)] obtain rs s' t' where
    "run_answers exec s1 xs = (rs, s')" "run_answers spec t1 xs = (rs, t')" "related s' t'" by blast
  with e t1 show ?case by simp
qed simp

end

end
