(* ===== verification/Hal_Asid.thy ===== *)
theory Hal_Asid
  imports Simulation
begin

text \<open>
  The address-space identifiers of the AArch64 layer (\<open>hal/kumo-hal-aarch64/src/asid.rs\<close>): the
  first-fit allocator over a bitmap of live identifiers, and the packing of an identifier into
  a translation-table base register. Identifier 0 belongs to the kernel.

  The allocator is shown to answer, over every sequence of calls, as a set of live numbers.
\<close>

definition MAX_ASID_BITS :: u8 where "MAX_ASID_BITS = 16"
definition BITS_PER_WORD :: nat where "BITS_PER_WORD = 64"
definition BITMAP_WORDS :: nat where "BITMAP_WORDS = 1024"
definition TTBR0_ASID_SHIFT :: nat where "TTBR0_ASID_SHIFT = 48"
definition TTBR0_ADDRESS_MASK :: u64 where "TTBR0_ADDRESS_MASK = push_bit TTBR0_ASID_SHIFT 1 - 1"
definition TTBR0_CNP :: u64 where "TTBR0_CNP = 1"

type_synonym asid = u16

definition asid_is_kernel :: "asid \<Rightarrow> bool" where
  "asid_is_kernel a = (a = 0)"

datatype alloc_outcome = Allocated asid u32 | Exhausted

datatype asid_error = KernelReserved | NotLive

record asid_allocator =
  aa_width_bits :: u8
  aa_generation :: u32
  aa_live_count :: u32
  aa_bitmap :: "u64 list"

definition asid_allocator_new :: "u8 \<Rightarrow> asid_allocator option" where
  "asid_allocator_new width_bits =
     (if width_bits = 0 \<or> MAX_ASID_BITS < width_bits then None
      else Some \<lparr>aa_width_bits = width_bits, aa_generation = 0, aa_live_count = 0,
                 aa_bitmap = replicate BITMAP_WORDS 0\<rparr>)"

definition asid_capacity :: "asid_allocator \<Rightarrow> u32" where
  "asid_capacity a = push_bit (unat (aa_width_bits a)) 1 - 1"

definition max_asid :: "asid_allocator \<Rightarrow> u32" where
  "max_asid a = push_bit (unat (aa_width_bits a)) 1 - 1"

definition words_needed :: "asid_allocator \<Rightarrow> nat" where
  "words_needed a = (2 ^ unat (aa_width_bits a) + BITS_PER_WORD - 1) div BITS_PER_WORD"

definition word_mask :: "asid_allocator \<Rightarrow> nat \<Rightarrow> u64" where
  "word_mask a word =
     (let first = word * BITS_PER_WORD; values = 2 ^ unat (aa_width_bits a) in
      if values \<le> first then 0
      else
        let bits = min BITS_PER_WORD (values - first);
            m = (if bits = BITS_PER_WORD then - 1 else push_bit bits 1 - 1)
        in if word = 0 then m AND NOT 1 else m)"

fun asid_scan :: "asid_allocator \<Rightarrow> nat list \<Rightarrow> alloc_outcome \<times> asid_allocator" where
  "asid_scan a [] = (Exhausted, a)"
| "asid_scan a (word # words) =
     (let free = word_mask a word AND NOT (aa_bitmap a ! word) in
      if free \<noteq> 0 then
        let b = trailing_zeros free in
        (Allocated (of_nat (word * BITS_PER_WORD + b)) (aa_generation a),
         a\<lparr>aa_bitmap := (aa_bitmap a)[word := aa_bitmap a ! word OR push_bit b 1],
           aa_live_count := aa_live_count a + 1\<rparr>)
      else asid_scan a words)"

definition asid_allocate :: "asid_allocator \<Rightarrow> alloc_outcome \<times> asid_allocator" where
  "asid_allocate a = asid_scan a [0..<words_needed a]"

definition asid_release :: "asid_allocator \<Rightarrow> asid \<Rightarrow> (asid_error + unit) \<times> asid_allocator" where
  "asid_release a asid =
     (let raw = unat asid in
      if raw = 0 then (Inl KernelReserved, a)
      else if unat (max_asid a) < raw then (Inl NotLive, a)
      else
        let word = raw div BITS_PER_WORD; m = push_bit (raw mod BITS_PER_WORD) 1 in
        if aa_bitmap a ! word AND m = 0 then (Inl NotLive, a)
        else (Inr (), a\<lparr>aa_bitmap := (aa_bitmap a)[word := aa_bitmap a ! word AND NOT m],
                        aa_live_count := aa_live_count a - 1\<rparr>))"

definition asid_rollover :: "asid_allocator \<Rightarrow> u32 \<times> asid_allocator" where
  "asid_rollover a =
     (let g = aa_generation a + 1 in
      (g, a\<lparr>aa_generation := g,
            aa_bitmap := map (\<lambda>word. aa_bitmap a ! word AND word_mask a word) [0..<BITMAP_WORDS]\<rparr>))"

definition decode_asid_bits :: "u64 \<Rightarrow> u8 option" where
  "decode_asid_bits mmfr0 =
     (let field = drop_bit 4 mmfr0 AND 0xf in
      if field = 0 then Some 8 else if field = 2 then Some 16 else None)"

definition encode_ttbr0 :: "u64 \<Rightarrow> asid \<Rightarrow> u64 option" where
  "encode_ttbr0 root asid =
     (if root AND NOT TTBR0_ADDRESS_MASK \<noteq> 0 \<or> root AND TTBR0_CNP \<noteq> 0 then None
      else Some (push_bit TTBR0_ASID_SHIFT (ucast asid) OR root))"

definition asid_of_ttbr0 :: "u64 \<Rightarrow> asid" where
  "asid_of_ttbr0 value = ucast (drop_bit TTBR0_ASID_SHIFT value)"

section \<open>Address spaces of the processor\<close>

text \<open>
  The allocator of the boot processor and its users in \<open>lib.rs\<close> (module \<open>mmu\<close>). The cell is empty
  until the identifier width is known. The translations the processor is told to forget are
  returned in order, next to the result.
\<close>

datatype tlb_invalidate = FlushAllLocal | InvalidateAsid asid

definition invalidate_user_aspace :: "u64 \<Rightarrow> tlb_invalidate" where
  "invalidate_user_aspace root =
     (let asid = asid_of_ttbr0 root in if asid_is_kernel asid then FlushAllLocal else InvalidateAsid asid)"

definition allocate_user_asid ::
  "asid_allocator option \<Rightarrow> asid option \<times> asid_allocator option \<times> tlb_invalidate list" where
  "allocate_user_asid cell =
     (case cell of
        None \<Rightarrow> (None, None, [])
      | Some a \<Rightarrow>
          (case asid_allocate a of
             (Allocated asid _, a1) \<Rightarrow> (Some asid, Some a1, [])
           | (Exhausted, a1) \<Rightarrow>
               (case asid_allocate (snd (asid_rollover a1)) of
                  (Allocated asid _, a2) \<Rightarrow> (Some asid, Some a2, [FlushAllLocal])
                | (Exhausted, a2) \<Rightarrow> (None, Some a2, [FlushAllLocal]))))"

definition release_asid ::
  "asid_allocator option \<Rightarrow> asid \<Rightarrow> bool option \<times> asid_allocator option \<times> tlb_invalidate list" where
  "release_asid cell asid =
     (case cell of
        None \<Rightarrow> (None, None, [InvalidateAsid asid])
      | Some a \<Rightarrow>
          (case asid_release a asid of
             (r, a1) \<Rightarrow> (Some (case r of Inl _ \<Rightarrow> False | Inr _ \<Rightarrow> True), Some a1, [InvalidateAsid asid])))"

definition encode_user_root ::
  "asid_allocator option \<Rightarrow> u64 \<Rightarrow> asid \<Rightarrow> u64 option \<times> asid_allocator option \<times> tlb_invalidate list" where
  "encode_user_root cell root asid =
     (case encode_ttbr0 root asid of
        Some value \<Rightarrow> (Some value, cell, [])
      | None \<Rightarrow> (None, snd (release_asid cell asid)))"

definition retire_user_aspace ::
  "asid_allocator option \<Rightarrow> u64 \<Rightarrow> bool \<times> asid_allocator option \<times> tlb_invalidate list" where
  "retire_user_aspace cell root =
     (let asid = asid_of_ttbr0 root in
      if asid_is_kernel asid then (True, cell, [])
      else case release_asid cell asid of
             (r, cell', tlb) \<Rightarrow> ((case r of None \<Rightarrow> False | Some b \<Rightarrow> b), cell', tlb))"

section \<open>The contract: a pool of numbers\<close>

datatype asid_op = OpAllocate | OpRelease asid | OpRollover

datatype asid_answer = AnsAllocate alloc_outcome | AnsRelease "asid_error + unit" | AnsRollover u32

fun asid_exec :: "asid_allocator \<Rightarrow> asid_op \<Rightarrow> asid_answer \<times> asid_allocator" where
  "asid_exec a OpAllocate = apfst AnsAllocate (asid_allocate a)"
| "asid_exec a (OpRelease asid) = apfst AnsRelease (asid_release a asid)"
| "asid_exec a OpRollover = apfst AnsRollover (asid_rollover a)"

text \<open>The pool of width \<open>w\<close>: the live numbers and the generation.\<close>

fun pool_exec :: "nat \<Rightarrow> nat set \<times> u32 \<Rightarrow> asid_op \<Rightarrow> asid_answer \<times> nat set \<times> u32" where
  "pool_exec w (live, g) OpAllocate =
     (if {1..<2 ^ w} \<subseteq> live then (AnsAllocate Exhausted, live, g)
      else let n = Min ({1..<2 ^ w} - live) in (AnsAllocate (Allocated (of_nat n) g), insert n live, g))"
| "pool_exec w (live, g) (OpRelease asid) =
     (if asid = 0 then (AnsRelease (Inl KernelReserved), live, g)
      else if unat asid \<notin> live then (AnsRelease (Inl NotLive), live, g)
      else (AnsRelease (Inr ()), live - {unat asid}, g))"
| "pool_exec w (live, g) OpRollover = (AnsRollover (g + 1), live, g + 1)"

section \<open>Lemmas\<close>

definition live_asids :: "asid_allocator \<Rightarrow> nat set" where
  "live_asids a = {n. n < 65536 \<and> bit (aa_bitmap a ! (n div 64)) (n mod 64)}"

definition asid_inv :: "asid_allocator \<Rightarrow> bool" where
  "asid_inv a \<longleftrightarrow>
     length (aa_bitmap a) = 1024 \<and> 0 < unat (aa_width_bits a) \<and> unat (aa_width_bits a) \<le> 16
     \<and> live_asids a \<subseteq> {1..<2 ^ unat (aa_width_bits a)}
     \<and> unat (aa_live_count a) = card (live_asids a)"

lemmas asid_consts = BITS_PER_WORD_def BITMAP_WORDS_def

lemma slot_eq: "(n = word * 64 + b) \<longleftrightarrow> n div 64 = word \<and> n mod 64 = b" if "b < 64" for n word b :: nat
  using that by auto

lemma bit_word_mask:
  assumes "b < 64"
  shows "bit (word_mask a word) b \<longleftrightarrow> word * 64 + b \<in> {1..<2 ^ unat (aa_width_bits a)}"
proof -
  have ones: "bit (- 1 :: u64) b" using assms by (simp add: bit_simps)
  have m: "bit (2 ^ k - 1 :: u64) b \<longleftrightarrow> b < k" for k
    using assms by (simp only: flip: mask_eq_exp_minus_1) (simp add: bit_simps)
  have one: "bit (1 :: u64) b \<longleftrightarrow> b = 0" by (auto simp: bit_simps)
  show ?thesis
    using assms ones by (auto simp: word_mask_def Let_def asid_consts m bit_simps one min_def)
qed

lemma live_update:
  assumes "length (aa_bitmap a) = 1024" and "word < 1024" and "b < 64"
  shows "live_asids (a\<lparr>aa_bitmap := (aa_bitmap a)[word := aa_bitmap a ! word OR push_bit b 1]\<rparr>)
      = insert (word * 64 + b) (live_asids a)"
    and "live_asids (a\<lparr>aa_bitmap := (aa_bitmap a)[word := aa_bitmap a ! word AND NOT (push_bit b 1)]\<rparr>)
      = live_asids a - {word * 64 + b}"
  using assms
  by (auto simp: live_asids_def nth_list_update bit_set_exp bit_clear_exp slot_eq split: if_splits)

lemma live_more [simp]:
  "live_asids (a\<lparr>aa_live_count := n\<rparr>) = live_asids a"
  "live_asids (a\<lparr>aa_generation := g\<rparr>) = live_asids a"
  by (simp_all add: live_asids_def)

definition free_word :: "asid_allocator \<Rightarrow> nat \<Rightarrow> u64" where
  "free_word a word = word_mask a word AND NOT (aa_bitmap a ! word)"

definition free_asids :: "asid_allocator \<Rightarrow> nat set" where
  "free_asids a = {1..<2 ^ unat (aa_width_bits a)} - live_asids a"

lemma width_bound: "asid_inv a \<Longrightarrow> (2 :: nat) ^ unat (aa_width_bits a) \<le> 65536"
  using power_increasing [of "unat (aa_width_bits a)" 16 "2 :: nat"] by (simp add: asid_inv_def)

lemma free_asids_iff:
  assumes "asid_inv a" and "b < 64"
  shows "word * 64 + b \<in> free_asids a \<longleftrightarrow> bit (free_word a word) b"
  using assms(2) width_bound [OF assms(1)]
  by (auto simp: free_word_def free_asids_def live_asids_def bit_word_mask bit_simps)

text \<open>The scan takes the first word with a free number, and its lowest free bit.\<close>

definition claim_in :: "asid_allocator \<Rightarrow> nat \<Rightarrow> alloc_outcome \<times> asid_allocator" where
  "claim_in a word =
     (let b = trailing_zeros (free_word a word) in
      (Allocated (of_nat (word * 64 + b)) (aa_generation a),
       a\<lparr>aa_bitmap := (aa_bitmap a)[word := aa_bitmap a ! word OR push_bit b 1],
         aa_live_count := aa_live_count a + 1\<rparr>))"

lemma asid_scan_find:
  "asid_scan a ws =
     (case find (\<lambda>w. free_word a w \<noteq> 0) ws of None \<Rightarrow> (Exhausted, a) | Some word \<Rightarrow> claim_in a word)"
  by (induction ws) (simp_all add: free_word_def claim_in_def Let_def asid_consts)

lemma claim_spec:
  assumes inv: "asid_inv a" and nz: "free_word a word \<noteq> 0" and below: "\<And>w. w < word \<Longrightarrow> free_word a w = 0"
  defines "m \<equiv> Min (free_asids a)"
  shows "\<exists>a'. claim_in a word = (Allocated (of_nat m) (aa_generation a), a')
    \<and> m \<in> free_asids a \<and> live_asids a' = insert m (live_asids a)
    \<and> aa_generation a' = aa_generation a \<and> aa_width_bits a' = aa_width_bits a
    \<and> aa_live_count a' = aa_live_count a + 1 \<and> length (aa_bitmap a') = length (aa_bitmap a)"
proof -
  define b where "b = trailing_zeros (free_word a word)"
  note tz = trailing_zeros_bit [OF nz, folded b_def]
  have b: "b < 64" using tz(2) by simp
  have mem: "word * 64 + b \<in> free_asids a" using free_asids_iff [OF inv b] tz(1) by simp
  have "word * 64 + b \<le> n" if n: "n \<in> free_asids a" for n
  proof -
    have bit: "bit (free_word a (n div 64)) (n mod 64)"
      using free_asids_iff [OF inv, of "n mod 64" "n div 64"] n by simp
    then have "word \<le> n div 64" using below [of "n div 64"] by (cases "n div 64 < word") auto
    moreover have "b \<le> n mod 64" if "n div 64 = word"
      using bit tz(3) that by (meson not_le)
    ultimately show ?thesis
      using b div_mult_mod_eq [of n 64] by (cases "n div 64 = word") linarith+
  qed
  with mem have m: "m = word * 64 + b" unfolding m_def
    by (intro Min_eqI) (auto simp: free_asids_def)
  have "word * 64 + b < 65536" using mem width_bound [OF inv] by (auto simp: free_asids_def)
  then have "word < 1024" by linarith
  with live_update(1) [of a word b] b inv
  have "live_asids (snd (claim_in a word)) = insert m (live_asids a)"
    by (simp add: claim_in_def Let_def asid_inv_def m b_def [symmetric] live_asids_def)
  with mem show ?thesis
    by (intro exI [of _ "snd (claim_in a word)"]) (simp add: claim_in_def Let_def m b_def [symmetric])
qed

lemma asid_allocate_spec:
  assumes "asid_inv a"
  shows "if free_asids a = {} then asid_allocate a = (Exhausted, a)
    else \<exists>a'. asid_allocate a = (Allocated (of_nat (Min (free_asids a))) (aa_generation a), a')
      \<and> Min (free_asids a) \<in> free_asids a \<and> live_asids a' = insert (Min (free_asids a)) (live_asids a)
      \<and> aa_generation a' = aa_generation a \<and> aa_width_bits a' = aa_width_bits a
      \<and> aa_live_count a' = aa_live_count a + 1 \<and> length (aa_bitmap a') = length (aa_bitmap a)"
proof (cases "find (\<lambda>w. free_word a w \<noteq> 0) [0..<words_needed a]")
  case None
  have "n \<notin> free_asids a" for n
  proof
    assume n: "n \<in> free_asids a"
    then have "n div 64 < words_needed a"
      by (simp add: free_asids_def words_needed_def asid_consts) linarith
    with None have "free_word a (n div 64) = 0" by (simp add: find_None_iff)
    with n show False using free_asids_iff [OF assms, of "n mod 64" "n div 64"] by simp
  qed
  with None show ?thesis by (auto simp: asid_allocate_def asid_scan_find)
next
  case (Some word)
  then have "free_word a word \<noteq> 0" and "\<And>w. w < word \<Longrightarrow> free_word a w = 0"
    by (auto simp: find_Some_iff)
  from claim_spec [OF assms this] Some show ?thesis
    by (auto simp: asid_allocate_def asid_scan_find)
qed

lemma asid_release_spec:
  assumes inv: "asid_inv a"
  shows "if asid = 0 then asid_release a asid = (Inl KernelReserved, a)
    else if unat asid \<notin> live_asids a then asid_release a asid = (Inl NotLive, a)
    else \<exists>a'. asid_release a asid = (Inr (), a') \<and> live_asids a' = live_asids a - {unat asid}
      \<and> aa_generation a' = aa_generation a \<and> aa_width_bits a' = aa_width_bits a
      \<and> aa_live_count a' = aa_live_count a - 1 \<and> length (aa_bitmap a') = length (aa_bitmap a)"
proof -
  let ?n = "unat asid" and ?w = "unat (aa_width_bits a)"
  have n: "?n < 65536" using unat_lt_pow [of asid] by simp
  have w: "?w \<le> 16" using inv by (simp add: asid_inv_def)
  have top: "unat (max_asid a) = 2 ^ ?w - 1"
    using w by (simp only: max_asid_def push_bit_of_1 flip: mask_eq_exp_minus_1 take_bit_minus_one_eq_mask)
      (simp only: unsigned_take_bit_eq unsigned_minus_1_eq_mask take_bit_of_mask, simp add: mask_eq_exp_minus_1)
  have bit: "aa_bitmap a ! (?n div 64) AND push_bit (?n mod 64) 1 = 0 \<longleftrightarrow> ?n \<notin> live_asids a"
    using n by (auto simp: live_asids_def and_exp_eq_0_iff_not_bit push_bit_of_1)
  have live: "\<not> unat (max_asid a) < ?n" if "?n \<in> live_asids a"
    using that inv top by (auto simp: asid_inv_def)
  have upd: "live_asids (a\<lparr>aa_bitmap := (aa_bitmap a)[?n div 64 := aa_bitmap a ! (?n div 64) AND NOT (push_bit (?n mod 64) 1)]\<rparr>)
      = live_asids a - {?n}"
    using live_update(2) [of a "?n div 64" "?n mod 64"] n inv by (simp add: asid_inv_def)
  show ?thesis
    using bit live upd by (auto simp: asid_release_def Let_def asid_consts unat_eq_zero live_asids_def)
qed

lemma asid_rollover_spec:
  assumes "asid_inv a"
  shows "\<exists>a'. asid_rollover a = (aa_generation a + 1, a') \<and> live_asids a' = live_asids a
      \<and> aa_generation a' = aa_generation a + 1 \<and> aa_width_bits a' = aa_width_bits a
      \<and> aa_live_count a' = aa_live_count a \<and> length (aa_bitmap a') = 1024"
proof -
  have "bit (word_mask a (n div 64)) (n mod 64)" if "n \<in> live_asids a" for n
    using that assms by (auto simp: bit_word_mask asid_inv_def)
  then have "live_asids (snd (asid_rollover a)) = live_asids a"
    by (auto simp: asid_rollover_def Let_def live_asids_def asid_consts bit_simps)
  then show ?thesis by (simp add: asid_rollover_def Let_def asid_consts)
qed

lemma asid_inv_step:
  assumes "asid_inv a" and "aa_width_bits a' = aa_width_bits a" and "length (aa_bitmap a') = 1024"
    and "live_asids a' \<subseteq> {1..<2 ^ unat (aa_width_bits a)}"
    and "aa_live_count a' = of_nat (card (live_asids a'))"
  shows "asid_inv a'"
proof -
  have "card (live_asids a') \<le> card {1..<2 ^ unat (aa_width_bits a) :: nat}"
    using assms(4) by (intro card_mono) auto
  then have "card (live_asids a') < 65536" using width_bound [OF assms(1)] by simp
  with assms show ?thesis by (simp add: asid_inv_def unat_of_nat)
qed

text \<open>Allocator and pool are related by the set of live numbers and the generation.\<close>

definition asid_related :: "nat \<Rightarrow> asid_allocator \<Rightarrow> nat set \<times> u32 \<Rightarrow> bool" where
  "asid_related w a p \<longleftrightarrow>
     asid_inv a \<and> unat (aa_width_bits a) = w \<and> fst p = live_asids a \<and> snd p = aa_generation a"

lemma finite_live: "finite (live_asids a)"
  by (rule finite_subset [of _ "{..<65536}"]) (auto simp: live_asids_def)

lemma relatedD:
  assumes "asid_related w a p"
  shows "asid_inv a" and "unat (aa_width_bits a) = w" and "p = (live_asids a, aa_generation a)"
    and "length (aa_bitmap a) = 1024" and "live_asids a \<subseteq> {1..<2 ^ w}"
    and "aa_live_count a = of_nat (card (live_asids a))"
proof -
  have "unat (aa_live_count a) = card (live_asids a)" using assms by (simp add: asid_related_def asid_inv_def)
  then show "aa_live_count a = of_nat (card (live_asids a))"
    by (metis unat_eqI unat_lt_pow unat_of_nat mod_less)
qed (use assms in \<open>auto simp: asid_related_def asid_inv_def prod_eq_iff\<close>)

lemma allocate_step:
  assumes rel: "asid_related w a p" and al: "asid_allocate a = (out, a')"
  shows "\<exists>p'. pool_exec w p OpAllocate = (AnsAllocate out, p') \<and> asid_related w a' p'"
proof -
  note d = relatedD [OF rel]
  have free: "free_asids a = {1..<2 ^ w} - live_asids a" by (simp add: free_asids_def d)
  show ?thesis
  proof (cases "free_asids a = {}")
    case True
    with asid_allocate_spec [OF d(1)] al have "out = Exhausted" "a' = a" by simp_all
    moreover have "{1..<2 ^ w} \<subseteq> live_asids a" using True free by blast
    ultimately show ?thesis using rel d(3) by simp
  next
    case False
    define m where "m = Min (free_asids a)"
    from asid_allocate_spec [OF d(1)] False obtain a1 where
      al1: "asid_allocate a = (Allocated (of_nat m) (aa_generation a), a1)"
      and m: "m \<in> free_asids a" and live: "live_asids a1 = insert m (live_asids a)"
      and rest: "aa_generation a1 = aa_generation a" "aa_width_bits a1 = aa_width_bits a"
        "aa_live_count a1 = aa_live_count a + 1" "length (aa_bitmap a1) = length (aa_bitmap a)"
      unfolding m_def by (simp only: if_False) blast
    have "asid_inv a1" using m live rest d
      by (intro asid_inv_step [OF d(1)]) (auto simp: free finite_live)
    moreover have "\<not> {1..<2 ^ w} \<subseteq> live_asids a" using False free by auto
    ultimately show ?thesis
      using al al1 live rest d by (simp add: asid_related_def Let_def m_def free)
  qed
qed

lemma release_step:
  assumes rel: "asid_related w a p" and re: "asid_release a asid = (out, a')"
  shows "\<exists>p'. pool_exec w p (OpRelease asid) = (AnsRelease out, p') \<and> asid_related w a' p'"
proof (cases "asid \<noteq> 0 \<and> unat asid \<in> live_asids a")
  note d = relatedD [OF rel]
  case True
  from asid_release_spec [OF d(1), of asid] True obtain a1 where
    rl: "asid_release a asid = (Inr (), a1)" and live: "live_asids a1 = live_asids a - {unat asid}"
    and rest: "aa_generation a1 = aa_generation a" "aa_width_bits a1 = aa_width_bits a"
      "aa_live_count a1 = aa_live_count a - 1" "length (aa_bitmap a1) = length (aa_bitmap a)"
    by (simp only: if_True if_False simp_thms) blast
  have "card (live_asids a - {unat asid}) + 1 = card (live_asids a)"
    using True finite_live by (metis Suc_eq_plus1 card.remove)
  then have "aa_live_count a - 1 = of_nat (card (live_asids a - {unat asid}))"
    using d(6) by (metis add_diff_cancel_right' of_nat_1 of_nat_add)
  with live rest d have "asid_inv a1" by (intro asid_inv_step [OF d(1)]) auto
  with True re rl live rest d show ?thesis by (simp add: asid_related_def)
next
  note d = relatedD [OF rel]
  case False
  then have "asid = 0 \<or> asid \<noteq> 0 \<and> unat asid \<notin> live_asids a" by blast
  with asid_release_spec [OF d(1), of asid] re rel d(3) show ?thesis by (elim disjE) simp_all
qed

lemma rollover_step:
  assumes rel: "asid_related w a p" and ro: "asid_rollover a = (out, a')"
  shows "\<exists>p'. pool_exec w p OpRollover = (AnsRollover out, p') \<and> asid_related w a' p'"
proof -
  note d = relatedD [OF rel]
  from asid_rollover_spec [OF d(1)] obtain a1 where
    "asid_rollover a = (aa_generation a + 1, a1)" and live: "live_asids a1 = live_asids a"
    and rest: "aa_generation a1 = aa_generation a + 1" "aa_width_bits a1 = aa_width_bits a"
      "aa_live_count a1 = aa_live_count a" "length (aa_bitmap a1) = 1024" by blast
  moreover have "asid_inv a1" using live rest d by (intro asid_inv_step [OF d(1)]) simp_all
  ultimately show ?thesis using ro d by (simp add: asid_related_def)
qed

lemma asid_step:
  assumes "asid_related w a p" and "asid_exec a x = (r, a')"
  shows "\<exists>p'. pool_exec w p x = (r, p') \<and> asid_related w a' p'"
  using assms(2) allocate_step [OF assms(1)] release_step [OF assms(1)] rollover_step [OF assms(1)]
  by (cases x) (auto simp: apfst_def map_prod_def split: prod.splits)

text \<open>The rollover retry never finds a number: only a release makes one free.\<close>

lemma free_rollover:
  assumes "asid_inv a"
  shows "free_asids (snd (asid_rollover a)) = free_asids a" and "asid_inv (snd (asid_rollover a))"
proof -
  from asid_rollover_spec [OF assms] obtain a' where
    r: "asid_rollover a = (aa_generation a + 1, a')" "live_asids a' = live_asids a"
    "aa_width_bits a' = aa_width_bits a" "aa_live_count a' = aa_live_count a" "length (aa_bitmap a') = 1024" by blast
  then show "free_asids (snd (asid_rollover a)) = free_asids a" by (simp add: free_asids_def)
  show "asid_inv (snd (asid_rollover a))" using assms r by (simp add: asid_inv_def)
qed

lemma allocate_user_asid_none:
  assumes "asid_inv a"
  shows "fst (allocate_user_asid (Some a)) = None \<longleftrightarrow> free_asids a = {}"
  using asid_allocate_spec [OF assms] asid_allocate_spec [OF free_rollover(2) [OF assms]] free_rollover(1) [OF assms]
  by (auto simp: allocate_user_asid_def split: if_splits)

text \<open>Retiring a packed root gives back its identifier, invalidated first.\<close>

lemma retire_live:
  assumes "asid_inv a" and "unat asid \<in> live_asids a" and "asid \<noteq> 0" and "encode_ttbr0 root asid = Some v"
    and "asid_of_ttbr0 v = asid"
  shows "\<exists>a'. retire_user_aspace (Some a) v = (True, Some a', [InvalidateAsid asid])
    \<and> live_asids a' = live_asids a - {unat asid}"
  using asid_release_spec [OF assms(1), of asid] assms(2-)
  by (auto simp: retire_user_aspace_def release_asid_def asid_is_kernel_def)

interpretation asid_pool: simulation asid_exec "pool_exec w" "asid_related w" for w
  by unfold_locales (rule asid_step)

section \<open>Properties\<close>

text \<open>
  C40: no two live address spaces share an identifier. Over every sequence of allocations,
  releases and rollovers of a fresh allocator, each answer is that of a pool of numbers: an
  allocation gives the least number in \<open>1..2^width - 1\<close> that is not live, or \<open>Exhausted\<close>
  exactly when all of them are; a release succeeds exactly on live numbers; a rollover keeps
  them all and only advances the generation. The live count is the size of the pool.
\<close>

theorem asid_allocator_is_pool:
  assumes "asid_allocator_new width = Some a"
    and "run_answers asid_exec a xs = (rs, a')"
    and "run_answers (pool_exec (unat width)) ({}, 0) xs = (ss, (live, g))"
  shows "rs = ss \<and> live \<subseteq> {1..<2 ^ unat width} \<and> unat (aa_live_count a') = card live"
proof -
  have "asid_related (unat width) a ({}, 0)"
    using assms(1)
    by (auto simp: asid_allocator_new_def asid_related_def asid_inv_def live_asids_def asid_consts
        MAX_ASID_BITS_def word_less_nat_alt unat_gt_0 split: if_splits)
  from asid_pool.run_related [OF this, of xs] assms(2,3) show ?thesis
    by (auto simp: asid_related_def asid_inv_def)
qed

theorem asid_allocator_is_pool_witness:
  "\<exists>a. asid_allocator_new 1 = Some a
     \<and> fst (run_answers asid_exec a [OpAllocate, OpAllocate, OpRelease 1, OpRelease 1, OpRollover])
       = [AnsAllocate (Allocated 1 0), AnsAllocate Exhausted, AnsRelease (Inr ()),
          AnsRelease (Inl NotLive), AnsRollover 1]"
proof -
  let ?xs = "[OpAllocate, OpAllocate, OpRelease 1, OpRelease 1, OpRollover]"
  obtain a where a: "asid_allocator_new 1 = Some a" by (simp add: asid_allocator_new_def MAX_ASID_BITS_def)
  obtain rs a' where r: "run_answers asid_exec a ?xs = (rs, a')" by fastforce
  have one: "{Suc 0..<2} = {Suc 0}" by auto
  have s: "run_answers (pool_exec (unat (1 :: u8))) ({}, 0) ?xs =
      ([AnsAllocate (Allocated 1 0), AnsAllocate Exhausted, AnsRelease (Inr ()),
        AnsRelease (Inl NotLive), AnsRollover 1], ({}, 1))"
    by (simp add: one)
  from asid_allocator_is_pool [OF a r s] a r show ?thesis by simp
qed

text \<open>
  An address-space root and its identifier share one register without loss. For a root
  below \<open>2^48\<close> with a clear lowest bit the packed value exists, and the identifier and the
  root are read back from it; every other root is refused.
\<close>

lemma ttbr0_round_trip:
  "case encode_ttbr0 root asid of
     None \<Rightarrow> 2 ^ 48 \<le> unat root \<or> odd root
   | Some v \<Rightarrow> unat root < 2 ^ 48 \<and> even root \<and> asid_of_ttbr0 v = asid \<and> v AND TTBR0_ADDRESS_MASK = root"
proof -
  have m: "TTBR0_ADDRESS_MASK = mask 48"
    by (simp add: TTBR0_ADDRESS_MASK_def TTBR0_ASID_SHIFT_def mask_eq_exp_minus_1)
  have low: "root AND NOT (mask 48) = 0 \<longleftrightarrow> unat root < 2 ^ 48"
  proof -
    have "root AND NOT (mask 48) = 0 \<longleftrightarrow> unat (root AND NOT (mask 48)) = 0" by (simp add: word_unat_eq_iff)
    then show ?thesis by (simp only: unat_and_not_mask minus_mod_eq_div_mult) (simp add: div_eq_0_iff)
  qed
  have cnp: "root AND TTBR0_CNP = 0 \<longleftrightarrow> even root"
    by (simp add: TTBR0_CNP_def and_one_eq even_iff_mod_2_eq_zero)
  have "asid_of_ttbr0 (push_bit 48 (ucast asid) OR root) = asid"
    and "(push_bit 48 (ucast asid) OR root) AND mask 48 = root" if "root AND NOT (mask 48) = 0"
  proof -
    have z: "\<not> bit root n" if "48 \<le> n" for n
      using \<open>root AND NOT (mask 48) = 0\<close> that bit_imp_le_length [of root n]
      by (auto simp: bit_eq_iff [of "_ AND _"] bit_simps)
    then show "asid_of_ttbr0 (push_bit 48 (ucast asid) OR root) = asid"
      by (intro bit_word_eqI) (auto simp: asid_of_ttbr0_def TTBR0_ASID_SHIFT_def bit_simps)
    show "(push_bit 48 (ucast asid) OR root) AND mask 48 = root"
      using z by (intro bit_word_eqI) (auto simp: bit_simps intro: ccontr)
  qed
  with low cnp show ?thesis
    by (auto simp: encode_ttbr0_def m TTBR0_ASID_SHIFT_def not_less not_le split: option.splits if_splits)
qed

end
