(* ===== verification/Hal_Page_Table.thy ===== *)
theory Hal_Page_Table
  imports Mm_Frames Hal_Asid "HOL-Library.Sublist"
begin

text \<open>
  The user page tables of the AArch64 layer (\<open>hal/kumo-hal-aarch64/src/lib.rs\<close>, module \<open>mmu\<close>):
  descriptors, the insertion of pages and blocks with tables allocated on the way, and the
  removal of a span. Tables live in physical memory, the byte map \<open>fs_mem\<close> of the frame
  service; a descriptor is eight bytes of it, lowest byte first, as the processor stores it.

  \<open>walk\<close> is the translation the memory-management unit makes from these bytes. The theorems
  state every operation by its effect on \<open>walk\<close>.
\<close>

section \<open>Descriptors\<close>

definition DESC_VALID :: u64 where "DESC_VALID = 1"
definition DESC_TABLE :: u64 where "DESC_TABLE = 2"
definition DESC_AF :: u64 where "DESC_AF = push_bit 10 1"
definition SH_INNER :: u64 where "SH_INNER = push_bit 8 3"
definition PXN :: u64 where "PXN = push_bit 53 1"
definition UXN :: u64 where "UXN = push_bit 54 1"
definition DESC_NG :: u64 where "DESC_NG = push_bit 11 1"
definition MAIR_WB :: u64 where "MAIR_WB = 0"
definition MAIR_DEVICE :: u64 where "MAIR_DEVICE = 1"
definition MAIR_NC :: u64 where "MAIR_NC = 2"
definition ADDR_MASK :: u64 where "ADDR_MASK = 0x0000fffffffff000"
definition AP_EL1RW_EL0RW :: u64 where "AP_EL1RW_EL0RW = push_bit 6 1"
definition AP_EL1RO_EL0RO :: u64 where "AP_EL1RO_EL0RO = push_bit 6 1 OR push_bit 7 1"

definition user_page_desc :: "bool \<Rightarrow> bool \<Rightarrow> u64" where
  "user_page_desc executable writable =
     (let base = DESC_VALID OR DESC_TABLE OR DESC_AF OR DESC_NG OR SH_INNER OR push_bit 2 MAIR_WB in
      if writable then base OR AP_EL1RW_EL0RW OR UXN OR PXN
      else if executable then base OR AP_EL1RO_EL0RO OR PXN
      else base OR AP_EL1RO_EL0RO OR UXN OR PXN)"

definition user_device_page_desc :: "bool \<Rightarrow> u64" where
  "user_device_page_desc writable =
     (let base = DESC_VALID OR DESC_TABLE OR DESC_AF OR DESC_NG OR push_bit 2 MAIR_DEVICE in
      if writable then base OR AP_EL1RW_EL0RW OR UXN OR PXN
      else base OR AP_EL1RO_EL0RO OR UXN OR PXN)"

definition user_nc_page_desc :: "bool \<Rightarrow> u64" where
  "user_nc_page_desc writable =
     (let base = DESC_VALID OR DESC_TABLE OR DESC_AF OR DESC_NG OR push_bit 2 MAIR_NC in
      if writable then base OR AP_EL1RW_EL0RW OR UXN OR PXN
      else base OR AP_EL1RO_EL0RO OR UXN OR PXN)"

section \<open>Memory\<close>

type_synonym phys_mem = "u64 \<Rightarrow> u8"

definition load64 :: "phys_mem \<Rightarrow> u64 \<Rightarrow> u64" where
  "load64 mem a = foldr (\<lambda>k w. push_bit (8 * k) (ucast (mem (a + of_nat k))) OR w) [0..<8] 0"

definition store64 :: "phys_mem \<Rightarrow> u64 \<Rightarrow> u64 \<Rightarrow> phys_mem" where
  "store64 mem a v =
     (\<lambda>x. let k = unat (x - a) in if k < 8 then ucast (drop_bit (8 * k) v) else mem x)"

definition read_desc :: "phys_mem \<Rightarrow> u64 \<Rightarrow> nat \<Rightarrow> u64" where
  "read_desc mem table_phys index = load64 mem (table_phys + of_nat index * 8)"

definition write_desc :: "phys_mem \<Rightarrow> u64 \<Rightarrow> nat \<Rightarrow> u64 \<Rightarrow> phys_mem" where
  "write_desc mem table_phys index value = store64 mem (table_phys + of_nat index * 8) value"

section \<open>Insertion\<close>

type_synonym frame_alloc = "frame_state \<Rightarrow> u64 option \<times> frame_state"

definition va_index :: "nat \<Rightarrow> u64 \<Rightarrow> nat" where
  "va_index shift va = unat (drop_bit shift va AND 0x1ff)"

definition ensure_table ::
  "frame_alloc \<Rightarrow> u64 \<Rightarrow> nat \<Rightarrow> frame_state \<Rightarrow> nat \<Rightarrow> u64 option \<times> frame_state \<times> nat" where
  "ensure_table alloc parent index st tables =
     (let current = read_desc (fs_mem st) parent index in
      if current AND DESC_VALID \<noteq> 0 then (Some (current AND ADDR_MASK), st, tables)
      else case alloc st of
             (None, st') \<Rightarrow> (None, st', tables)
           | (Some child, st') \<Rightarrow>
               (Some child,
                st'\<lparr>fs_mem := write_desc (fs_mem st') parent index (child OR DESC_VALID OR DESC_TABLE)\<rparr>,
                tables + 1))"

definition map_page ::
  "frame_alloc \<Rightarrow> u64 \<Rightarrow> u64 \<Rightarrow> u64 \<Rightarrow> u64 \<Rightarrow> frame_state \<Rightarrow> nat \<Rightarrow> bool \<times> frame_state \<times> nat" where
  "map_page alloc root_tagged va pa desc st tables =
     (let root = root_tagged AND ADDR_MASK in
      case ensure_table alloc root (va_index 39 va) st tables of
        (None, st1, n1) \<Rightarrow> (False, st1, n1)
      | (Some l1, st1, n1) \<Rightarrow>
          (case ensure_table alloc l1 (va_index 30 va) st1 n1 of
             (None, st2, n2) \<Rightarrow> (False, st2, n2)
           | (Some l2, st2, n2) \<Rightarrow>
               (case ensure_table alloc l2 (va_index 21 va) st2 n2 of
                  (None, st3, n3) \<Rightarrow> (False, st3, n3)
                | (Some l3, st3, n3) \<Rightarrow>
                    (True, st3\<lparr>fs_mem := write_desc (fs_mem st3) l3 (va_index 12 va) (pa OR desc)\<rparr>, n3))))"

definition map_block ::
  "frame_alloc \<Rightarrow> u64 \<Rightarrow> u64 \<Rightarrow> u64 \<Rightarrow> u64 \<Rightarrow> frame_state \<Rightarrow> nat \<Rightarrow> bool \<times> frame_state \<times> nat" where
  "map_block alloc root_tagged va pa desc st tables =
     (let root = root_tagged AND ADDR_MASK in
      case ensure_table alloc root (va_index 39 va) st tables of
        (None, st1, n1) \<Rightarrow> (False, st1, n1)
      | (Some l1, st1, n1) \<Rightarrow>
          (case ensure_table alloc l1 (va_index 30 va) st1 n1 of
             (None, st2, n2) \<Rightarrow> (False, st2, n2)
           | (Some l2, st2, n2) \<Rightarrow>
               (True, st2\<lparr>fs_mem := write_desc (fs_mem st2) l2 (va_index 21 va) (pa OR desc)\<rparr>, n2)))"

definition map_user_page ::
  "frame_alloc \<Rightarrow> u64 \<Rightarrow> u64 \<Rightarrow> u64 \<Rightarrow> u64 \<Rightarrow> frame_state \<Rightarrow> nat \<Rightarrow> bool \<times> frame_state \<times> nat" where
  "map_user_page alloc root va pa desc st tables = map_page alloc (root AND ADDR_MASK) va pa desc st tables"

definition map_user_device_block ::
  "frame_alloc \<Rightarrow> u64 \<Rightarrow> u64 \<Rightarrow> u64 \<Rightarrow> bool \<Rightarrow> bool \<Rightarrow> frame_state \<Rightarrow> nat \<Rightarrow> bool \<times> frame_state \<times> nat" where
  "map_user_device_block alloc root va pa nc writable st tables =
     (let mair = (if nc then MAIR_NC else MAIR_DEVICE);
          ap = (if writable then AP_EL1RW_EL0RW else AP_EL1RO_EL0RO);
          desc = pa OR DESC_VALID OR DESC_AF OR DESC_NG OR push_bit 2 mair OR PXN OR UXN OR ap
      in map_block alloc (root AND ADDR_MASK) va pa desc st tables)"

section \<open>Removal\<close>

text \<open>The loops step \<open>page\<close> through the multiples of a page below \<open>len\<close>, itself such a multiple.\<close>

definition span_pages :: "u64 \<Rightarrow> u64 \<Rightarrow> u64 list" where
  "span_pages va len = map (\<lambda>k. va + of_nat k * PAGE_SIZE) [0..<unat len div 4096]"

definition is_table_desc :: "u64 \<Rightarrow> bool" where
  "is_table_desc d = (\<not> (d AND DESC_VALID = 0 \<or> d AND DESC_TABLE = 0))"

definition preflight_page :: "phys_mem \<Rightarrow> u64 \<Rightarrow> u64 \<Rightarrow> bool" where
  "preflight_page mem root_pa at =
     (let l1 = read_desc mem root_pa (va_index 39 at) in
      if \<not> is_table_desc l1 then False
      else let l2 = read_desc mem (l1 AND ADDR_MASK) (va_index 30 at) in
      if \<not> is_table_desc l2 then False
      else let l3 = read_desc mem (l2 AND ADDR_MASK) (va_index 21 at) in
      if \<not> is_table_desc l3 then False
      else is_table_desc (read_desc mem (l3 AND ADDR_MASK) (va_index 12 at)))"

definition clear_page :: "u64 \<Rightarrow> u64 \<Rightarrow> phys_mem \<Rightarrow> phys_mem" where
  "clear_page root_pa at mem =
     (let l1 = read_desc mem root_pa (va_index 39 at);
          l2 = read_desc mem (l1 AND ADDR_MASK) (va_index 30 at);
          l3 = read_desc mem (l2 AND ADDR_MASK) (va_index 21 at)
      in write_desc mem (l3 AND ADDR_MASK) (va_index 12 at) 0)"

definition unmap_user_span :: "phys_mem \<Rightarrow> u64 \<Rightarrow> u64 \<Rightarrow> u64 \<Rightarrow> bool \<times> phys_mem \<times> tlb_invalidate list" where
  "unmap_user_span mem root va len =
     (if len = 0 \<or> va AND (PAGE_SIZE - 1) \<noteq> 0 \<or> len AND (PAGE_SIZE - 1) \<noteq> 0 \<or> checked_add va len = None
      then (False, mem, [])
      else
        let root_pa = root AND ADDR_MASK in
        if \<not> list_all (preflight_page mem root_pa) (span_pages va len) then (False, mem, [])
        else (True, fold (clear_page root_pa) (span_pages va len) mem, [invalidate_user_aspace root]))"

section \<open>The walk of the memory-management unit\<close>

datatype translation = TFault | TBlock u64 | TPage u64

fun walk_levels :: "phys_mem \<Rightarrow> u64 \<Rightarrow> nat list \<Rightarrow> translation" where
  "walk_levels mem t [] = TFault"
| "walk_levels mem t [i] =
     (let d = read_desc mem t i in if is_table_desc d then TPage d else TFault)"
| "walk_levels mem t (i # j # is) =
     (let d = read_desc mem t i in
      if d AND DESC_VALID = 0 then TFault
      else if d AND DESC_TABLE = 0 then TBlock d
      else walk_levels mem (d AND ADDR_MASK) (j # is))"

definition va_path :: "u64 \<Rightarrow> nat list" where
  "va_path va = [va_index 39 va, va_index 30 va, va_index 21 va, va_index 12 va]"

definition walk :: "phys_mem \<Rightarrow> u64 \<Rightarrow> u64 \<Rightarrow> translation" where
  "walk mem root va = walk_levels mem (root AND ADDR_MASK) (va_path va)"

text \<open>The table at a path of indices below a root.\<close>

fun table_at :: "phys_mem \<Rightarrow> u64 \<Rightarrow> nat list \<Rightarrow> u64 option" where
  "table_at mem t [] = Some t"
| "table_at mem t (i # is) =
     (let d = read_desc mem t i in if is_table_desc d then table_at mem (d AND ADDR_MASK) is else None)"

section \<open>Lemmas on memory\<close>

lemma bit_load_fold:
  "bit (foldr (\<lambda>k w. push_bit (8 * k) (ucast (f k :: u8)) OR w) ks 0 :: u64) n
     \<longleftrightarrow> n < 64 \<and> (\<exists>k \<in> set ks. 8 * k \<le> n \<and> bit (f k) (n - 8 * k))"
  by (induction ks) (auto simp: bit_simps dest: bit_imp_le_length)

lemma bit_load64:
  "bit (load64 mem a) n \<longleftrightarrow> n < 64 \<and> bit (mem (a + of_nat (n div 8))) (n mod 8)"
proof -
  have "(\<exists>k \<in> set [0..<8]. 8 * k \<le> n \<and> bit (mem (a + of_nat k)) (n - 8 * k))
      \<longleftrightarrow> bit (mem (a + of_nat (n div 8))) (n mod 8)" (is "?l \<longleftrightarrow> ?r") if n: "n < 64"
  proof
    assume ?l
    then obtain k where k: "8 * k \<le> n" "bit (mem (a + of_nat k)) (n - 8 * k)" by blast
    from k(2) have "n - 8 * k < 8" using bit_imp_le_length [OF k(2)] by simp
    moreover obtain r where r: "n = 8 * k + r" using k(1) le_Suc_ex by blast
    ultimately have "n div 8 = k" "n mod 8 = r" by simp_all
    with k r show ?r by simp
  next
    assume ?r
    moreover have "8 * (n div 8) \<le> n" and "n - 8 * (n div 8) = n mod 8" and "n div 8 \<in> set [0..<8]"
      using n by (simp_all add: minus_mult_div_eq_mod)
    ultimately show ?l by (intro bexI [of _ "n div 8"]) (simp_all only:)
  qed
  then show ?thesis unfolding load64_def bit_load_fold by blast
qed

lemma load64_cong:
  "(\<And>k. k < 8 \<Longrightarrow> mem (a + of_nat k) = mem' (a + of_nat k)) \<Longrightarrow> load64 mem a = load64 mem' a"
  by (rule bit_word_eqI) (simp add: bit_load64)

lemma load_store: "load64 (store64 mem a v) a = v"
proof (rule bit_word_eqI)
  fix n assume n: "n < LENGTH(64)"
  then have k: "n div 8 < 8" by simp
  then have "unat (of_nat (n div 8) :: u64) = n div 8" by (simp add: unat_of_nat)
  with k n show "bit (load64 (store64 mem a v) a) n = bit v n"
    by (simp add: bit_load64 store64_def bit_simps)
qed

text \<open>Frames a table can occupy.\<close>

definition frame_addr :: "u64 \<Rightarrow> bool" where
  "frame_addr f \<longleftrightarrow> unat f mod 4096 = 0 \<and> unat f < 2 ^ 48"

lemma frame_pages: "frame_addr f \<Longrightarrow> \<exists>q. unat f = 4096 * q"
  by (auto simp: frame_addr_def mod_eq_0_iff_dvd elim: dvdE)

lemma page_floor: "r < 4096 \<Longrightarrow> 4096 * q + r - (4096 * q + r) mod 4096 = 4096 * q" for q r :: nat
  by simp

lemma split_eq:
  fixes n q r q' r' :: nat
  assumes "r' < n" and "r < n" and "n * q' + r' = n * q + r"
  shows "q' = q" and "r' = r"
proof -
  have "(n * q' + r') div n = (n * q + r) div n" "(n * q' + r') mod n = (n * q + r) mod n"
    using assms(3) by simp_all
  with assms(1,2) show "q' = q" and "r' = r" by simp_all
qed

lemma unat_slot:
  assumes "frame_addr t" and "i < 512" and "k < 8"
  shows "unat (t + of_nat i * 8 + of_nat k) = unat t + 8 * i + k"
proof -
  have "unat t + 8 * i + k < 2 ^ 64" using assms by (simp add: frame_addr_def)
  moreover have "t + of_nat i * 8 + of_nat k = of_nat (unat t + 8 * i + k)" by (simp add: algebra_simps)
  ultimately show ?thesis by (simp only: unat_of_nat) simp
qed

lemma slot_neq:
  assumes "frame_addr t" "frame_addr t'" "i < 512" "i' < 512" "k < 8" "j < 8"
    and "t' + of_nat i' * 8 + of_nat k = t + of_nat i * 8 + of_nat j"
  shows "t' = t \<and> i' = i"
proof -
  have eq: "unat t' + 8 * i' + k = unat t + 8 * i + j"
    using assms(7) unat_slot [of t i j] unat_slot [of t' i' k] assms(1-6) by simp
  obtain q q' where q: "unat t = 4096 * q" "unat t' = 4096 * q'"
    using frame_pages assms(1,2) by blast
  have sum: "4096 * q' + (8 * i' + k) = 4096 * q + (8 * i + j)" using eq unfolding q by simp
  have "8 * i' + k < 4096" "8 * i + j < 4096" using assms(3-6) by simp_all
  from split_eq [OF this sum] have "q' = q" and "8 * i' + k = 8 * i + j" by simp_all
  with split_eq [OF assms(5,6)] have "q' = q" and "i' = i" by simp_all
  then show ?thesis using q by (metis unat_eqI)
qed

lemma read_write_desc:
  assumes "frame_addr t" "frame_addr t'" "i < 512" "i' < 512"
  shows "read_desc (write_desc mem t i v) t' i' = (if t' = t \<and> i' = i then v else read_desc mem t' i')"
proof (cases "t' = t \<and> i' = i")
  case True
  then show ?thesis by (simp add: read_desc_def write_desc_def load_store)
next
  case False
  have "store64 mem (t + of_nat i * 8) v (t' + of_nat i' * 8 + of_nat k) = mem (t' + of_nat i' * 8 + of_nat k)"
    if k: "k < 8" for k
  proof -
    let ?j = "unat (t' + of_nat i' * 8 + of_nat k - (t + of_nat i * 8))"
    have "t' + of_nat i' * 8 + of_nat k = t + of_nat i * 8 + of_nat ?j" by (simp add: algebra_simps)
    with False have "\<not> ?j < 8" using slot_neq [OF assms k] by blast
    then show ?thesis by (simp add: store64_def Let_def)
  qed
  with False show ?thesis by (auto simp: read_desc_def write_desc_def intro: load64_cong)
qed

lemma write_desc_elsewhere:
  assumes "frame_addr t" and "i < 512" and "align_down x \<noteq> t"
  shows "write_desc mem t i v x = mem x"
proof -
  let ?j = "unat (x - (t + of_nat i * 8))"
  have "\<not> ?j < 8"
  proof
    assume j: "?j < 8"
    have "x = t + of_nat i * 8 + of_nat ?j" by (simp add: algebra_simps)
    then have "unat x = unat t + 8 * i + ?j" using unat_slot [OF assms(1,2) j] by simp
    moreover obtain q where "unat t = 4096 * q" using frame_pages assms(1) by blast
    ultimately have "unat x - unat x mod 4096 = unat t"
      using j assms(2) page_floor [of "8 * i + ?j"] by (simp only: add.assoc)
    then show False using assms(3) by (metis unat_align_down unat_eqI)
  qed
  then show ?thesis by (simp add: write_desc_def store64_def Let_def)
qed

lemma write_zero_iff:
  assumes "frame_addr f"
  shows "write_zero mem f PAGE_SIZE x = (if align_down x = f then 0 else mem x)"
proof -
  obtain q where q: "unat f = 4096 * q" using frame_pages assms by blast
  define d r where "d = unat x div 4096" and "r = unat x mod 4096"
  then have x: "unat x = 4096 * d + r" and "r < 4096" by simp_all
  moreover have "unat x - unat x mod 4096 = 4096 * d" using x by (simp add: r_def)
  ultimately have "unat f \<le> unat x \<and> unat x < unat f + 4096 \<longleftrightarrow> unat x - unat x mod 4096 = unat f"
    unfolding q by (cases d q rule: linorder_cases) linarith+
  then show ?thesis by (simp add: write_zero_def word_unat_eq_iff unat_align_down)
qed

lemma slot_page:
  assumes "frame_addr t" and "i < 512" and "k < 8"
  shows "align_down (t + of_nat i * 8 + of_nat k) = t"
proof (rule unat_eqI)
  obtain q where "unat t = 4096 * q" using frame_pages assms(1) by blast
  then have "unat (t + of_nat i * 8 + of_nat k) = 4096 * q + (8 * i + k)" and q: "unat t = 4096 * q"
    using unat_slot [OF assms] by simp_all
  then show "unat (align_down (t + of_nat i * 8 + of_nat k)) = unat t"
    using assms page_floor [of "8 * i + k" q] by (simp only: unat_align_down q)
qed

lemma read_zeroed:
  assumes "frame_addr f" and "frame_addr t" and "i < 512"
  shows "read_desc (write_zero mem f PAGE_SIZE) t i = (if t = f then 0 else read_desc mem t i)"
proof (cases "t = f")
  case True
  have "load64 (\<lambda>_. 0) a = 0" for a by (rule bit_word_eqI) (simp add: bit_load64)
  with True show ?thesis
    using load64_cong [of "write_zero mem f PAGE_SIZE" "f + of_nat i * 8" "\<lambda>_. 0"] assms
    by (simp add: read_desc_def write_zero_iff slot_page)
next
  case False
  with assms show ?thesis
    by (auto simp: read_desc_def write_zero_iff slot_page intro!: load64_cong)
qed

section \<open>Lemmas on trees of tables\<close>

lemma index_less [simp]: "va_index shift va < 512"
proof -
  have "drop_bit shift va AND 0x1ff \<le> (0x1ff :: u64)" by (rule word_and_le1)
  then show ?thesis by (simp add: va_index_def word_le_nat_alt)
qed

lemma table_at_append:
  "table_at mem t (p @ q) = Option.bind (table_at mem t p) (\<lambda>t'. table_at mem t' q)"
  by (induction p arbitrary: t) (auto simp: Let_def)

lemma walk_append:
  "table_at mem t p = Some t' \<Longrightarrow> js \<noteq> [] \<Longrightarrow> walk_levels mem t (p @ js) = walk_levels mem t' js"
proof (induction p arbitrary: t)
  case (Cons i p)
  then obtain j js' where "p @ js = j # js'" by (cases "p @ js") auto
  with Cons show ?case by (auto simp: Let_def is_table_desc_def split: if_splits)
qed simp

definition tables :: "phys_mem \<Rightarrow> u64 \<Rightarrow> (nat list \<times> u64) set" where
  "tables mem root = {(p, t). length p \<le> 3 \<and> set p \<subseteq> {..<512} \<and> table_at mem root p = Some t}"

text \<open>
  A tree of tables: every table is a frame that the kernel owns, and no frame is a table at two
  places of the tree.
\<close>

definition tree_ok :: "phys_mem \<Rightarrow> u64 \<Rightarrow> u64 set \<Rightarrow> bool" where
  "tree_ok mem root own \<longleftrightarrow>
     (\<forall>(p, t) \<in> tables mem root. t \<in> own \<and> frame_addr t)
     \<and> (\<forall>p q t. (p, t) \<in> tables mem root \<longrightarrow> (q, t) \<in> tables mem root \<longrightarrow> p = q)"

lemma tree_okD:
  assumes "tree_ok mem root own" and "(p, t) \<in> tables mem root"
  shows "t \<in> own" and "frame_addr t" and "(q, t) \<in> tables mem root \<Longrightarrow> q = p"
  using assms unfolding tree_ok_def by fastforce+

text \<open>Two memories that hold the same descriptors in a tree, the slot \<open>i\<close> of the table at \<open>p\<close> apart.\<close>

definition same_except :: "phys_mem \<Rightarrow> phys_mem \<Rightarrow> u64 \<Rightarrow> nat list \<Rightarrow> nat \<Rightarrow> bool" where
  "same_except mem mem' root p i \<longleftrightarrow>
     (\<forall>q t j. (q, t) \<in> tables mem root \<longrightarrow> j < 512 \<longrightarrow> (q, j) \<noteq> (p, i) \<longrightarrow>
        read_desc mem' t j = read_desc mem t j)"

lemma same_exceptD:
  "same_except mem mem' root p i \<Longrightarrow> (q, t) \<in> tables mem root \<Longrightarrow> j < 512 \<Longrightarrow> (q, j) \<noteq> (p, i) \<Longrightarrow>
     read_desc mem' t j = read_desc mem t j"
  by (auto simp: same_except_def)

lemma tables_snoc:
  "(q, t) \<in> tables mem root \<Longrightarrow> length q < 3 \<Longrightarrow> j < 512 \<Longrightarrow> is_table_desc (read_desc mem t j) \<Longrightarrow>
     (q @ [j], read_desc mem t j AND ADDR_MASK) \<in> tables mem root"
  by (auto simp: tables_def table_at_append)

lemma same_table_at:
  assumes "same_except mem mem' root p i" and "length (q @ js) \<le> 3" and "set js \<subseteq> {..<512}"
    and "(q, t) \<in> tables mem root" and "\<not> prefix (p @ [i]) (q @ js)"
  shows "table_at mem' t js = table_at mem t js"
  using assms(2-)
proof (induction js arbitrary: q t)
  case (Cons j js)
  have "(q, j) \<noteq> (p, i)" using Cons.prems(4) by auto
  then have eq: "read_desc mem' t j = read_desc mem t j"
    using Cons.prems same_exceptD [OF assms(1)] by simp
  show ?case
  proof (cases "is_table_desc (read_desc mem t j)")
    case True
    from Cons.IH [OF _ _ tables_snoc [OF Cons.prems(3) _ _ True]] Cons.prems eq show ?thesis
      by (simp add: Let_def)
  qed (simp add: eq)
qed simp

lemma same_walk:
  assumes "same_except mem mem' root p i" and "length (q @ js) \<le> 4" and "set js \<subseteq> {..<512}"
    and "(q, t) \<in> tables mem root" and "\<not> prefix (p @ [i]) (q @ js)"
  shows "walk_levels mem' t js = walk_levels mem t js"
  using assms(2-)
proof (induction js arbitrary: q t rule: induct_list012)
  case (2 j)
  have "(q, j) \<noteq> (p, i)" using 2 by auto
  with 2 same_exceptD [OF assms(1)] show ?case by simp
next
  case (3 j k js)
  have "(q, j) \<noteq> (p, i)" using "3.prems" by auto
  then have eq: "read_desc mem' t j = read_desc mem t j"
    using "3.prems" same_exceptD [OF assms(1)] by simp
  show ?case
  proof (cases "is_table_desc (read_desc mem t j)")
    case True
    have "(q @ [j], read_desc mem t j AND ADDR_MASK) \<in> tables mem root"
      using "3.prems" by (intro tables_snoc True) auto
    from "3.IH"(2) [OF _ _ this] "3.prems" True eq show ?thesis by (simp add: Let_def)
  next
    case False
    then show ?thesis by (auto simp: Let_def eq is_table_desc_def)
  qed
qed simp

lemma root_table: "(p, t) \<in> tables mem root \<Longrightarrow> ([], root) \<in> tables mem root"
  by (simp add: tables_def)

text \<open>Writing one slot of a tree.\<close>

lemma write_slot:
  assumes "tree_ok mem root own" and "(p, t) \<in> tables mem root" and "i < 512"
  shows "same_except mem (write_desc mem t i v) root p i" and "read_desc (write_desc mem t i v) t i = v"
proof -
  note t = tree_okD [OF assms(1,2)]
  show "read_desc (write_desc mem t i v) t i = v" using t(2) assms(3) by (simp add: read_write_desc)
  show "same_except mem (write_desc mem t i v) root p i"
    unfolding same_except_def
  proof (intro allI impI)
    fix q t' j assume q: "(q, t') \<in> tables mem root" "j < 512" "(q, j) \<noteq> (p, i)"
    then have "\<not> (t' = t \<and> j = i)" using t(3) by auto
    then show "read_desc (write_desc mem t i v) t' j = read_desc mem t' j"
      using q t(2) tree_okD(2) [OF assms(1) q(1)] assms(3) by (auto simp: read_write_desc)
  qed
qed

lemma leaf_tables:
  assumes "same_except mem mem' root p i" and "length p = 3"
  shows "tables mem' root = tables mem root"
proof -
  have "table_at mem' root q = table_at mem root q" if "length q \<le> 3" "set q \<subseteq> {..<512}" for q
  proof -
    have "\<not> prefix (p @ [i]) ([] @ q)" using that(1) assms(2) prefix_length_le by fastforce
    with same_table_at [OF assms(1), of "[]" q root] that show ?thesis by (simp add: tables_def)
  qed
  then show ?thesis by (auto simp: tables_def)
qed

text \<open>Writing a leaf changes the translation of its page only.\<close>

lemma leaf_walk:
  assumes "tree_ok mem root own" and "(p, t) \<in> tables mem root" and "length p = 3" and "i < 512"
    and "length js = 4" and "set js \<subseteq> {..<512}"
  shows "walk_levels (write_desc mem t i v) root js =
    (if js = p @ [i] then if is_table_desc v then TPage v else TFault else walk_levels mem root js)"
    and "tree_ok (write_desc mem t i v) root own"
    and "tables (write_desc mem t i v) root = tables mem root"
proof -
  note w = write_slot [OF assms(1,2,4), of v]
  show tab: "tables (write_desc mem t i v) root = tables mem root" by (rule leaf_tables [OF w(1) assms(3)])
  with assms(1) show "tree_ok (write_desc mem t i v) root own" by (simp add: tree_ok_def)
  show "walk_levels (write_desc mem t i v) root js =
    (if js = p @ [i] then if is_table_desc v then TPage v else TFault else walk_levels mem root js)"
  proof (cases "js = p @ [i]")
    case True
    have "table_at (write_desc mem t i v) root p = Some t" using assms(2) tab by (auto simp: tables_def)
    with True w(2) walk_append [of _ root p t "[i]"] show ?thesis by (simp add: Let_def)
  next
    case False
    then have "\<not> prefix (p @ [i]) ([] @ js)"
      using assms(3,5) by (auto simp: prefix_def)
    with same_walk [OF w(1) _ _ root_table [OF assms(2)]] assms(5,6) False show ?thesis by simp
  qed
qed

text \<open>Descriptors of tables.\<close>

lemma bit_ADDR_MASK: "bit ADDR_MASK n \<longleftrightarrow> 12 \<le> n \<and> n < 48"
proof -
  have m: "ADDR_MASK = mask 48 AND NOT (mask 12)"
    by (simp add: ADDR_MASK_def mask_eq_exp_minus_1)
  show ?thesis unfolding m by (auto simp: bit_simps)
qed

lemma mod_floor_fixed:
  fixes x B :: nat
  assumes "0 < B"
  shows "x mod B - x mod B mod 4096 = x \<longleftrightarrow> x mod 4096 = 0 \<and> x < B"
proof
  assume l: "x mod B - x mod B mod 4096 = x"
  have "x mod B - x mod B mod 4096 \<le> x mod B" by (rule diff_le_self)
  with l have "x \<le> x mod B" by simp
  with assms have lt: "x < B" by (meson le_less_trans mod_less_divisor)
  with l have "x - x mod 4096 = x" by simp
  then have "x mod 4096 = 0" by (metis diff_diff_cancel diff_self_eq_0 mod_less_eq_dividend)
  with lt show "x mod 4096 = 0 \<and> x < B" by blast
qed simp

lemma frame_addr_bits: "frame_addr f \<longleftrightarrow> f AND ADDR_MASK = f"
proof -
  have "f AND ADDR_MASK = (f AND mask 48) AND NOT (mask 12)"
    by (rule bit_word_eqI) (auto simp: bit_and_iff bit_not_iff bit_mask_iff bit_ADDR_MASK)
  moreover have "unat (f AND mask 48) = take_bit 48 (unat f)"
  proof -
    have "unat (f AND mask 48) = unat (take_bit 48 f)" by (simp only: take_bit_eq_mask)
    also have "\<dots> = take_bit 48 (unat f)" by (rule unsigned_take_bit_eq)
    finally show ?thesis .
  qed
  moreover have "(2 :: nat) ^ 12 = 4096" by simp
  ultimately have "unat (f AND ADDR_MASK) = unat f mod 2 ^ 48 - unat f mod 2 ^ 48 mod 4096"
    by (simp only: unat_and_not_mask take_bit_eq_mod)
  moreover have "(0 :: nat) < 2 ^ 48" by simp
  ultimately show ?thesis
    by (simp only: frame_addr_def word_unat_eq_iff mod_floor_fixed)
qed

lemma frame_desc_bits:
  assumes "frame_addr f"
  shows "bit f n \<Longrightarrow> 12 \<le> n \<and> n < 48"
proof -
  assume "bit f n"
  moreover have "f = f AND ADDR_MASK" using assms by (simp add: frame_addr_bits)
  ultimately show ?thesis by (metis bit_and_iff bit_ADDR_MASK)
qed

lemma is_table_desc_bits: "is_table_desc d \<longleftrightarrow> bit d 0 \<and> bit d 1"
  and valid_bit: "d AND DESC_VALID \<noteq> 0 \<longleftrightarrow> bit d 0"
proof -
  have v: "d AND DESC_VALID = 0 \<longleftrightarrow> \<not> bit d 0" and t: "d AND DESC_TABLE = 0 \<longleftrightarrow> \<not> bit d 1"
    using and_exp_eq_0_iff_not_bit [of d 0] and_exp_eq_0_iff_not_bit [of d 1]
    by (simp_all add: DESC_VALID_def DESC_TABLE_def)
  then show "is_table_desc d \<longleftrightarrow> bit d 0 \<and> bit d 1" and "d AND DESC_VALID \<noteq> 0 \<longleftrightarrow> bit d 0"
    by (simp_all add: is_table_desc_def)
qed

lemma bit_flags: "bit DESC_VALID n \<longleftrightarrow> n = 0" "bit DESC_TABLE n \<longleftrightarrow> n = 1"
  using bit_exp_iff [of 1 n, where 'a = "64 word"]
  by (auto simp: DESC_VALID_def DESC_TABLE_def bit_1_iff)

lemma table_desc:
  assumes "frame_addr f"
  shows "is_table_desc (f OR DESC_VALID OR DESC_TABLE)"
    and "(f OR DESC_VALID OR DESC_TABLE) AND ADDR_MASK = f"
proof -
  show "is_table_desc (f OR DESC_VALID OR DESC_TABLE)"
    by (simp add: is_table_desc_bits bit_or_iff bit_flags)
  show "(f OR DESC_VALID OR DESC_TABLE) AND ADDR_MASK = f"
    using frame_desc_bits [OF assms]
    by (intro bit_word_eqI) (auto simp: bit_simps bit_ADDR_MASK bit_flags)
qed

text \<open>Hanging a zeroed table into an empty slot.\<close>

lemma zero_desc: "\<not> is_table_desc 0" "0 AND DESC_VALID = 0"
  by (simp_all add: is_table_desc_def)

definition hang :: "phys_mem \<Rightarrow> u64 \<Rightarrow> nat \<Rightarrow> u64 \<Rightarrow> phys_mem" where
  "hang mem t i child = write_desc (write_zero mem child PAGE_SIZE) t i (child OR DESC_VALID OR DESC_TABLE)"

lemma hang_table:
  assumes ok: "tree_ok mem root own" and p: "(p, t) \<in> tables mem root" "length p < 3" and i: "i < 512"
    and empty: "read_desc mem t i AND DESC_VALID = 0" and child: "child \<notin> own" "frame_addr child"
  shows "same_except mem (hang mem t i child) root p i"
    and "read_desc (hang mem t i child) t i = child OR DESC_VALID OR DESC_TABLE"
    and "j < 512 \<Longrightarrow> read_desc (hang mem t i child) child j = 0"
proof -
  note t = tree_okD [OF ok p(1)]
  have rd: "read_desc (hang mem t i child) t' j =
      (if t' = t \<and> j = i then child OR DESC_VALID OR DESC_TABLE
       else if t' = child then 0 else read_desc mem t' j)" if "frame_addr t'" "j < 512" for t' j
    using that t(2) child(2) i by (simp add: hang_def read_write_desc read_zeroed)
  show "read_desc (hang mem t i child) t i = child OR DESC_VALID OR DESC_TABLE" using t(2) i rd by simp
  show "read_desc (hang mem t i child) child j = 0" if "j < 512"
    using that t(1) child rd by auto
  show "same_except mem (hang mem t i child) root p i"
    unfolding same_except_def
  proof (intro allI impI)
    fix q t' j assume q: "(q, t') \<in> tables mem root" "j < 512" "(q, j) \<noteq> (p, i)"
    note t' = tree_okD [OF ok q(1)]
    have "\<not> (t' = t \<and> j = i)" using t(3) q by auto
    moreover have "t' \<noteq> child" using t'(1) child(1) by auto
    ultimately show "read_desc (hang mem t i child) t' j = read_desc mem t' j" using rd t'(2) q(2) by auto
  qed
qed

lemma hang_tables:
  assumes ok: "tree_ok mem root own" and p: "(p, t) \<in> tables mem root" "length p < 3" and i: "i < 512"
    and empty: "read_desc mem t i AND DESC_VALID = 0" and child: "child \<notin> own" "frame_addr child"
  shows "tables (hang mem t i child) root = insert (p @ [i], child) (tables mem root)"
    and "tree_ok (hang mem t i child) root (insert child own)"
    and "length js = 4 \<Longrightarrow> set js \<subseteq> {..<512} \<Longrightarrow> walk_levels (hang mem t i child) root js = walk_levels mem root js"
proof -
  let ?m = "hang mem t i child"
  note h = hang_table [OF assms]
  have nt: "\<not> is_table_desc (read_desc mem t i)" using empty by (simp add: is_table_desc_def)
  have at_p: "table_at mem root p = Some t" using p(1) by (simp add: tables_def)
  have "table_at ?m root p = table_at mem root p"
    using same_table_at [OF h(1), of "[]" p root] p by (simp add: tables_def)
  then have at: "table_at ?m root p = Some t" using at_p by simp
  have at_i: "table_at ?m root (p @ [i]) = Some child"
    using at h(2) table_desc [OF child(2)] by (simp add: table_at_append)
  have under: "table_at ?m root (p @ i # r) = (if r = [] then Some child else None)"
    "table_at mem root (p @ i # r) = None" if "set r \<subseteq> {..<512}" for r
    using that at at_p at_i h nt table_desc [OF child(2)]
    by (cases r; simp add: table_at_append Let_def zero_desc)+
  have "table_at ?m root q = (if q = p @ [i] then Some child else table_at mem root q)"
    if "length q \<le> 3" "set q \<subseteq> {..<512}" for q
  proof (cases "prefix (p @ [i]) q")
    case True
    then obtain r where "q = p @ i # r" by (auto simp: prefix_def)
    with under [of r] that show ?thesis by auto
  next
    case False
    with same_table_at [OF h(1), of "[]" q root] that show ?thesis by (auto simp: tables_def)
  qed
  then show tabs: "tables ?m root = insert (p @ [i], child) (tables mem root)"
    using p i under(2) [of "[]"] by (auto simp: tables_def split: if_splits)
  have "(q, child) \<notin> tables mem root" for q using tree_okD(1) [OF ok] child(1) by blast
  with ok child(2) show "tree_ok ?m root (insert child own)" by (auto simp: tree_ok_def tabs)
  show "walk_levels ?m root js = walk_levels mem root js" if js: "length js = 4" "set js \<subseteq> {..<512}"
  proof (cases "prefix (p @ [i]) js")
    case False
    with same_walk [OF h(1) _ _ root_table [OF p(1)]] js show ?thesis by simp
  next
    case True
    then obtain r' where r': "js = (p @ [i]) @ r'" by (auto simp: prefix_def)
    with js(1) p(2) have "r' \<noteq> []" by auto
    then obtain j r where r: "js = p @ i # j # r" using r' by (cases r') auto
    have "walk_levels mem root js = TFault" using walk_append [OF at_p, of "i # j # r"] empty r by simp
    moreover have "walk_levels ?m child (j # r) = TFault"
      using h(3) [of j] js(2) r by (cases r) (auto simp: zero_desc)
    then have "walk_levels ?m root js = TFault"
      using walk_append [OF at_i, of "j # r"] r by simp
    ultimately show ?thesis by simp
  qed
qed

text \<open>The four indices of an address are its bits 12 to 47.\<close>

lemma and_eq_iff: "a AND m = b AND m \<longleftrightarrow> (\<forall>n. bit m n \<longrightarrow> bit a n = bit b n)" for a b m :: "'a::len word"
proof
  assume "a AND m = b AND m"
  then show "\<forall>n. bit m n \<longrightarrow> bit a n = bit b n" by (metis bit_and_iff)
next
  assume "\<forall>n. bit m n \<longrightarrow> bit a n = bit b n"
  then show "a AND m = b AND m" by (intro bit_word_eqI) (auto simp: bit_and_iff)
qed

lemma bit_index: "va_index shift va = va_index shift va' \<longleftrightarrow> (\<forall>n < 9. bit (drop_bit shift va) n = bit (drop_bit shift va') n)"
proof -
  have m: "(0x1ff :: u64) = mask 9" by (simp add: mask_eq_exp_minus_1)
  have "va_index shift va = va_index shift va' \<longleftrightarrow> drop_bit shift va AND mask 9 = drop_bit shift va' AND mask 9"
    by (simp add: va_index_def m word_unat_eq_iff)
  also have "\<dots> \<longleftrightarrow> (\<forall>n < 9. bit (drop_bit shift va) n = bit (drop_bit shift va') n)"
    by (auto simp: and_eq_iff bit_mask_iff)
  finally show ?thesis .
qed

lemma va_path_eq: "va_path va = va_path va' \<longleftrightarrow> va AND ADDR_MASK = va' AND ADDR_MASK"
proof -
  have split: "(\<forall>n. 12 \<le> n \<and> n < 48 \<longrightarrow> P n) \<longleftrightarrow>
      (\<forall>n < 9. P (39 + n)) \<and> (\<forall>n < 9. P (30 + n)) \<and> (\<forall>n < 9. P (21 + n)) \<and> (\<forall>n < 9. P (12 + n))" for P :: "nat \<Rightarrow> bool"
  proof (intro iffI allI impI)
    fix n :: nat assume h: "(\<forall>n < 9. P (39 + n)) \<and> (\<forall>n < 9. P (30 + n)) \<and> (\<forall>n < 9. P (21 + n)) \<and> (\<forall>n < 9. P (12 + n))"
      and n: "12 \<le> n \<and> n < 48"
    consider "39 \<le> n" | "30 \<le> n" "n < 39" | "21 \<le> n" "n < 30" | "n < 21" by linarith
    then show "P n"
    proof cases
      case 1
      then obtain m where "n = 39 + m" using le_Suc_ex by blast
      with h n show ?thesis by simp
    next
      case 2
      then obtain m where "n = 30 + m" using le_Suc_ex by blast
      with 2 h n show ?thesis by simp
    next
      case 3
      then obtain m where "n = 21 + m" using le_Suc_ex by blast
      with 3 h n show ?thesis by simp
    next
      case 4
      obtain m where "n = 12 + m" using n le_Suc_ex by blast
      with 4 h n show ?thesis by simp
    qed
  qed auto
  have "va AND ADDR_MASK = va' AND ADDR_MASK \<longleftrightarrow> (\<forall>n. 12 \<le> n \<and> n < 48 \<longrightarrow> bit va n = bit va' n)"
    by (simp add: and_eq_iff bit_ADDR_MASK)
  then show ?thesis by (simp add: split va_path_def bit_index bit_drop_bit_eq)
qed

lemma va_path_shape [simp]: "length (va_path va) = 4" "set (va_path va) \<subseteq> {..<512}"
  by (simp_all add: va_path_def)

section \<open>Where tables come from\<close>

text \<open>
  The contract between the page tables and the frame service: an allocation gives a zeroed
  frame nobody owns, and the frames given out do not depend on the bytes of memory.
\<close>

locale frame_source =
  fixes alloc :: frame_alloc
    and inv :: "frame_state \<Rightarrow> u64 set \<Rightarrow> bool"
  assumes alloc_frame: "inv st own \<Longrightarrow> alloc st = (Some f, st') \<Longrightarrow>
      f \<notin> own \<and> frame_addr f \<and> inv st' (insert f own) \<and> fs_mem st' = write_zero (fs_mem st) f PAGE_SIZE"
    and alloc_none: "alloc st = (None, st') \<Longrightarrow> st' = st"
    and inv_mem: "inv st own \<Longrightarrow> inv (st\<lparr>fs_mem := m\<rparr>) own"
begin

text \<open>What growing a tree keeps: all translations, and all owned bytes outside the tree.\<close>

definition grows :: "frame_state \<Rightarrow> u64 set \<Rightarrow> u64 \<Rightarrow> frame_state \<Rightarrow> u64 set \<Rightarrow> bool" where
  "grows st own root st' own' \<longleftrightarrow>
     own \<subseteq> own' \<and> inv st' own' \<and> tree_ok (fs_mem st') root own'
     \<and> (\<forall>js. length js = 4 \<longrightarrow> set js \<subseteq> {..<512} \<longrightarrow>
          walk_levels (fs_mem st') root js = walk_levels (fs_mem st) root js)
     \<and> (\<forall>x. align_down x \<in> own - snd ` tables (fs_mem st) root \<longrightarrow> fs_mem st' x = fs_mem st x)
     \<and> tables (fs_mem st) root \<subseteq> tables (fs_mem st') root
     \<and> snd ` tables (fs_mem st') root \<subseteq> snd ` tables (fs_mem st) root \<union> (own' - own)"

lemma grows_refl: "inv st own \<Longrightarrow> tree_ok (fs_mem st) root own \<Longrightarrow> grows st own root st own"
  by (simp add: grows_def)

lemma growsD:
  assumes "grows st own root st' own'"
  shows "own \<subseteq> own'" and "inv st' own'" and "tree_ok (fs_mem st') root own'"
    and "\<And>js. length js = 4 \<Longrightarrow> set js \<subseteq> {..<512} \<Longrightarrow>
      walk_levels (fs_mem st') root js = walk_levels (fs_mem st) root js"
    and "\<And>x. align_down x \<in> own - snd ` tables (fs_mem st) root \<Longrightarrow> fs_mem st' x = fs_mem st x"
    and "tables (fs_mem st) root \<subseteq> tables (fs_mem st') root"
    and "snd ` tables (fs_mem st') root \<subseteq> snd ` tables (fs_mem st) root \<union> (own' - own)"
  using assms unfolding grows_def by simp_all

lemma new_in_chain: "C \<subseteq> B \<union> (o2 - o1) \<Longrightarrow> B \<subseteq> A \<union> (o1 - o0) \<Longrightarrow> o0 \<subseteq> o1 \<Longrightarrow> o1 \<subseteq> o2 \<Longrightarrow> C \<subseteq> A \<union> (o2 - o0)"
  by blast

lemma grows_trans:
  assumes "grows st own root st1 own1" and "grows st1 own1 root st2 own2"
  shows "grows st own root st2 own2"
proof -
  note a = growsD [OF assms(1)] and b = growsD [OF assms(2)]
  have "fs_mem st2 x = fs_mem st x" if x: "align_down x \<in> own - snd ` tables (fs_mem st) root" for x
  proof -
    have "align_down x \<in> own1 - snd ` tables (fs_mem st1) root" using x a(1,7) by blast
    with b(5) a(5) [OF x] show ?thesis by simp
  qed
  moreover have "snd ` tables (fs_mem st2) root \<subseteq> snd ` tables (fs_mem st) root \<union> (own2 - own)"
    by (rule new_in_chain [OF b(7) a(7) a(1) b(1)])
  moreover have "own \<subseteq> own2" "tables (fs_mem st) root \<subseteq> tables (fs_mem st2) root"
    using a(1,6) b(1,6) by blast+
  ultimately show ?thesis unfolding grows_def using a(4) b(2,3,4) by simp
qed

lemma ensure_table_grows:
  assumes inv: "inv st own" and ok: "tree_ok (fs_mem st) root own"
    and p: "(p, t) \<in> tables (fs_mem st) root" "length p < 3" and i: "i < 512"
    and free: "is_table_desc (read_desc (fs_mem st) t i) \<or> read_desc (fs_mem st) t i AND DESC_VALID = 0"
    and ens: "ensure_table alloc t i st n = (r, st', n')"
  shows "case r of None \<Rightarrow> st' = st
    | Some child \<Rightarrow> \<exists>own'. grows st own root st' own' \<and> (p @ [i], child) \<in> tables (fs_mem st') root"
proof (cases "read_desc (fs_mem st) t i AND DESC_VALID = 0")
  case False
  with free have d: "is_table_desc (read_desc (fs_mem st) t i)" by blast
  from ens False have r: "r = Some (read_desc (fs_mem st) t i AND ADDR_MASK)" "st' = st"
    by (auto simp: ensure_table_def Let_def)
  with tables_snoc [OF p i d] grows_refl [OF inv ok] show ?thesis unfolding r option.case by blast
next
  case empty: True
  show ?thesis
  proof (cases "alloc st")
    case (Pair c st1)
    show ?thesis
    proof (cases c)
      case None
      with ens Pair empty alloc_none show ?thesis by (auto simp: ensure_table_def Let_def)
    next
      case (Some child)
      from alloc_frame [OF inv Pair [unfolded Some]] have fresh: "child \<notin> own" "frame_addr child"
        and inv1: "inv st1 (insert child own)" and mem1: "fs_mem st1 = write_zero (fs_mem st) child PAGE_SIZE"
        by blast+
      from ens Pair Some empty have r: "r = Some child"
        and st': "st' = st1\<lparr>fs_mem := write_desc (fs_mem st1) t i (child OR DESC_VALID OR DESC_TABLE)\<rparr>"
        by (simp_all add: ensure_table_def Let_def)
      have m: "fs_mem st' = hang (fs_mem st) t i child" by (simp add: st' hang_def mem1)
      note h = hang_tables [OF ok p i empty fresh]
      have keep: "hang (fs_mem st) t i child x = fs_mem st x"
        if "align_down x \<in> own - snd ` tables (fs_mem st) root" for x
      proof -
        have "t \<in> snd ` tables (fs_mem st) root" using imageI [OF p(1), of snd] by simp
        then have "align_down x \<noteq> t" and "align_down x \<noteq> child" using that fresh(1) by blast+
        then show ?thesis using tree_okD(2) [OF ok p(1)] i fresh
          by (simp add: hang_def write_desc_elsewhere write_zero_iff)
      qed
      have "inv st' (insert child own)" using inv1 inv_mem by (simp add: st')
      then have "grows st own root st' (insert child own)"
        unfolding grows_def m h(1) using fresh(1) by (simp add: h(2,3) keep subset_insertI)
      moreover have "(p @ [i], child) \<in> tables (fs_mem st') root" by (simp add: m h(1))
      ultimately show ?thesis unfolding r option.case by blast
    qed
  qed
qed

lemma path_free:
  assumes "\<forall>d. walk_levels mem root (p @ i # j # r) \<noteq> TBlock d" and "(p, t) \<in> tables mem root"
  shows "is_table_desc (read_desc mem t i) \<or> read_desc mem t i AND DESC_VALID = 0"
proof -
  have "walk_levels mem root (p @ i # j # r) = walk_levels mem t (i # j # r)"
    using assms(2) by (intro walk_append) (auto simp: tables_def)
  with assms(1) show ?thesis by (auto simp: is_table_desc_def Let_def split: if_splits)
qed

text \<open>One level of the walk down an address.\<close>

lemma ensure_on_path:
  assumes g: "grows st own root st1 own1" and free: "\<forall>d. walk_levels (fs_mem st) root js \<noteq> TBlock d"
    and js: "js = p @ i # j # r" "length js = 4" "set js \<subseteq> {..<512}"
    and p: "(p, t) \<in> tables (fs_mem st1) root"
    and ens: "ensure_table alloc t i st1 n = (c, st2, n')"
  shows "case c of None \<Rightarrow> grows st own root st2 own1
    | Some child \<Rightarrow> \<exists>own2. grows st own root st2 own2 \<and> (p @ [i], child) \<in> tables (fs_mem st2) root"
proof -
  note d = growsD [OF g]
  have "\<forall>d. walk_levels (fs_mem st1) root (p @ i # j # r) \<noteq> TBlock d" using free d(4) [OF js(2,3)] js(1) by simp
  from path_free [OF this p] have "is_table_desc (read_desc (fs_mem st1) t i) \<or> read_desc (fs_mem st1) t i AND DESC_VALID = 0" .
  moreover have "length p < 3" "i < 512" using js by auto
  ultimately have "case c of None \<Rightarrow> st2 = st1
    | Some child \<Rightarrow> \<exists>own2. grows st1 own1 root st2 own2 \<and> (p @ [i], child) \<in> tables (fs_mem st2) root"
    using ensure_table_grows [OF d(2,3) p _ _ _ ens] by blast
  then show ?thesis using g grows_trans [OF g] by (auto split: option.splits)
qed

lemma map_page_grows:
  assumes inv: "inv st own" and ok: "tree_ok (fs_mem st) root own" and root: "root = tagged AND ADDR_MASK"
    and free: "\<forall>d. walk_levels (fs_mem st) root (va_path va) \<noteq> TBlock d"
    and mp: "map_page alloc tagged va pa desc st n = (b, st', n')"
  shows "if b then \<exists>st3 own' l3. grows st own root st3 own'
        \<and> ([va_index 39 va, va_index 30 va, va_index 21 va], l3) \<in> tables (fs_mem st3) root
        \<and> st' = st3\<lparr>fs_mem := write_desc (fs_mem st3) l3 (va_index 12 va) (pa OR desc)\<rparr>
    else \<exists>own'. grows st own root st' own'"
proof -
  let ?i = "va_index 39 va" and ?j = "va_index 30 va" and ?k = "va_index 21 va" and ?l = "va_index 12 va"
  have js: "va_path va = [] @ ?i # ?j # [?k, ?l]" "va_path va = [?i] @ ?j # ?k # [?l]"
    "va_path va = [?i, ?j] @ ?k # ?l # []" by (simp_all add: va_path_def)
  note g0 = grows_refl [OF inv ok]
  have r0: "([], root) \<in> tables (fs_mem st) root" by (simp add: tables_def)
  obtain c1 st1 n1 where e1: "ensure_table alloc root ?i st n = (c1, st1, n1)" by (metis prod_cases3)
  note s1 = ensure_on_path [OF g0 free js(1) va_path_shape r0 e1]
  show ?thesis
  proof (cases c1)
    case None
    with s1 mp e1 root show ?thesis by (auto simp: map_page_def)
  next
    case (Some l1)
    with s1 obtain own1 where g1: "grows st own root st1 own1" and t1: "([?i], l1) \<in> tables (fs_mem st1) root"
      by auto
    obtain c2 st2 n2 where e2: "ensure_table alloc l1 ?j st1 n1 = (c2, st2, n2)" by (metis prod_cases3)
    note s2 = ensure_on_path [OF g1 free js(2) va_path_shape t1 e2]
    show ?thesis
    proof (cases c2)
      case None
      with Some s2 mp e1 e2 root show ?thesis by (auto simp: map_page_def)
    next
      case (Some l2)
      with s2 obtain own2 where g2: "grows st own root st2 own2" and t2: "([?i, ?j], l2) \<in> tables (fs_mem st2) root"
        by auto
      obtain c3 st3 n3 where e3: "ensure_table alloc l2 ?k st2 n2 = (c3, st3, n3)" by (metis prod_cases3)
      note s3 = ensure_on_path [OF g2 free js(3) va_path_shape t2 e3]
      have "map_page alloc tagged va pa desc st n =
          (case c3 of None \<Rightarrow> (False, st3, n3)
           | Some l3 \<Rightarrow> (True, st3\<lparr>fs_mem := write_desc (fs_mem st3) l3 ?l (pa OR desc)\<rparr>, n3))"
        using \<open>c1 = Some l1\<close> Some e1 e2 e3 root by (simp add: map_page_def split: option.split)
      with s3 mp show ?thesis by (auto split: option.splits)
    qed
  qed
qed

lemma map_user_page_walk:
  fixes root :: u64
  defines "r \<equiv> root AND ADDR_MASK"
  assumes inv: "inv st own" and ok: "tree_ok (fs_mem st) r own"
    and leaf: "is_table_desc (pa OR desc)" and free: "\<forall>d. walk (fs_mem st) root va \<noteq> TBlock d"
    and mp: "map_user_page alloc root va pa desc st n = (b, st', n')"
  shows "\<exists>own'. own \<subseteq> own' \<and> inv st' own' \<and> tree_ok (fs_mem st') r own'
    \<and> (\<forall>va'. walk (fs_mem st') root va' =
         (if b \<and> va' AND ADDR_MASK = va AND ADDR_MASK then TPage (pa OR desc) else walk (fs_mem st) root va'))
    \<and> (\<forall>x. align_down x \<in> own - snd ` tables (fs_mem st) r \<longrightarrow> fs_mem st' x = fs_mem st x)
    \<and> snd ` tables (fs_mem st') r \<subseteq> snd ` tables (fs_mem st) r \<union> (own' - own)"
proof -
  have rr: "r = (root AND ADDR_MASK) AND ADDR_MASK" by (simp add: r_def and.assoc)
  have free': "\<forall>d. walk_levels (fs_mem st) r (va_path va) \<noteq> TBlock d" using free by (simp add: walk_def r_def)
  note g = map_page_grows [OF inv ok rr free' mp [unfolded map_user_page_def]]
  show ?thesis
  proof (cases b)
    case False
    with g obtain own' where g': "grows st own r st' own'" by auto
    show ?thesis
      using growsD [OF g'] False by (intro exI [of _ own']) (simp add: walk_def r_def [symmetric])
  next
    case True
    let ?p = "[va_index 39 va, va_index 30 va, va_index 21 va]" and ?i = "va_index 12 va"
    from True g obtain st3 own' l3 where g': "grows st own r st3 own'" and l3: "(?p, l3) \<in> tables (fs_mem st3) r"
      and st': "st' = st3\<lparr>fs_mem := write_desc (fs_mem st3) l3 ?i (pa OR desc)\<rparr>" by auto
    note d = growsD [OF g']
    have three: "length ?p = 3" by simp
    have path: "?p @ [?i] = va_path va" by (simp add: va_path_def)
    note w = leaf_walk [OF d(3) l3 three index_less [of 12 va] va_path_shape, where v = "pa OR desc", unfolded path va_path_eq]
    have walk: "walk (fs_mem st') root va' =
        (if va' AND ADDR_MASK = va AND ADDR_MASK then TPage (pa OR desc) else walk (fs_mem st) root va')" for va'
      using w(1) [of va'] d(4) [OF va_path_shape, of va'] leaf by (simp add: walk_def r_def [symmetric] st')
    have "fs_mem st' x = fs_mem st x" if x: "align_down x \<in> own - snd ` tables (fs_mem st) r" for x
    proof -
      have "l3 \<in> snd ` tables (fs_mem st3) r" using imageI [OF l3, of snd] by simp
      then have "align_down x \<noteq> l3" using x d(7) by blast
      then show ?thesis using d(5) [OF x] tree_okD(2) [OF d(3) l3] by (simp add: st' write_desc_elsewhere)
    qed
    then show ?thesis
      using d(1,7) inv_mem [OF d(2)] w(2,3) walk True by (intro exI [of _ own']) (simp add: st')
  qed
qed

text \<open>A fresh frame is the root of an empty address space.\<close>

lemma fresh_root:
  assumes "inv st own" and "alloc st = (Some f, st')"
  shows "tree_ok (fs_mem st') f (insert f own)" and "walk (fs_mem st') f va = TFault"
    and "tables (fs_mem st') f = {([], f)}"
proof -
  note a = alloc_frame [OF assms]
  have z: "read_desc (fs_mem st') f i = 0" if "i < 512" for i using a that by (simp add: read_zeroed)
  have "table_at (fs_mem st') f p = (if p = [] then Some f else None)" if "set p \<subseteq> {..<512}" for p
    using that z by (cases p) (auto simp: zero_desc)
  then show t: "tables (fs_mem st') f = {([], f)}" by (auto simp: tables_def split: if_splits)
  show "tree_ok (fs_mem st') f (insert f own)" using conjunct1 [OF conjunct2 [OF a]] by (simp add: tree_ok_def t)
  have "f AND ADDR_MASK = f" using a by (simp add: frame_addr_bits)
  then show "walk (fs_mem st') f va = TFault" by (simp add: walk_def va_path_def z zero_desc)
qed

end

text \<open>The frame service fulfils the contract on a memory map below \<open>2^48\<close>.\<close>

definition phys_limit :: "boot_info \<Rightarrow> bool" where
  "phys_limit boot = list_all (\<lambda>r. unat (range_end (mr_range r)) \<le> 2 ^ 48) (bi_mem_regions boot)"

definition service_ok :: "boot_info \<Rightarrow> frame_state \<Rightarrow> u64 set \<Rightarrow> bool" where
  "service_ok boot st own \<longleftrightarrow>
     alignable (bi_mem_regions boot) \<and> phys_limit boot \<and> frames_inv (st, own)
     \<and> list_all frame_addr (fs_free st)"

lemma usable_frame_addr: "f \<in> set (boot_usable boot ex) \<Longrightarrow> phys_limit boot \<Longrightarrow> frame_addr f"
  by (auto simp: boot_usable_def usable_frames_iff phys_limit_def frame_addr_def list_all_iff)

lemma zeroed_frame_origin:
  assumes "alloc_zeroed_frame dev_ok boot st = (Some f, st')" and "alignable (bi_mem_regions boot)"
  shows "f \<in> set (fs_free st) \<union> set (boot_usable boot [])" and "set (fs_free st') \<subseteq> set (fs_free st)"
    and "fs_mem st' = write_zero (fs_mem st) f PAGE_SIZE"
proof -
  let ?reuse = "\<lambda>frame. \<not> frame_in_excluded frame [] \<and> dev_ok (block_of frame) BLOCK_2M
    \<and> normal_identity_block (bi_mem_regions boot) (boot_framebuffer_range boot) (block_of frame)"
  let ?ok = "\<lambda>frame. \<not> (frame < fs_watermark st \<or> \<not> dev_ok frame PAGE_SIZE)
      \<and> normal_identity_block (bi_mem_regions boot) (boot_framebuffer_range boot) (block_of frame)"
  note al = assms(1) [unfolded alloc_zeroed_frame_def alloc_zeroed_frame_excluding_def Let_def]
  show "fs_mem st' = write_zero (fs_mem st) f PAGE_SIZE"
    using al by (auto split: option.splits prod.splits)
  have free: "f \<in> set (fs_free st) \<and> set (fs_free st') \<subseteq> set (fs_free st)"
    if "take_free_frame ?reuse (fs_free st) = Some (g, ys)" for g ys
  proof -
    have "set_mset (mset (fs_free st)) = insert g (set_mset (mset ys))"
      using take_free_scan_spec [of ?reuse "fs_free st" _ g ys] that by (simp add: take_free_frame_def)
    moreover have "f = g" "fs_free st' = ys" using al that by auto
    ultimately show ?thesis by auto
  qed
  have scan: "f \<in> set (boot_usable boot []) \<and> fs_free st' = fs_free st"
    if none: "take_free_frame ?reuse (fs_free st) = None"
  proof -
    note sp = boot_frames_spec [OF assms(2), of "[]"]
    have "scan_frames ?ok (boot_frames boot []) = Some f" and "fs_free st' = fs_free st"
      using al none by (auto split: option.splits)
    moreover from this have "find ?ok (boot_usable boot []) = Some f"
      using scan_frames_find [OF sp(3,2), of ?ok] sp(1) by (simp only:)
    ultimately show ?thesis by (auto simp: find_Some_iff)
  qed
  from free scan show "f \<in> set (fs_free st) \<union> set (boot_usable boot [])" "set (fs_free st') \<subseteq> set (fs_free st)"
    by (cases "take_free_frame ?reuse (fs_free st)"; auto)+
qed

lemma zeroed_frame_none: "alloc_zeroed_frame dev_ok boot st = (None, st') \<Longrightarrow> st' = st"
  by (auto simp: alloc_zeroed_frame_def alloc_zeroed_frame_excluding_def Let_def split: option.splits prod.splits)

interpretation zeroed: frame_source "alloc_zeroed_frame dev_ok boot" "service_ok boot" for dev_ok boot
proof
  fix st own f st'
  assume s: "service_ok boot st own" and al: "alloc_zeroed_frame dev_ok boot st = (Some f, st')"
  then have a: "alignable (bi_mem_regions boot)" and lim: "phys_limit boot" and fi: "frames_inv (st, own)"
    and fr: "list_all frame_addr (fs_free st)" by (simp_all add: service_ok_def)
  note o = zeroed_frame_origin [OF al a]
  have "step_fresh own [f] (st', insert f own)"
    by (rule alloc_zeroed_fresh [OF a fi al [unfolded alloc_zeroed_frame_def]])
  moreover have "frame_addr f" using o(1) fr usable_frame_addr [OF _ lim] by (auto simp: list_all_iff)
  moreover have "list_all frame_addr (fs_free st')" using o(2) fr by (auto simp: list_all_iff)
  ultimately show "f \<notin> own \<and> frame_addr f \<and> service_ok boot st' (insert f own)
      \<and> fs_mem st' = write_zero (fs_mem st) f PAGE_SIZE"
    using a lim o(3) by (simp add: service_ok_def step_fresh_def)
qed (auto simp: service_ok_def frames_inv_def zeroed_frame_none)

end
