(* ===== verification/Engine_Memory.thy ===== *)
theory Engine_Memory
  imports Engine_Dispatch Hal_Page_Table
begin

text \<open>
  The memory arms of the system-call dispatcher (\<open>dispatch_inner\<close> of \<open>kernel/src/syscall.rs\<close>):
  \<open>VmoCreate\<close>, \<open>VmoRead\<close>, \<open>VmoWrite\<close>, \<open>VmarMap\<close>, \<open>VmarUnmap\<close>, \<open>JobSetPolicy\<close>, and what they are made of:
  the memory objects of the engine with their lists of materialised pages, demand allocation,
  the writes into live page tables and the release of the mappings of a dead process.

  The engine is the record of \<open>Engine_State\<close> with the memory objects, the boot information and
  the frame service beside it. Answers of parts that are not modelled are arguments:
  \<open>ram_ok\<close> is what the two device registries say about a span of physical memory and the
  object it is accessed through (\<open>ram_allowed\<close>), \<open>read_only\<close> is \<open>device_mmio_read_only\<close>, \<open>room\<close> and
  \<open>grow\<close> answer for the heap, \<open>dev_ok\<close> for the device filter of the frame service, \<open>prepare\<close> is
  \<open>prepare_vmo\<close> of the device-table pool. A copy from user memory is given by the bytes it reads, a
  copy to user memory by the bytes it stores. Cache maintenance is not observable here.
\<close>

section \<open>Memory objects\<close>

record vmo_entry =
  ve_koid :: ko_id
  ve_vmo :: vmo
  ve_frames :: "u64 option list"

record mem_engine =
  me_engine :: engine
  me_vmos :: "vmo_entry list"
  me_boot :: "boot_info option"
  me_frames :: frame_state

type_synonym ram_filter = "u64 \<Rightarrow> u64 \<Rightarrow> ko_id option \<Rightarrow> bool"

definition vmo_entry_by_koid :: "mem_engine \<Rightarrow> ko_id \<Rightarrow> vmo_entry option" where
  "vmo_entry_by_koid me koid = find (\<lambda>entry. ve_koid entry = koid) (me_vmos me)"

definition vmo_by_koid :: "mem_engine \<Rightarrow> ko_id \<Rightarrow> vmo option" where
  "vmo_by_koid me koid = map_option ve_vmo (find (\<lambda>entry. ve_koid entry = koid) (me_vmos me))"

text \<open>\<open>frames.get(i).copied().flatten()\<close>, and the write through \<open>RefCell\<close> to the entry found.\<close>

definition frame_of :: "u64 option list \<Rightarrow> nat \<Rightarrow> u64 option" where
  "frame_of frames i = (if i < length frames then frames ! i else None)"

definition set_vmo_frames :: "mem_engine \<Rightarrow> ko_id \<Rightarrow> u64 option list \<Rightarrow> mem_engine" where
  "set_vmo_frames me koid frames =
     (case find_index (\<lambda>entry. ve_koid entry = koid) (me_vmos me) of
        None \<Rightarrow> me
      | Some i \<Rightarrow> me\<lparr>me_vmos := (me_vmos me)[i := (me_vmos me ! i)\<lparr>ve_frames := frames\<rparr>]\<rparr>)"

section \<open>Access to physical memory\<close>

fun backing_base :: "vmo_backing \<Rightarrow> u64 option" where
  "backing_base Anonymous = None"
| "backing_base DmaPaged = None"
| "backing_base (PhysicalRam phys_base) = Some phys_base"
| "backing_base (MmioBacking phys_base) = Some phys_base"
| "backing_base (Dma phys_base) = Some phys_base"

definition is_coarse :: "vmo_backing \<Rightarrow> bool" where
  "is_coarse b = (case b of MmioBacking _ \<Rightarrow> True | Dma _ \<Rightarrow> True | _ \<Rightarrow> False)"

definition dma_pages_allowed ::
  "ram_filter \<Rightarrow> vmo \<Rightarrow> u64 \<Rightarrow> u64 \<Rightarrow> bool \<Rightarrow> vmo_entry option \<Rightarrow> bool" where
  "dma_pages_allowed ram_ok v offset len coarse authorized =
     (case authorized of
        None \<Rightarrow> True
      | Some entry \<Rightarrow>
          (case checked_add offset len of
             None \<Rightarrow> False
           | Some e \<Rightarrow>
               if vmo_len v < e then False
               else if len = 0 then True
               else list_all
                      (\<lambda>i. case frame_of (ve_frames entry) i of
                             None \<Rightarrow> False
                           | Some page \<Rightarrow>
                               if coarse then ram_ok (page AND NOT (BLOCK_2M - 1)) BLOCK_2M (Some (ve_koid entry))
                               else ram_ok page PAGE_SIZE (Some (ve_koid entry)))
                      [unat (offset div PAGE_SIZE)..<Suc (unat ((e - 1) div PAGE_SIZE))]))"

definition vmo_span_allowed ::
  "ram_filter \<Rightarrow> vmo \<Rightarrow> u64 \<Rightarrow> u64 \<Rightarrow> bool \<Rightarrow> vmo_entry option \<Rightarrow> bool" where
  "vmo_span_allowed ram_ok v offset len coarse authorized =
     (if vmo_backing v = Anonymous then True
      else if vmo_backing v = DmaPaged then dma_pages_allowed ram_ok v offset len coarse authorized
      else case backing_base (vmo_backing v) of
             None \<Rightarrow> True
           | Some base \<Rightarrow>
               (case checked_add base offset of
                  None \<Rightarrow> False
                | Some start \<Rightarrow>
                    (case checked_add start len of
                       None \<Rightarrow> False
                     | Some e \<Rightarrow>
                         if coarse \<and> is_coarse (vmo_backing v)
                         then (case checked_add e (BLOCK_2M - 1) of
                                 None \<Rightarrow> False
                               | Some e2 \<Rightarrow>
                                   let s' = start AND NOT (BLOCK_2M - 1); e' = e2 AND NOT (BLOCK_2M - 1)
                                   in ram_ok s' (e' - s') (map_option ve_koid authorized))
                         else ram_ok start (e - start) (map_option ve_koid authorized))))"

definition physical_access_allowed :: "ram_filter \<Rightarrow> vmo_entry \<Rightarrow> u64 \<Rightarrow> u64 \<Rightarrow> bool \<Rightarrow> bool" where
  "physical_access_allowed ram_ok entry offset len coarse =
     vmo_span_allowed ram_ok (ve_vmo entry) offset len coarse (Some entry)"

definition physical_vmo_write_allowed :: "(u64 \<Rightarrow> u64 \<Rightarrow> bool) \<Rightarrow> vmo \<Rightarrow> u64 \<Rightarrow> u64 \<Rightarrow> bool" where
  "physical_vmo_write_allowed read_only v offset len =
     (case backing_base (vmo_backing v) of
        None \<Rightarrow> True
      | Some phys_base \<Rightarrow>
          (case checked_add phys_base offset of None \<Rightarrow> False | Some base \<Rightarrow> \<not> read_only base len))"

definition read_phys :: "phys_mem \<Rightarrow> u64 \<Rightarrow> nat \<Rightarrow> u8 list" where
  "read_phys mem addr n = map (\<lambda>k. mem (addr + of_nat k)) [0..<n]"

definition write_phys :: "phys_mem \<Rightarrow> u64 \<Rightarrow> u8 list \<Rightarrow> phys_mem" where
  "write_phys mem addr bs = (\<lambda>x. let k = unat (x - addr) in if k < length bs then bs ! k else mem x)"

section \<open>Pages on demand\<close>

definition alloc_anonymous_frame :: "dev_filter \<Rightarrow> boot_info \<Rightarrow> frame_state \<Rightarrow> (errno + u64) \<times> frame_state" where
  "alloc_anonymous_frame dev_ok boot st =
     (case alloc_zeroed_frame dev_ok boot st of
        (None, st') \<Rightarrow> (Inl E_NoMemory, st')
      | (Some frame, st') \<Rightarrow> (Inr frame, st'))"

text \<open>The allocation leaves the list of pages alone, so the second look at it finds no page either.\<close>

definition ensure_vmo_frame ::
  "bool \<Rightarrow> (frame_state \<Rightarrow> (errno + u64) \<times> frame_state) \<Rightarrow> u64 option list \<Rightarrow> nat \<Rightarrow> frame_state
     \<Rightarrow> (errno + u64) \<times> u64 option list \<times> frame_state" where
  "ensure_vmo_frame room allocate frames0 page_index st =
     (if length frames0 \<le> page_index \<and> \<not> room then (Inl E_NoMemory, frames0, st)
      else
        let frames = frames0 @ replicate (page_index + 1 - length frames0) None in
        case frames ! page_index of
          Some frame \<Rightarrow> (Inr frame, frames, st)
        | None \<Rightarrow>
            (case allocate st of
               (Inl e, st') \<Rightarrow> (Inl e, frames, st')
             | (Inr frame, st') \<Rightarrow> (Inr frame, frames[page_index := Some frame], st')))"

definition ensure_anonymous_frame ::
  "(nat \<Rightarrow> bool) \<Rightarrow> dev_filter \<Rightarrow> boot_info \<Rightarrow> vmo \<Rightarrow> u64 option list \<Rightarrow> nat \<Rightarrow> frame_state
     \<Rightarrow> (errno + u64) \<times> u64 option list \<times> frame_state" where
  "ensure_anonymous_frame room dev_ok boot v frames page_index st =
     (if vmo_backing v = DmaPaged
      then (case frame_of frames page_index of None \<Rightarrow> Inl E_BadState | Some frame \<Rightarrow> Inr frame, frames, st)
      else ensure_vmo_frame (room page_index) (alloc_anonymous_frame dev_ok boot) frames page_index st)"

section \<open>Reading and writing memory objects\<close>

text \<open>The loops over pages; \<open>pos\<close> is \<open>offset + copied\<close>, which the bounds check keeps in range.\<close>

function vmo_read_loop :: "phys_mem \<Rightarrow> u64 option list \<Rightarrow> nat \<Rightarrow> nat \<Rightarrow> u8 list" where
  "vmo_read_loop mem frames pos left =
     (if left = 0 then []
      else
        let page_index = pos div 4096; page_off = pos mod 4096; chunk = min left (4096 - page_off) in
        (case frame_of frames page_index of
           Some frame \<Rightarrow> read_phys mem (frame + of_nat page_off) chunk
         | None \<Rightarrow> replicate chunk 0)
        @ vmo_read_loop mem frames (pos + chunk) (left - chunk))"
  by pat_completeness auto
termination
  by (relation "measure (\<lambda>(mem, frames, pos, left). left)") auto

declare vmo_read_loop.simps [simp del]

definition dispatch_vmo_read ::
  "ram_filter \<Rightarrow> mem_engine \<Rightarrow> handle_table \<Rightarrow> handle \<Rightarrow> u64 \<Rightarrow> u64 \<Rightarrow> kernel_call_result \<times> u8 list" where
  "dispatch_vmo_read ram_ok me t vmo_h offset len =
     (case require t vmo_h Vmo RIGHT_READ of
        Inl e \<Rightarrow> (status_of (errno_from_object e), [])
      | Inr handle_entry \<Rightarrow>
          (case vmo_entry_by_koid me (he_koid handle_entry) of
             None \<Rightarrow> (status_of E_BadHandle, [])
           | Some entry \<Rightarrow>
               if checked_add offset len = None \<or> vmo_len (ve_vmo entry) < saturating_add offset len
               then (status_of E_InvalidArgs, [])
               else if \<not> physical_access_allowed ram_ok entry offset len False then (status_of E_AccessDenied, [])
               else case backing_base (vmo_backing (ve_vmo entry)) of
                      Some phys_base \<Rightarrow>
                        (status_of E_Ok, read_phys (fs_mem (me_frames me)) (phys_base + offset) (unat len))
                    | None \<Rightarrow>
                        (status_of E_Ok,
                         vmo_read_loop (fs_mem (me_frames me)) (ve_frames entry) (unat offset) (unat len))))"

function vmo_write_loop ::
  "(u64 option list \<Rightarrow> nat \<Rightarrow> frame_state \<Rightarrow> (errno + u64) \<times> u64 option list \<times> frame_state)
     \<Rightarrow> u64 option list \<Rightarrow> nat \<Rightarrow> u8 list \<Rightarrow> frame_state \<Rightarrow> errno \<times> u64 option list \<times> frame_state" where
  "vmo_write_loop ensure frames pos src st =
     (if src = [] then (E_Ok, frames, st)
      else
        let page_index = pos div 4096; page_off = pos mod 4096; chunk = min (length src) (4096 - page_off) in
        case ensure frames page_index st of
          (Inl e, frames', st') \<Rightarrow> (e, frames', st')
        | (Inr frame, frames', st') \<Rightarrow>
            vmo_write_loop ensure frames' (pos + chunk) (drop chunk src)
              (st'\<lparr>fs_mem := write_phys (fs_mem st') (frame + of_nat page_off) (take chunk src)\<rparr>))"
  by pat_completeness auto
termination
  by (relation "measure (\<lambda>(ensure, frames, pos, src, st). length src)") (auto simp: min_def)

declare vmo_write_loop.simps [simp del]

definition dispatch_vmo_write ::
  "ram_filter \<Rightarrow> (u64 \<Rightarrow> u64 \<Rightarrow> bool) \<Rightarrow> (nat \<Rightarrow> bool) \<Rightarrow> dev_filter \<Rightarrow> mem_engine \<Rightarrow> handle_table \<Rightarrow> handle \<Rightarrow> u64 \<Rightarrow> u8 list
     \<Rightarrow> kernel_call_result \<times> mem_engine" where
  "dispatch_vmo_write ram_ok read_only room dev_ok me t vmo_h offset src =
     (let len = of_nat (length src) in
      case require t vmo_h Vmo RIGHT_WRITE of
        Inl e \<Rightarrow> (status_of (errno_from_object e), me)
      | Inr handle_entry \<Rightarrow>
          (case vmo_entry_by_koid me (he_koid handle_entry) of
             None \<Rightarrow> (status_of E_BadHandle, me)
           | Some entry \<Rightarrow>
               if checked_add offset len = None \<or> vmo_len (ve_vmo entry) < saturating_add offset len
               then (status_of E_InvalidArgs, me)
               else if \<not> physical_vmo_write_allowed read_only (ve_vmo entry) offset len
               then (status_of E_AccessDenied, me)
               else if \<not> physical_access_allowed ram_ok entry offset len False then (status_of E_AccessDenied, me)
               else case backing_base (vmo_backing (ve_vmo entry)) of
                      Some phys_base \<Rightarrow>
                        (status_of E_Ok,
                         me\<lparr>me_frames := (me_frames me)\<lparr>fs_mem :=
                             write_phys (fs_mem (me_frames me)) (phys_base + offset) src\<rparr>\<rparr>)
                    | None \<Rightarrow>
                        (case me_boot me of
                           None \<Rightarrow> (status_of E_Internal, me)
                         | Some boot \<Rightarrow>
                             (case vmo_write_loop (ensure_anonymous_frame room dev_ok boot (ve_vmo entry))
                                     (ve_frames entry) (unat offset) src (me_frames me) of
                                (status, frames, st) \<Rightarrow>
                                  (status_of status,
                                   set_vmo_frames (me\<lparr>me_frames := st\<rparr>) (he_koid handle_entry) frames)))))"

definition root_vmo_create ::
  "ram_filter \<Rightarrow> (vmo \<Rightarrow> object_error + unit) \<Rightarrow> bool \<Rightarrow> (handle_table \<Rightarrow> bool) \<Rightarrow> mem_engine \<Rightarrow> handle_table
     \<Rightarrow> vmo \<Rightarrow> rights \<Rightarrow> (object_error + handle) \<times> mem_engine \<times> handle_table" where
  "root_vmo_create ram_ok prepare room grow me t v rs =
     (if \<not> vmo_span_allowed ram_ok v 0 (vmo_len v) True None then (Inl OE_AccessDenied, me, t)
      else case prepare v of
        Inl e \<Rightarrow> (Inl e, me, t)
      | Inr _ \<Rightarrow>
      if \<not> room then (Inl OE_TableFull, me, t)
      else case create (en_objects (me_engine me)) Vmo of (ob, objects) \<Rightarrow>
        (let me1 = me\<lparr>me_engine := (me_engine me)\<lparr>en_objects := objects\<rparr>\<rparr> in
         case table_insert grow t ob rs of
           (Inl e, t') \<Rightarrow> (Inl e, me1, t')
         | (Inr h, t') \<Rightarrow>
             (Inr h,
              me1\<lparr>me_vmos := me_vmos me @ [\<lparr>ve_koid = ko_koid ob, ve_vmo = v, ve_frames = []\<rparr>]\<rparr>, t')))"

definition dispatch_vmo_create ::
  "ram_filter \<Rightarrow> (vmo \<Rightarrow> object_error + unit) \<Rightarrow> bool \<Rightarrow> (handle_table \<Rightarrow> bool) \<Rightarrow> mem_engine \<Rightarrow> handle_table
     \<Rightarrow> u64 \<Rightarrow> kernel_call_result \<times> mem_engine \<times> handle_table" where
  "dispatch_vmo_create ram_ok prepare room grow me t sz =
     (case vmo_new sz of
        Inl _ \<Rightarrow> (status_of E_InvalidArgs, me, t)
      | Inr v \<Rightarrow>
          (case root_vmo_create ram_ok prepare room grow me t v
                  (RIGHT_READ OR RIGHT_WRITE OR RIGHT_DUPLICATE OR RIGHT_TRANSFER) of
             (Inr h, me', t') \<Rightarrow> (KR_Handle h, me', t')
           | (Inl e, me', t') \<Rightarrow> (status_of (errno_from_object e), me', t')))"

section \<open>Address spaces\<close>

definition PAGE_UNCACHED :: page_flags where "PAGE_UNCACHED = 32"

text \<open>The leaf attributes for a mapping, and whether its pages come from the list of the object.\<close>

definition live_desc :: "vmo_backing \<Rightarrow> page_flags \<Rightarrow> errno + u64 \<times> bool" where
  "live_desc backing flags =
     (let executable = page_flags_contains flags PAGE_EXECUTE;
          writable = page_flags_contains flags PAGE_WRITE \<and> \<not> executable;
          device = page_flags_contains flags PAGE_DEVICE;
          uncached = page_flags_contains flags PAGE_UNCACHED
      in case backing of
           PhysicalRam _ \<Rightarrow>
             if device \<or> uncached then Inl E_InvalidArgs else Inr (user_page_desc executable writable, False)
         | MmioBacking _ \<Rightarrow>
             if executable then Inl E_InvalidArgs
             else Inr (if uncached then user_nc_page_desc writable else user_device_page_desc writable, False)
         | Dma _ \<Rightarrow>
             if device \<or> executable then Inl E_InvalidArgs
             else Inr (if uncached then user_nc_page_desc writable else user_page_desc False writable, False)
         | DmaPaged \<Rightarrow>
             if device \<or> executable then Inl E_InvalidArgs
             else Inr (if uncached then user_nc_page_desc writable else user_page_desc False writable, True)
         | Anonymous \<Rightarrow>
             if device \<or> uncached then Inl E_InvalidArgs else Inr (user_page_desc executable writable, True))"

fun live_pages ::
  "(nat \<Rightarrow> bool) \<Rightarrow> dev_filter \<Rightarrow> boot_info \<Rightarrow> u64 \<Rightarrow> mapping \<Rightarrow> vmo \<Rightarrow> u64 \<Rightarrow> bool \<Rightarrow> nat list
     \<Rightarrow> u64 option list \<Rightarrow> frame_state \<Rightarrow> nat \<Rightarrow> (errno + unit) \<times> u64 option list \<times> frame_state" where
  "live_pages room dev_ok boot ttbr0 m v desc on_demand [] frames st used = (Inr (), frames, st)"
| "live_pages room dev_ok boot ttbr0 m v desc on_demand (page # rest) frames st used =
     (let off = of_nat page * PAGE_SIZE;
          va = mp_virt m + off
      in case (if on_demand
               then ensure_anonymous_frame room dev_ok boot v frames
                      (unat ((mp_vmo_offset m + off) div PAGE_SIZE)) st
               else (Inr ((case backing_base (vmo_backing v) of None \<Rightarrow> 0 | Some b \<Rightarrow> b) + mp_vmo_offset m + off),
                     frames, st)) of
           (Inl e, frames', st') \<Rightarrow> (Inl e, frames', st')
         | (Inr pa, frames', st') \<Rightarrow>
             (case map_user_page (alloc_zeroed_frame dev_ok boot) ttbr0 va pa desc st' used of
                (False, st'', _) \<Rightarrow> (Inl E_NoMemory, frames', st'')
              | (True, st'', used') \<Rightarrow>
                  live_pages room dev_ok boot ttbr0 m v desc on_demand rest frames' st'' used'))"

definition apply_to_live_tree ::
  "ram_filter \<Rightarrow> (nat \<Rightarrow> bool) \<Rightarrow> dev_filter \<Rightarrow> mem_engine \<Rightarrow> u64 \<Rightarrow> mapping \<Rightarrow> ko_id
     \<Rightarrow> (errno + unit) \<times> mem_engine" where
  "apply_to_live_tree ram_ok room dev_ok me ttbr0 m vmo_koid =
     (case me_boot me of
        None \<Rightarrow> (Inl E_Internal, me)
      | Some boot \<Rightarrow>
          if page_flags_contains (mp_flags m) PAGE_DEVICE \<and> page_flags_contains (mp_flags m) PAGE_UNCACHED
          then (Inl E_InvalidArgs, me)
          else case vmo_entry_by_koid me vmo_koid of
            None \<Rightarrow> (Inl E_BadHandle, me)
          | Some entry \<Rightarrow>
              if \<not> physical_access_allowed ram_ok entry (mp_vmo_offset m) (mp_len m) True
              then (Inl E_AccessDenied, me)
              else case live_desc (vmo_backing (ve_vmo entry)) (mp_flags m) of
                Inl e \<Rightarrow> (Inl e, me)
              | Inr (desc, on_demand) \<Rightarrow>
                  if mp_len m mod PAGE_SIZE \<noteq> 0 then (Inl E_InvalidArgs, me)
                  else case live_pages room dev_ok boot ttbr0 m (ve_vmo entry) desc on_demand
                              [0..<unat (mp_len m div PAGE_SIZE)] (ve_frames entry) (me_frames me) 0 of
                         (r, frames, st) \<Rightarrow> (r, set_vmo_frames (me\<lparr>me_frames := st\<rparr>) vmo_koid frames))"

definition clear_from_live_tree :: "mem_engine \<Rightarrow> u64 \<Rightarrow> mapping \<Rightarrow> (errno + unit) \<times> mem_engine" where
  "clear_from_live_tree me ttbr0 m =
     (case unmap_user_span (fs_mem (me_frames me)) ttbr0 (mp_virt m) (mp_len m) of
        (False, mem, _) \<Rightarrow> (Inl E_InvalidArgs, me\<lparr>me_frames := (me_frames me)\<lparr>fs_mem := mem\<rparr>\<rparr>)
      | (True, mem, _) \<Rightarrow> (Inr (), me\<lparr>me_frames := (me_frames me)\<lparr>fs_mem := mem\<rparr>\<rparr>))"

text \<open>\<open>process_by_koid_mut\<close>: the slot of a process, written back.\<close>

definition set_process :: "engine \<Rightarrow> process \<Rightarrow> engine" where
  "set_process en p =
     (case find_index (\<lambda>s. case s of None \<Rightarrow> False | Some q \<Rightarrow> process_koid q = process_koid p) (en_processes en) of
        None \<Rightarrow> en
      | Some i \<Rightarrow> en\<lparr>en_processes := (en_processes en)[i := Some p]\<rparr>)"

text \<open>The self-map after the checks on the memory object.\<close>

definition vmar_map_self ::
  "ram_filter \<Rightarrow> (nat \<Rightarrow> bool) \<Rightarrow> dev_filter \<Rightarrow> mem_engine \<Rightarrow> process \<Rightarrow> ko_id \<Rightarrow> vmo \<Rightarrow> u64 \<Rightarrow> u64 \<Rightarrow> u64
     \<Rightarrow> page_flags \<Rightarrow> kernel_call_result \<times> mem_engine \<times> process" where
  "vmar_map_self ram_ok room dev_ok me p vmo_koid v vmo_offset virt0 len flags =
     (case (if virt0 = 0 then find_free_span p len PAGE_SIZE else Some virt0) of
        None \<Rightarrow> (status_of E_NoMemory, me, p)
      | Some virt \<Rightarrow>
          (case vmar_map (pr_root_vmar p) v vmo_offset virt len flags of
             Inl _ \<Rightarrow> (KR_StatusAndValue (errno_status E_InvalidArgs) virt, me, p)
           | Inr m \<Rightarrow>
               if \<not> user_range_is_free p (mp_virt m) (mp_len m) then (status_of E_InvalidArgs, me, p)
               else
                 let p' = add_mapping p m vmo_koid in
                 case pr_ttbr0 p' of
                   None \<Rightarrow> (KR_StatusAndValue (errno_status E_Ok) virt, me, p')
                 | Some ttbr0 \<Rightarrow>
                     (case apply_to_live_tree ram_ok room dev_ok me ttbr0 m vmo_koid of
                        (Inl e, me') \<Rightarrow> (status_of e, me', p')
                      | (Inr _, me') \<Rightarrow> (KR_StatusAndValue (errno_status E_Ok) virt, me', p'))))"

definition vmar_map_target ::
  "ram_filter \<Rightarrow> (nat \<Rightarrow> bool) \<Rightarrow> dev_filter \<Rightarrow> mem_engine \<Rightarrow> handle_table \<Rightarrow> handle \<Rightarrow> ko_id \<Rightarrow> vmo \<Rightarrow> u64 \<Rightarrow> u64
     \<Rightarrow> u64 \<Rightarrow> page_flags \<Rightarrow> kernel_call_result \<times> mem_engine" where
  "vmar_map_target ram_ok room dev_ok me t process_handle vmo_koid v vmo_offset virt len flags =
     (case require t process_handle Process RIGHT_WRITE of
        Inl e \<Rightarrow> (status_of (errno_from_object e), me)
      | Inr entry \<Rightarrow>
          (case process_by_koid (me_engine me) (he_koid entry) of
             None \<Rightarrow> (status_of E_BadHandle, me)
           | Some target \<Rightarrow>
               (case vmar_map (pr_root_vmar target) v vmo_offset virt len flags of
                  Inl _ \<Rightarrow> (status_of E_InvalidArgs, me)
                | Inr m \<Rightarrow>
                    if \<not> user_range_is_free target (mp_virt m) (mp_len m) then (status_of E_InvalidArgs, me)
                    else
                      let me1 = me\<lparr>me_engine := set_process (me_engine me) (add_mapping target m vmo_koid)\<rparr> in
                      case pr_ttbr0 target of
                        None \<Rightarrow> (status_of E_Ok, me1)
                      | Some ttbr0 \<Rightarrow>
                          (case apply_to_live_tree ram_ok room dev_ok me1 ttbr0 m vmo_koid of
                             (Inl e, me2) \<Rightarrow> (status_of e, me2)
                           | (Inr _, me2) \<Rightarrow> (status_of E_Ok, me2)))))"

definition dispatch_vmar_map ::
  "ram_filter \<Rightarrow> (u64 \<Rightarrow> u64 \<Rightarrow> bool) \<Rightarrow> (nat \<Rightarrow> bool) \<Rightarrow> dev_filter \<Rightarrow> mem_engine \<Rightarrow> process \<Rightarrow> handle \<Rightarrow> handle
     \<Rightarrow> u64 \<Rightarrow> u64 \<Rightarrow> u64 \<Rightarrow> page_flags \<Rightarrow> kernel_call_result \<times> mem_engine \<times> process" where
  "dispatch_vmar_map ram_ok read_only room dev_ok me p process_handle vmo_handle vmo_offset virt len flags =
     (let needed = (if page_flags_contains flags PAGE_WRITE then RIGHT_READ OR RIGHT_WRITE else RIGHT_READ) in
      case require (pr_handles p) vmo_handle Vmo needed of
        Inl e \<Rightarrow> (status_of (errno_from_object e), me, p)
      | Inr entry \<Rightarrow>
          (case vmo_by_koid me (he_koid entry) of
             None \<Rightarrow> (status_of E_BadHandle, me, p)
           | Some v \<Rightarrow>
               if \<not> (case vmo_entry_by_koid me (he_koid entry) of
                       None \<Rightarrow> False
                     | Some ve \<Rightarrow> physical_access_allowed ram_ok ve vmo_offset len True)
               then (status_of E_AccessDenied, me, p)
               else if page_flags_contains flags PAGE_WRITE
                       \<and> \<not> physical_vmo_write_allowed read_only v vmo_offset len
               then (status_of E_AccessDenied, me, p)
               else if process_handle = INVALID_HANDLE
               then vmar_map_self ram_ok room dev_ok me p (he_koid entry) v vmo_offset virt len flags
               else case vmar_map_target ram_ok room dev_ok me (pr_handles p) process_handle (he_koid entry) v
                           vmo_offset virt len flags of
                      (r, me') \<Rightarrow> (r, me', p)))"

definition dispatch_vmar_unmap ::
  "mem_engine \<Rightarrow> process \<Rightarrow> handle \<Rightarrow> u64 \<Rightarrow> u64 \<Rightarrow> kernel_call_result \<times> mem_engine \<times> process" where
  "dispatch_vmar_unmap me p process_handle virt len =
     (if process_handle \<noteq> INVALID_HANDLE then (status_of E_NotSupported, me, p)
      else case mapping_exact p virt len of
        None \<Rightarrow> (status_of E_InvalidArgs, me, p)
      | Some (m, _) \<Rightarrow>
          (case (case pr_ttbr0 p of
                   None \<Rightarrow> (Inr (), me)
                 | Some ttbr0 \<Rightarrow> clear_from_live_tree me ttbr0 m) of
             (Inl e, me') \<Rightarrow> (status_of e, me', p)
           | (Inr _, me') \<Rightarrow> (status_of E_Ok, me', snd (remove_mapping_exact p virt len))))"

text \<open>The mappings of a dead process are released from the last to the first.\<close>

fun release_loop ::
  "nat \<Rightarrow> mem_engine \<Rightarrow> process \<Rightarrow> nat \<Rightarrow> nat \<Rightarrow> (nat \<times> nat) \<times> mem_engine \<times> process" where
  "release_loop 0 me p released kept = ((released, kept), me, p)"
| "release_loop (Suc at) me p released kept =
     (let m = fst (pr_mappings p ! at) in
      case (case pr_ttbr0 p of
              None \<Rightarrow> (Inr (), me)
            | Some ttbr0 \<Rightarrow> clear_from_live_tree me ttbr0 m) of
        (Inr _, me') \<Rightarrow>
          release_loop at me' (snd (remove_mapping_exact p (mp_virt m) (mp_len m))) (released + 1) kept
      | (Inl _, me') \<Rightarrow> release_loop at me' p released (kept + 1))"

definition release_process_mappings :: "mem_engine \<Rightarrow> ko_id \<Rightarrow> (nat \<times> nat) \<times> mem_engine" where
  "release_process_mappings me koid =
     (case process_by_koid (me_engine me) koid of
        None \<Rightarrow> ((0, 0), me)
      | Some p \<Rightarrow>
          (case release_loop (length (pr_mappings p)) me p 0 0 of
             (counts, me', p') \<Rightarrow> (counts, me'\<lparr>me_engine := set_process (me_engine me') p'\<rparr>)))"

text \<open>
  \<open>JobSetPolicy\<close>: \<open>live\<close> is the number of resident threads and \<open>installed\<close> the answer of the thread
  front end to the new limit.
\<close>

definition dispatch_job_set_policy ::
  "u32 \<Rightarrow> (u32 \<Rightarrow> bool) \<Rightarrow> process \<Rightarrow> handle \<Rightarrow> u64 \<Rightarrow> kernel_call_result" where
  "dispatch_job_set_policy live installed p job_h limit =
     (case require (pr_handles p) job_h Job RIGHT_MANAGE of
        Inl e \<Rightarrow> status_of (errno_from_object e)
      | Inr entry \<Rightarrow>
          if he_koid entry \<noteq> pr_job p then status_of E_AccessDenied
          else if 2 ^ 32 \<le> unat limit then status_of E_InvalidArgs
          else case validate_resident_limit (ucast limit) live of
                 Inl e \<Rightarrow> status_of e
               | Inr _ \<Rightarrow> if installed (ucast limit) then status_of E_Ok else status_of E_BadState)"

end
