(* ===== verification/Hal_Address_Space.thy ===== *)
theory Hal_Address_Space
  imports Hal_Page_Table
begin

text \<open>
  What the page-table operations of \<open>Hal_Page_Table\<close> do to address spaces: mapping and
  unmapping change exactly the translations they name, address spaces do not disturb each
  other, and user pages are never both writable and executable. One theorem shows what
  inserting a page below a block does.
\<close>

section \<open>Removal\<close>

definition leaf_table :: "u64 \<Rightarrow> u64 \<Rightarrow> phys_mem \<Rightarrow> u64 \<Rightarrow> bool" where
  "leaf_table r at mem t \<longleftrightarrow> ([va_index 39 at, va_index 30 at, va_index 21 at], t) \<in> tables mem r"

lemma clear_page_leaf:
  assumes "leaf_table r at mem t"
  shows "clear_page r at mem = write_desc mem t (va_index 12 at) 0"
  using assms by (auto simp: leaf_table_def tables_def clear_page_def Let_def split: if_splits)

lemma preflight_walk: "preflight_page mem r at \<longleftrightarrow> (\<exists>d. walk_levels mem r (va_path at) = TPage d)"
  by (auto simp: preflight_page_def va_path_def Let_def is_table_desc_def)

lemma preflight_leaf: "preflight_page mem r at \<Longrightarrow> \<exists>t. leaf_table r at mem t"
  by (auto simp: preflight_page_def leaf_table_def tables_def Let_def split: if_splits)

lemma clear_span:
  assumes "tree_ok mem r own" and "\<forall>at \<in> set ats. \<exists>t. leaf_table r at mem t"
  shows "tables (fold (clear_page r) ats mem) r = tables mem r
    \<and> tree_ok (fold (clear_page r) ats mem) r own
    \<and> (\<forall>js. length js = 4 \<longrightarrow> set js \<subseteq> {..<512} \<longrightarrow>
         walk_levels (fold (clear_page r) ats mem) r js =
           (if js \<in> va_path ` set ats then TFault else walk_levels mem r js))
    \<and> (\<forall>x. align_down x \<notin> snd ` tables mem r \<longrightarrow> fold (clear_page r) ats mem x = mem x)"
  using assms
proof (induction ats arbitrary: mem)
  case (Cons at ats)
  then obtain t where t: "leaf_table r at mem t" by auto
  let ?p = "[va_index 39 at, va_index 30 at, va_index 21 at]" and ?m = "clear_page r at mem"
  have p: "(?p, t) \<in> tables mem r" "length ?p = 3" using t by (simp_all add: leaf_table_def)
  have path: "?p @ [va_index 12 at] = va_path at" by (simp add: va_path_def)
  note w = leaf_walk [OF Cons.prems(1) p index_less [of 12 at], where v = 0, unfolded path,
      folded clear_page_leaf [OF t]]
  have tab: "tables ?m r = tables mem r" and ok: "tree_ok ?m r own"
    using w(2,3) [OF va_path_shape] by simp_all
  have "\<forall>at' \<in> set ats. \<exists>t'. leaf_table r at' ?m t'"
    using Cons.prems(2) tab by (simp add: leaf_table_def)
  note IH = Cons.IH [OF ok this]
  have "t \<in> snd ` tables mem r" using imageI [OF p(1), of snd] by simp
  then have "?m x = mem x" if "align_down x \<notin> snd ` tables mem r" for x
    using that tree_okD(2) [OF Cons.prems(1) p(1)]
    by (auto simp: clear_page_leaf [OF t] intro!: write_desc_elsewhere)
  with IH tab w(1) show ?case by (simp add: zero_desc)
qed simp

section \<open>Other address spaces\<close>

lemma other_tree:
  assumes ok: "tree_ok mem r' own" and same: "\<And>x. align_down x \<in> own - T \<Longrightarrow> mem' x = mem x"
    and apart: "snd ` tables mem r' \<inter> T = {}"
  shows "tables mem' r' = tables mem r'" and "tree_ok mem' r' own"
    and "length js = 4 \<Longrightarrow> set js \<subseteq> {..<512} \<Longrightarrow> walk_levels mem' r' js = walk_levels mem r' js"
proof -
  let ?far = "replicate 5 (0 :: nat)"
  have "read_desc mem' t j = read_desc mem t j" if t: "(q, t) \<in> tables mem r'" and j: "j < 512" for q t j
  proof -
    have "t \<in> own - T" using tree_okD(1) [OF ok t] imageI [OF t, of snd] apart by auto
    then show ?thesis unfolding read_desc_def
      using same slot_page [OF tree_okD(2) [OF ok t] j] by (intro load64_cong) simp
  qed
  then have ex: "same_except mem mem' r' ?far 0" by (simp add: same_except_def)
  have far: "\<not> prefix (?far @ [0]) q" if "length q \<le> 4" for q
    using that prefix_length_le [of "?far @ [0]" q] by auto
  have root: "([], r') \<in> tables mem r'" by (simp add: tables_def)
  have "table_at mem' r' q = table_at mem r' q" if "length q \<le> 3" "set q \<subseteq> {..<512}" for q
    using same_table_at [OF ex _ _ root, of q] far [of q] that by simp
  then show tab: "tables mem' r' = tables mem r'" by (auto simp: tables_def)
  with ok show "tree_ok mem' r' own" by (simp add: tree_ok_def)
  show "length js = 4 \<Longrightarrow> set js \<subseteq> {..<512} \<Longrightarrow> walk_levels mem' r' js = walk_levels mem r' js"
    using same_walk [OF ex _ _ root, of js] far [of js] by simp
qed

lemma tree_ok_mono: "tree_ok mem r own \<Longrightarrow> own \<subseteq> own' \<Longrightarrow> tree_ok mem r own'"
  by (auto simp: tree_ok_def)

section \<open>All address spaces of the kernel\<close>

text \<open>
  Runs of the kernel over its address spaces: a new space takes a fresh frame as its root,
  other frames are given out for data, bytes outside all tables change freely, and pages are
  mapped and unmapped in any space. The state is the frame service, the frames given out and
  the roots.
\<close>

definition all_tables :: "phys_mem \<Rightarrow> u64 set \<Rightarrow> u64 set" where
  "all_tables mem roots = (\<Union>r \<in> roots. snd ` tables mem r)"

inductive space_run :: "boot_info \<Rightarrow> frame_state \<times> u64 set \<times> u64 set \<Rightarrow> bool" for boot where
  sr_boot: "service_ok boot st own \<Longrightarrow> space_run boot (st, own, {})"
| sr_space: "space_run boot (st, own, roots) \<Longrightarrow> alloc_zeroed_frame dev_ok boot st = (Some f, st') \<Longrightarrow>
    space_run boot (st', insert f own, insert f roots)"
| sr_data: "space_run boot (st, own, roots) \<Longrightarrow> alloc_zeroed_frame dev_ok boot st = (Some f, st') \<Longrightarrow>
    space_run boot (st', insert f own, roots)"
| sr_write: "space_run boot (st, own, roots) \<Longrightarrow>
    (\<And>x. align_down x \<in> all_tables (fs_mem st) roots \<Longrightarrow> m x = fs_mem st x) \<Longrightarrow>
    space_run boot (st\<lparr>fs_mem := m\<rparr>, own, roots)"
| sr_map: "space_run boot (st, own, roots) \<Longrightarrow> root AND ADDR_MASK \<in> roots \<Longrightarrow> is_table_desc (pa OR desc) \<Longrightarrow>
    map_user_page (alloc_zeroed_frame dev_ok boot) root va pa desc st n = (ok, st', n') \<Longrightarrow>
    space_run boot (st', own \<union> snd ` tables (fs_mem st') (root AND ADDR_MASK), roots)"
| sr_unmap: "space_run boot (st, own, roots) \<Longrightarrow> root AND ADDR_MASK \<in> roots \<Longrightarrow>
    unmap_user_span (fs_mem st) root va len = (ok, m, tlb) \<Longrightarrow>
    space_run boot (st\<lparr>fs_mem := m\<rparr>, own, roots)"

definition no_blocks :: "phys_mem \<Rightarrow> u64 \<Rightarrow> bool" where
  "no_blocks mem r \<longleftrightarrow> (\<forall>va d. walk_levels mem r (va_path va) \<noteq> TBlock d)"

definition spaces_ok :: "boot_info \<Rightarrow> frame_state \<times> u64 set \<times> u64 set \<Rightarrow> bool" where
  "spaces_ok boot s \<longleftrightarrow>
     (case s of (st, own, roots) \<Rightarrow>
        service_ok boot st own
        \<and> (\<forall>r \<in> roots. tree_ok (fs_mem st) r own \<and> no_blocks (fs_mem st) r)
        \<and> (\<forall>r \<in> roots. \<forall>r' \<in> roots. r \<noteq> r' \<longrightarrow> snd ` tables (fs_mem st) r \<inter> snd ` tables (fs_mem st) r' = {}))"

lemma root_in_tables: "r \<in> snd ` tables mem r"
  using imageI [of "([], r)" "tables mem r" snd] by (simp add: tables_def)

lemma tables_owned: "tree_ok mem r own \<Longrightarrow> snd ` tables mem r \<subseteq> own"
  using tree_okD(1) by fastforce

lemma service_ok_antimono: "service_ok boot st own' \<Longrightarrow> own \<subseteq> own' \<Longrightarrow> service_ok boot st own"
  by (auto simp: service_ok_def frames_inv_def)

text \<open>A step that touches no byte of the tables of a space keeps the space.\<close>

lemma kept_space:
  assumes "tree_ok mem r own" and "no_blocks mem r" and "own \<subseteq> own'"
    and "\<And>x. align_down x \<in> own - T \<Longrightarrow> mem' x = mem x" and "snd ` tables mem r \<inter> T = {}"
  shows "tree_ok mem' r own' \<and> no_blocks mem' r \<and> tables mem' r = tables mem r"
    and "walk_levels mem' r (va_path va) = walk_levels mem r (va_path va)"
proof -
  note o = other_tree [OF assms(1,4,5)]
  show walk: "walk_levels mem' r (va_path va) = walk_levels mem r (va_path va)" for va
    by (rule o(3)) simp_all
  show "tree_ok mem' r own' \<and> no_blocks mem' r \<and> tables mem' r = tables mem r"
    using o(1,2) tree_ok_mono [OF _ assms(3)] assms(2) by (simp add: no_blocks_def walk)
qed

lemma fresh_frame_keeps:
  assumes "service_ok boot st own" and "alloc_zeroed_frame dev_ok boot st = (Some f, st')"
    and "align_down x \<in> own"
  shows "fs_mem st' x = fs_mem st x"
  using zeroed.alloc_frame [OF assms(1,2)] assms(3) write_zero_iff by auto

lemma fresh_apart: "A \<inter> B = {} \<Longrightarrow> C \<subseteq> B \<union> (own' - own) \<Longrightarrow> A \<subseteq> own \<Longrightarrow> A \<inter> C = {}"
  by blast

lemma fresh_part: "C \<subseteq> B \<union> (own' - own) \<Longrightarrow> C \<subseteq> B \<union> (own \<union> C - own)"
  by blast

text \<open>Changing one space: the others stay apart from it and as they were.\<close>

lemma one_space_changes:
  assumes ok: "spaces_ok boot (st, own, roots)" and r: "r \<in> roots"
    and new: "service_ok boot st' own'" "tree_ok (fs_mem st') r own'" "no_blocks (fs_mem st') r" "own \<subseteq> own'"
    and keep: "\<And>x. align_down x \<in> own - snd ` tables (fs_mem st) r \<Longrightarrow> fs_mem st' x = fs_mem st x"
    and tabs: "snd ` tables (fs_mem st') r \<subseteq> snd ` tables (fs_mem st) r \<union> (own' - own)"
  shows "spaces_ok boot (st', own', roots)"
    and "r' \<in> roots \<Longrightarrow> r' \<noteq> r \<Longrightarrow> walk_levels (fs_mem st') r' (va_path va) = walk_levels (fs_mem st) r' (va_path va)"
proof -
  from ok have t: "tree_ok (fs_mem st) q own" "no_blocks (fs_mem st) q" if "q \<in> roots" for q
    using that by (auto simp: spaces_ok_def)
  have apart: "snd ` tables (fs_mem st) q \<inter> snd ` tables (fs_mem st) p = {}"
    if "q \<in> roots" "p \<in> roots" "q \<noteq> p" for q p using ok that by (auto simp: spaces_ok_def)
  note k = kept_space [OF t(1) t(2) new(4) keep apart [OF _ r]]
  then show "r' \<in> roots \<Longrightarrow> r' \<noteq> r \<Longrightarrow>
      walk_levels (fs_mem st') r' (va_path va) = walk_levels (fs_mem st) r' (va_path va)" by blast
  have far: "snd ` tables (fs_mem st') q \<inter> snd ` tables (fs_mem st') r = {}" if "q \<in> roots" "q \<noteq> r" for q
  proof -
    have "tables (fs_mem st') q = tables (fs_mem st) q" using k(1) that by blast
    then show ?thesis
      using fresh_apart [OF apart [OF that(1) r that(2)] tabs tables_owned [OF t(1) [OF that(1)]]] by simp
  qed
  have "tree_ok (fs_mem st') q own' \<and> no_blocks (fs_mem st') q" if "q \<in> roots" for q
    using k(1) [of q] new(2,3) that by (cases "q = r") auto
  moreover have "snd ` tables (fs_mem st') q \<inter> snd ` tables (fs_mem st') p = {}"
    if "q \<in> roots" "p \<in> roots" "q \<noteq> p" for q p
    using far [of q] far [of p] apart [OF that] k(1) [of q] k(1) [of p] that
    by (cases "q = r"; cases "p = r") (auto simp: Int_commute)
  ultimately show "spaces_ok boot (st', own', roots)" using new(1) by (simp add: spaces_ok_def)
qed

lemma map_step:
  assumes ok: "spaces_ok boot (st, own, roots)" and r: "root AND ADDR_MASK \<in> roots"
    and leaf: "is_table_desc (pa OR desc)"
    and mp: "map_user_page (alloc_zeroed_frame dev_ok boot) root va pa desc st n = (b, st', n')"
  shows "spaces_ok boot (st', own \<union> snd ` tables (fs_mem st') (root AND ADDR_MASK), roots)"
    and "r' \<in> roots \<Longrightarrow> r' \<noteq> root AND ADDR_MASK \<Longrightarrow>
      walk_levels (fs_mem st') r' (va_path va') = walk_levels (fs_mem st) r' (va_path va')"
proof -
  let ?r = "root AND ADDR_MASK" and ?m = "fs_mem st" and ?m' = "fs_mem st'"
  from ok r have s: "service_ok boot st own" and t: "tree_ok ?m ?r own" and nb: "no_blocks ?m ?r"
    by (auto simp: spaces_ok_def)
  have "\<forall>d. walk ?m root va \<noteq> TBlock d" using nb by (simp add: no_blocks_def walk_def)
  from zeroed.map_user_page_walk [OF s t leaf this mp] obtain own' where
    own': "own \<subseteq> own'" "service_ok boot st' own'" "tree_ok ?m' ?r own'"
    and w: "\<And>va'. walk ?m' root va' = (if b \<and> va' AND ADDR_MASK = va AND ADDR_MASK then TPage (pa OR desc) else walk ?m root va')"
    and keep: "\<And>x. align_down x \<in> own - snd ` tables ?m ?r \<Longrightarrow> ?m' x = ?m x"
    and tabs: "snd ` tables ?m' ?r \<subseteq> snd ` tables ?m ?r \<union> (own' - own)" by blast
  let ?own = "own \<union> snd ` tables ?m' ?r"
  have "?own \<subseteq> own'" using own'(1) tables_owned [OF own'(3)] by blast
  then have "service_ok boot st' ?own" by (rule service_ok_antimono [OF own'(2)])
  moreover have "tree_ok ?m' ?r ?own" using own'(3) by (auto simp: tree_ok_def) (force intro: rev_image_eqI)
  moreover have "no_blocks ?m' ?r"
    using nb w by (auto simp: no_blocks_def walk_def split: if_splits)
  moreover have "snd ` tables ?m' ?r \<subseteq> snd ` tables ?m ?r \<union> (?own - own)" by (rule fresh_part [OF tabs])
  ultimately show "spaces_ok boot (st', ?own, roots)"
    and "r' \<in> roots \<Longrightarrow> r' \<noteq> ?r \<Longrightarrow> walk_levels ?m' r' (va_path va') = walk_levels ?m r' (va_path va')"
    using one_space_changes [OF ok r _ _ _ _ keep, of ?own] by blast+
qed

lemma unmap_step:
  assumes ok: "spaces_ok boot (st, own, roots)" and r: "root AND ADDR_MASK \<in> roots"
    and um: "unmap_user_span (fs_mem st) root va len = (b, m, tlb)"
  shows "spaces_ok boot (st\<lparr>fs_mem := m\<rparr>, own, roots)"
    and "r' \<in> roots \<Longrightarrow> r' \<noteq> root AND ADDR_MASK \<Longrightarrow>
      walk_levels m r' (va_path va') = walk_levels (fs_mem st) r' (va_path va')"
proof -
  let ?r = "root AND ADDR_MASK" and ?ats = "span_pages va len"
  from ok r have s: "service_ok boot st own" and t: "tree_ok (fs_mem st) ?r own" and nb: "no_blocks (fs_mem st) ?r"
    by (auto simp: spaces_ok_def)
  have "m = fs_mem st \<or> m = fold (clear_page ?r) ?ats (fs_mem st) \<and> list_all (preflight_page (fs_mem st) ?r) ?ats"
    using um by (auto simp: unmap_user_span_def Let_def split: if_splits)
  then have *: "tables m ?r = tables (fs_mem st) ?r \<and> tree_ok m ?r own \<and> no_blocks m ?r
      \<and> (\<forall>x. align_down x \<notin> snd ` tables (fs_mem st) ?r \<longrightarrow> m x = fs_mem st x)"
  proof
    assume m: "m = fold (clear_page ?r) ?ats (fs_mem st) \<and> list_all (preflight_page (fs_mem st) ?r) ?ats"
    then have "\<forall>at \<in> set ?ats. \<exists>t. leaf_table ?r at (fs_mem st) t"
      using preflight_leaf by (auto simp: list_all_iff)
    from clear_span [OF t this] m nb show ?thesis by (auto simp: no_blocks_def)
  qed (simp add: t nb)
  have "service_ok boot (st\<lparr>fs_mem := m\<rparr>) own" by (rule zeroed.inv_mem [OF s])
  with * one_space_changes [OF ok r, of "st\<lparr>fs_mem := m\<rparr>" own]
  show "spaces_ok boot (st\<lparr>fs_mem := m\<rparr>, own, roots)"
    and "r' \<in> roots \<Longrightarrow> r' \<noteq> ?r \<Longrightarrow> walk_levels m r' (va_path va') = walk_levels (fs_mem st) r' (va_path va')"
    by auto
qed

lemma fresh_step:
  assumes ok: "spaces_ok boot (st, own, roots)" and al: "alloc_zeroed_frame dev_ok boot st = (Some f, st')"
    and roots': "roots' = roots \<or> roots' = insert f roots"
  shows "spaces_ok boot (st', insert f own, roots')"
proof -
  from ok have s: "service_ok boot st own" by (simp add: spaces_ok_def)
  note a = zeroed.alloc_frame [OF s al] and fr = zeroed.fresh_root [OF s al]
  have k: "tree_ok (fs_mem st') r (insert f own) \<and> no_blocks (fs_mem st') r
      \<and> tables (fs_mem st') r = tables (fs_mem st) r \<and> snd ` tables (fs_mem st) r \<subseteq> own" if "r \<in> roots" for r
    using ok that kept_space(1) [of "fs_mem st" r own "insert f own" "{}" "fs_mem st'"]
      fresh_frame_keeps [OF s al] tables_owned by (auto simp: spaces_ok_def)
  have "f AND ADDR_MASK = f" using a by (simp add: frame_addr_bits)
  then have f: "tree_ok (fs_mem st') f (insert f own)" "no_blocks (fs_mem st') f" "snd ` tables (fs_mem st') f = {f}"
    using fr by (simp_all add: no_blocks_def walk_def)
  have "f \<notin> own" and sv: "service_ok boot st' (insert f own)" using a by blast+
  have apart: "snd ` tables (fs_mem st) q \<inter> snd ` tables (fs_mem st) p = {}"
    if "q \<in> roots" "p \<in> roots" "q \<noteq> p" for q p using ok that by (auto simp: spaces_ok_def)
  from roots' show ?thesis
  proof
    assume "roots' = roots"
    with k sv apart show ?thesis by (simp add: spaces_ok_def)
  next
    assume "roots' = insert f roots"
    moreover have "snd ` tables (fs_mem st') q \<inter> {f} = {}" if "q \<in> roots" for q
      using k [OF that] \<open>f \<notin> own\<close> by auto
    ultimately show ?thesis using k sv apart f by (simp add: spaces_ok_def Int_commute)
  qed
qed

lemma space_run_ok: "space_run boot s \<Longrightarrow> spaces_ok boot s"
proof (induction rule: space_run.induct)
  case (sr_write st own roots m)
  then have ok: "spaces_ok boot (st, own, roots)" by simp
  have "tree_ok m r own \<and> no_blocks m r \<and> tables m r = tables (fs_mem st) r" if r: "r \<in> roots" for r
  proof (rule kept_space(1))
    show "m x = fs_mem st x" if "align_down x \<in> own - (own - snd ` tables (fs_mem st) r)" for x
      using sr_write.hyps(2) that r by (auto simp: all_tables_def)
  qed (use ok r in \<open>auto simp: spaces_ok_def\<close>)
  moreover have "service_ok boot (st\<lparr>fs_mem := m\<rparr>) own" using ok zeroed.inv_mem by (auto simp: spaces_ok_def)
  ultimately show ?case using ok by (simp add: spaces_ok_def)
qed (auto intro: fresh_step map_step(1) unmap_step(1) simp: spaces_ok_def [of _ "(_, _, {})"])

section \<open>Leaves and blocks\<close>

text \<open>
  What the architecture reads from a page leaf: where it points, what user code may do with
  it, whether the kernel could execute it, whether it is bound to one address space, and the
  memory attribute.
\<close>

definition leaf_addr :: "u64 \<Rightarrow> u64" where "leaf_addr d = d AND ADDR_MASK"
definition user_writable :: "u64 \<Rightarrow> bool" where "user_writable d \<longleftrightarrow> bit d 6 \<and> \<not> bit d 7"
definition user_executable :: "u64 \<Rightarrow> bool" where "user_executable d \<longleftrightarrow> \<not> bit d 54"
definition kernel_executable :: "u64 \<Rightarrow> bool" where "kernel_executable d \<longleftrightarrow> \<not> bit d 53"
definition non_global :: "u64 \<Rightarrow> bool" where "non_global d \<longleftrightarrow> bit d 11"
definition leaf_attr :: "u64 \<Rightarrow> u64" where "leaf_attr d = drop_bit 2 d AND 7"

lemma or_frame:
  assumes "frame_addr pa" and "desc AND ADDR_MASK = 0"
  shows "leaf_addr (pa OR desc) = pa" and "n < 12 \<Longrightarrow> bit (pa OR desc) n = bit desc n"
    and "48 \<le> n \<Longrightarrow> bit (pa OR desc) n = bit desc n" and "leaf_attr (pa OR desc) = leaf_attr desc"
proof -
  have pa: "bit pa n \<Longrightarrow> 12 \<le> n \<and> n < 48" for n by (rule frame_desc_bits [OF assms(1)])
  have "\<not> bit desc n" if "12 \<le> n" "n < 48" for n
    using arg_cong [OF assms(2), of "\<lambda>w. bit w n"] that by (simp add: bit_and_iff bit_ADDR_MASK)
  with pa show "leaf_addr (pa OR desc) = pa"
    unfolding leaf_addr_def by (intro bit_word_eqI) (auto simp: bit_simps bit_ADDR_MASK)
  show "n < 12 \<Longrightarrow> bit (pa OR desc) n = bit desc n" and "48 \<le> n \<Longrightarrow> bit (pa OR desc) n = bit desc n"
    using pa [of n] by (auto simp: bit_or_iff)
  have seven: "(7 :: u64) = mask 3" by (simp add: mask_eq_exp_minus_1)
  show "leaf_attr (pa OR desc) = leaf_attr desc"
    unfolding leaf_attr_def seven using pa by (intro bit_word_eqI) (force simp: bit_simps)
qed

lemmas user_desc_defs = user_page_desc_def user_device_page_desc_def user_nc_page_desc_def Let_def DESC_VALID_def
  DESC_TABLE_def DESC_AF_def DESC_NG_def SH_INNER_def PXN_def UXN_def MAIR_WB_def MAIR_DEVICE_def MAIR_NC_def
  AP_EL1RW_EL0RW_def AP_EL1RO_EL0RO_def

lemma user_page_bits:
  "user_page_desc x w AND ADDR_MASK = 0"
  "bit (user_page_desc x w) 0" "bit (user_page_desc x w) 1" "bit (user_page_desc x w) 6"
  "bit (user_page_desc x w) 7 \<longleftrightarrow> \<not> w" "bit (user_page_desc x w) 11" "bit (user_page_desc x w) 53"
  "bit (user_page_desc x w) 54 \<longleftrightarrow> \<not> x \<or> w" "leaf_attr (user_page_desc x w) = MAIR_WB"
  by (cases w; cases x; simp add: user_desc_defs leaf_attr_def bit_numeral_rec ADDR_MASK_def)+

lemma user_page_leaf:
  assumes "frame_addr pa"
  shows "is_table_desc (pa OR user_page_desc x w)" and "leaf_addr (pa OR user_page_desc x w) = pa"
    and "user_writable (pa OR user_page_desc x w) \<longleftrightarrow> w" and "user_executable (pa OR user_page_desc x w) \<longleftrightarrow> x \<and> \<not> w"
  unfolding is_table_desc_bits user_writable_def user_executable_def
  by (simp_all add: or_frame [OF assms user_page_bits(1)] user_page_bits [simplified])

text \<open>The descriptor of a device block points at the device.\<close>

lemma device_block_desc:
  fixes nc w :: bool and dev :: u64
  defines "mair \<equiv> if nc then MAIR_NC else MAIR_DEVICE" and "ap \<equiv> if w then AP_EL1RW_EL0RW else AP_EL1RO_EL0RO"
  defines "d \<equiv> dev OR (dev OR DESC_VALID OR DESC_AF OR DESC_NG OR push_bit 2 mair OR PXN OR UXN OR ap)"
  assumes "frame_addr dev"
  shows "d AND DESC_VALID \<noteq> 0" and "\<not> is_table_desc d" and "d AND ADDR_MASK = dev"
proof -
  define flags where "flags = DESC_VALID OR DESC_AF OR DESC_NG OR push_bit 2 mair OR PXN OR UXN OR ap"
  have d: "d = dev OR flags" by (simp add: d_def flags_def or.left_commute or.assoc)
  have f: "flags AND ADDR_MASK = 0" "bit flags 0" "\<not> bit flags 1"
    unfolding flags_def mair_def ap_def DESC_VALID_def DESC_AF_def DESC_NG_def MAIR_NC_def MAIR_DEVICE_def PXN_def UXN_def
      AP_EL1RW_EL0RW_def AP_EL1RO_EL0RO_def ADDR_MASK_def
    by (cases nc; cases w; simp add: bit_numeral_rec)+
  note o = or_frame [OF assms(4) f(1)]
  show "d AND ADDR_MASK = dev" using o(1) by (simp add: d leaf_addr_def)
  show "d AND DESC_VALID \<noteq> 0" and "\<not> is_table_desc d"
    using o(2) f(2,3) by (simp_all add: valid_bit is_table_desc_bits d)
qed

text \<open>A device block is found again on the way to any page of its 2 MiB.\<close>

lemma device_block_path:
  fixes root :: u64
  defines "r \<equiv> root AND ADDR_MASK"
  assumes inv: "service_ok boot st own" and ok: "tree_ok (fs_mem st) r own" and dev: "frame_addr dev"
    and free: "\<forall>d. walk (fs_mem st) root va \<noteq> TBlock d"
    and mb: "map_user_device_block (alloc_zeroed_frame dev_ok boot) root va dev nc w st n = (True, st', n')"
  shows "\<exists>l2. table_at (fs_mem st') r [va_index 39 va, va_index 30 va] = Some l2
    \<and> read_desc (fs_mem st') l2 (va_index 21 va) AND DESC_VALID \<noteq> 0
    \<and> \<not> is_table_desc (read_desc (fs_mem st') l2 (va_index 21 va))
    \<and> read_desc (fs_mem st') l2 (va_index 21 va) AND ADDR_MASK = dev"
proof -
  let ?alloc = "alloc_zeroed_frame dev_ok boot"
  let ?i = "va_index 39 va" and ?j = "va_index 30 va" and ?k = "va_index 21 va" and ?l = "va_index 12 va"
  define d where "d = dev OR (dev OR DESC_VALID OR DESC_AF OR DESC_NG
    OR push_bit 2 (if nc then MAIR_NC else MAIR_DEVICE) OR PXN OR UXN OR (if w then AP_EL1RW_EL0RW else AP_EL1RO_EL0RO))"
  have free': "\<forall>d. walk_levels (fs_mem st) r (va_path va) \<noteq> TBlock d" using free by (simp add: walk_def r_def)
  have js: "va_path va = [] @ ?i # ?j # [?k, ?l]" "va_path va = [?i] @ ?j # ?k # [?l]" by (simp_all add: va_path_def)
  have rr: "(root AND ADDR_MASK) AND ADDR_MASK = r" by (simp add: r_def and.assoc)
  have r0: "([], r) \<in> tables (fs_mem st) r" by (simp add: tables_def)
  obtain c1 s1 n1 where e1: "ensure_table ?alloc r ?i st n = (c1, s1, n1)" by (metis prod_cases3)
  note p1 = zeroed.ensure_on_path [OF zeroed.grows_refl [OF inv ok] free' js(1) va_path_shape r0 e1]
  note mb' = mb [unfolded map_user_device_block_def Let_def map_block_def rr e1 prod.case]
  then obtain l1 where l1: "c1 = Some l1" by (cases c1) auto
  from p1 l1 obtain own1 where g1: "zeroed.grows boot st own r s1 own1" and t1: "([?i], l1) \<in> tables (fs_mem s1) r" by auto
  obtain c2 s2 n2 where e2: "ensure_table ?alloc l1 ?j s1 n1 = (c2, s2, n2)" by (metis prod_cases3)
  note p2 = zeroed.ensure_on_path [OF g1 free' js(2) va_path_shape t1 e2]
  note mb'' = mb' [unfolded l1 option.case e2 prod.case]
  then obtain l2 where l2: "c2 = Some l2" by (cases c2) auto
  from p2 l2 obtain own2 where g2: "zeroed.grows boot st own r s2 own2" and t2: "([?i, ?j], l2) \<in> tables (fs_mem s2) r" by auto
  have st': "fs_mem st' = write_desc (fs_mem s2) l2 ?k d" using mb'' l2 by (auto simp: d_def)
  note ws = write_slot [OF zeroed.growsD(3) [OF g2] t2 index_less [of 21 va], of d, folded st']
  have "table_at (fs_mem st') r [?i, ?j] = table_at (fs_mem s2) r [?i, ?j]"
    using same_table_at [OF ws(1), of "[]" "[?i, ?j]" r] by (simp add: tables_def prefix_def)
  with t2 ws(2) device_block_desc [OF dev, of nc w] show ?thesis
    by (auto simp: tables_def d_def)
qed

lemma same_block: "drop_bit 21 va = drop_bit 21 va' \<Longrightarrow>
    va_index 39 va = va_index 39 va' \<and> va_index 30 va = va_index 30 va' \<and> va_index 21 va = va_index 21 va'"
  using drop_bit_drop_bit [of 18 21 va] drop_bit_drop_bit [of 18 21 va']
    drop_bit_drop_bit [of 9 21 va] drop_bit_drop_bit [of 9 21 va'] by (simp add: va_index_def)

section \<open>A sample machine\<close>

text \<open>Five free frames of the 2 MiB of memory of \<open>sample_boot\<close>.\<close>

definition sample_frames :: frame_state where
  "sample_frames =
     \<lparr>fs_watermark = 0x300000, fs_issued = 0, fs_free = [0x200000, 0x201000, 0x202000, 0x203000, 0x204000],
      fs_reused = 0, fs_freed = 5, fs_mem = (\<lambda>_. 0)\<rparr>"

abbreviation sample_alloc :: frame_alloc where
  "sample_alloc \<equiv> alloc_zeroed_frame (\<lambda>_ _. True) sample_boot"

definition stocked :: "nat \<Rightarrow> frame_state \<Rightarrow> bool" where
  "stocked n st \<longleftrightarrow> n \<le> length (fs_free st) \<and> (\<forall>f \<in> set (fs_free st). block_of f = 0x200000)"

lemma sample_block:
  "normal_identity_block (bi_mem_regions sample_boot) (boot_framebuffer_range sample_boot) 0x200000"
proof -
  have "block_of 0x200000 = 0x200000" using block_of_page [of "0x200000" 1] by simp
  with sample_first_frame show ?thesis by (auto simp: find_Some_iff)
qed

lemma sample_alloc_free:
  assumes "stocked (Suc n) st"
  shows "\<exists>st'. sample_alloc st = (Some (last (fs_free st)), st') \<and> fs_free st' = butlast (fs_free st) \<and> stocked n st'"
proof -
  let ?u = "\<lambda>frame. \<not> frame_in_excluded frame [] \<and> True
    \<and> normal_identity_block (bi_mem_regions sample_boot) (boot_framebuffer_range sample_boot) (block_of frame)"
  obtain xs f where xs: "fs_free st = xs @ [f]" using assms by (metis stocked_def list.size(3) not_less_eq_eq rev_exhaust zero_le)
  have "?u f" using assms xs sample_block by (simp add: stocked_def frame_in_excluded_def)
  then have "take_free_frame ?u (fs_free st) = Some (f, xs)"
    by (simp add: take_free_frame_def xs swap_remove_def)
  then show ?thesis
    using assms by (auto simp: alloc_zeroed_frame_def alloc_zeroed_frame_excluding_def Let_def xs stocked_def)
qed

lemma sample_ensure:
  assumes "stocked (Suc n) st"
  shows "\<exists>c st' k'. ensure_table sample_alloc t i st k = (Some c, st', k') \<and> stocked n st'"
  using sample_alloc_free [OF assms] assms by (fastforce simp: ensure_table_def Let_def stocked_def)

lemma sample_map: "stocked 3 st \<Longrightarrow> \<exists>st' n'. map_user_page sample_alloc root va pa desc st n = (True, st', n')"
proof -
  let ?r = "(root AND ADDR_MASK) AND ADDR_MASK"
  assume "stocked 3 st"
  then have "stocked (Suc 2) st" by (simp add: numeral_eq_Suc)
  from sample_ensure [OF this, of ?r "va_index 39 va" n] obtain l1 s1 n1 where
    e1: "ensure_table sample_alloc ?r (va_index 39 va) st n = (Some l1, s1, n1)" and "stocked (Suc 1) s1"
    by (auto simp: numeral_eq_Suc)
  from sample_ensure [OF this(2), of l1 "va_index 30 va" n1] obtain l2 s2 n2 where
    e2: "ensure_table sample_alloc l1 (va_index 30 va) s1 n1 = (Some l2, s2, n2)" and "stocked (Suc 0) s2" by auto
  from sample_ensure [OF this(2), of l2 "va_index 21 va" n2] obtain l3 s3 n3 where
    "ensure_table sample_alloc l2 (va_index 21 va) s2 n2 = (Some l3, s3, n3)" by auto
  with e1 e2 show ?thesis by (simp add: map_user_page_def map_page_def)
qed

lemma sample_map_block:
  assumes "stocked 2 st"
  shows "\<exists>st' n'. map_user_device_block sample_alloc root va dev nc w st n = (True, st', n')"
proof -
  let ?r = "(root AND ADDR_MASK) AND ADDR_MASK"
  from assms have "stocked (Suc 1) st" by (simp add: numeral_eq_Suc)
  from sample_ensure [OF this, of ?r "va_index 39 va" n] obtain l1 s1 n1 where
    e1: "ensure_table sample_alloc ?r (va_index 39 va) st n = (Some l1, s1, n1)" and "stocked (Suc 0) s1" by auto
  from sample_ensure [OF this(2), of l1 "va_index 30 va" n1] obtain l2 s2 n2 where
    "ensure_table sample_alloc l1 (va_index 30 va) s1 n1 = (Some l2, s2, n2)" by auto
  with e1 show ?thesis by (simp add: map_user_device_block_def map_block_def Let_def)
qed

lemma sample_service: "service_ok sample_boot sample_frames {}"
proof -
  have "phys_limit sample_boot"
    by (simp add: phys_limit_def sample_boot_def unsorted_boot_def range_end_def saturating_add_def)
  then show ?thesis using sample_boot_map(1)
    by (simp add: service_ok_def sample_frames_def frames_inv_def frame_addr_def)
qed

lemma sample_stock: "stocked 5 sample_frames"
proof -
  have "block_of 0x200000 = 0x200000" "block_of 0x201000 = 0x200000" "block_of 0x202000 = 0x200000"
    "block_of 0x203000 = 0x200000" "block_of 0x204000 = 0x200000"
    using block_of_page [of "0x200000" 1] block_of_page [of "0x201000" 1] block_of_page [of "0x202000" 1]
      block_of_page [of "0x203000" 1] block_of_page [of "0x204000" 1] by simp_all
  then show ?thesis by (simp add: stocked_def sample_frames_def)
qed

text \<open>The sample machine with one empty address space.\<close>

lemma sample_space:
  "\<exists>st. sample_alloc sample_frames = (Some 0x204000, st) \<and> stocked 4 st \<and> service_ok sample_boot st {0x204000}
     \<and> tree_ok (fs_mem st) 0x204000 {0x204000} \<and> (\<forall>va. walk (fs_mem st) 0x204000 va = TFault)"
proof -
  have "stocked (Suc 4) sample_frames" using sample_stock by (simp add: numeral_eq_Suc)
  from sample_alloc_free [OF this] obtain st where
    a: "sample_alloc sample_frames = (Some 0x204000, st)" "stocked 4 st" by (auto simp: sample_frames_def)
  from zeroed.alloc_frame [OF sample_service a(1)] zeroed.fresh_root [OF sample_service a(1)] a show ?thesis
    by auto
qed

lemma stocked_less: "stocked n st \<Longrightarrow> m \<le> n \<Longrightarrow> stocked m st"
  by (simp add: stocked_def)

lemma sample_leaf: "is_table_desc (0x80000000 OR user_page_desc False True)"
  by (simp add: is_table_desc_def user_page_desc_def Let_def DESC_VALID_def DESC_TABLE_def DESC_AF_def DESC_NG_def
      SH_INNER_def PXN_def UXN_def MAIR_WB_def AP_EL1RW_EL0RW_def)

lemma sample_pt_root: "(0x204000 :: u64) AND ADDR_MASK = 0x204000"
  by (simp add: ADDR_MASK_def)

section \<open>Properties\<close>



text \<open>
  C37: \<open>unmap_user_span\<close> is all-or-nothing and exact. It succeeds if and only if the span is
  nonempty, page-aligned, inside the address space and every page of it is mapped by a page
  leaf; then exactly the pages of the span stop translating and the address space is
  invalidated in the translation cache; otherwise memory is unchanged.
\<close>

theorem unmap_user_span_exact:
  assumes "tree_ok mem (root AND ADDR_MASK) own" and "unmap_user_span mem root va len = (ok, mem', tlb)"
  shows "(ok \<longleftrightarrow> len \<noteq> 0 \<and> is_page_aligned va \<and> is_page_aligned len \<and> unat va + unat len < 2 ^ 64
        \<and> (\<forall>at \<in> set (span_pages va len). \<exists>d. walk mem root at = TPage d))
    \<and> (\<forall>va'. walk mem' root va' =
         (if ok \<and> va' AND ADDR_MASK \<in> (\<lambda>at. at AND ADDR_MASK) ` set (span_pages va len) then TFault
          else walk mem root va'))
    \<and> (if ok then tlb = [invalidate_user_aspace root] \<and> tree_ok mem' (root AND ADDR_MASK) own
       else tlb = [] \<and> mem' = mem)"
proof -
  let ?r = "root AND ADDR_MASK" and ?ats = "span_pages va len"
  define G where "G \<longleftrightarrow> len \<noteq> 0 \<and> is_page_aligned va \<and> is_page_aligned len \<and> unat va + unat len < 2 ^ 64"
  have guard: "(len = 0 \<or> va AND (PAGE_SIZE - 1) \<noteq> 0 \<or> len AND (PAGE_SIZE - 1) \<noteq> 0 \<or> checked_add va len = None) \<longleftrightarrow> \<not> G"
    by (auto simp: G_def is_page_aligned_def checked_add_None_iff not_le)
  have pre: "list_all (preflight_page mem ?r) ?ats \<longleftrightarrow> (\<forall>at \<in> set ?ats. \<exists>d. walk mem root at = TPage d)"
    by (simp add: list_all_iff preflight_walk walk_def)
  have "ok \<longleftrightarrow> G \<and> (\<forall>at \<in> set ?ats. \<exists>d. walk mem root at = TPage d)"
    using assms(2) unfolding unmap_user_span_def Let_def guard pre by (auto split: if_splits)
  then have ok: "ok \<longleftrightarrow> len \<noteq> 0 \<and> is_page_aligned va \<and> is_page_aligned len \<and> unat va + unat len < 2 ^ 64
      \<and> (\<forall>at \<in> set ?ats. \<exists>d. walk mem root at = TPage d)" by (simp add: G_def)
  show ?thesis
  proof (cases ok)
    case False
    then have "mem' = mem \<and> tlb = []"
      using assms(2) by (auto simp: unmap_user_span_def Let_def split: if_splits)
    with False ok show ?thesis by auto
  next
    case True
    then have m: "mem' = fold (clear_page ?r) ?ats mem" and t: "tlb = [invalidate_user_aspace root]"
      and "list_all (preflight_page mem ?r) ?ats"
      using assms(2) by (auto simp: unmap_user_span_def Let_def split: if_splits)
    then have "\<forall>at \<in> set ?ats. \<exists>t. leaf_table ?r at mem t" using preflight_leaf by (auto simp: list_all_iff)
    note c = clear_span [OF assms(1) this, folded m]
    have path: "va_path va' \<in> va_path ` set ?ats \<longleftrightarrow> va' AND ADDR_MASK \<in> (\<lambda>at. at AND ADDR_MASK) ` set ?ats" for va'
      by (auto simp: image_iff va_path_eq)
    from c True ok t show ?thesis by (simp add: walk_def path)
  qed
qed

theorem unmap_user_span_exact_witness:
  "\<exists>(st :: frame_state) m. walk (fs_mem st) 0x204000 0x5000 = TPage (0x80000000 OR user_page_desc False True)
     \<and> unmap_user_span (fs_mem st) 0x204000 0x5000 0x1000 = (True, m, [FlushAllLocal])
     \<and> walk m 0x204000 0x5000 = TFault"
proof -
  from sample_space obtain st where st: "stocked 4 st" "service_ok sample_boot st {0x204000}"
    "tree_ok (fs_mem st) (0x204000 AND ADDR_MASK) {0x204000}" "\<forall>va. walk (fs_mem st) 0x204000 va = TFault"
    by (auto simp: sample_pt_root)
  from sample_map [OF stocked_less [OF st(1), of 3], of "0x204000" "0x5000" "0x80000000" "user_page_desc False True" 0] obtain st' n where
    m: "map_user_page sample_alloc 0x204000 0x5000 0x80000000 (user_page_desc False True) st 0 = (True, st', n)"
    by auto
  have "\<forall>d. walk (fs_mem st) 0x204000 0x5000 \<noteq> TBlock d" using st(4) by simp
  from zeroed.map_user_page_walk [OF st(2,3) sample_leaf this m] obtain own' where
    t: "tree_ok (fs_mem st') (0x204000 AND ADDR_MASK) own'"
    and w: "walk (fs_mem st') 0x204000 0x5000 = TPage (0x80000000 OR user_page_desc False True)" by auto
  obtain ok mem tlb where u: "unmap_user_span (fs_mem st') 0x204000 0x5000 0x1000 = (ok, mem, tlb)" by (metis prod_cases3)
  have p: "span_pages 0x5000 0x1000 = [0x5000]" by (simp add: span_pages_def)
  have "ok \<and> walk mem 0x204000 0x5000 = TFault \<and> tlb = [invalidate_user_aspace 0x204000]"
    using unmap_user_span_exact [OF t u] w by (auto simp: p is_page_aligned_def PAGE_SIZE_def)
  moreover have "invalidate_user_aspace 0x204000 = FlushAllLocal"
    by (simp add: invalidate_user_aspace_def asid_of_ttbr0_def asid_is_kernel_def TTBR0_ASID_SHIFT_def)
  ultimately show ?thesis using u w by (intro exI [of _ st'] exI [of _ mem]) auto
qed

text \<open>
  C7: address spaces do not disturb each other. In every state the kernel can reach by creating
  spaces, giving out frames, writing memory outside the tables and mapping and unmapping
  pages, a further map or unmap in one space leaves every translation of every other space
  as it was.
\<close>

theorem address_spaces_isolated:
  assumes "space_run boot (st, own, roots)" and "root AND ADDR_MASK \<in> roots"
    and "other \<in> roots" and "other \<noteq> root AND ADDR_MASK" and "is_table_desc (pa OR desc)"
    and "map_user_page (alloc_zeroed_frame dev_ok boot) root va pa desc st n = (ok, st', n')"
    and "unmap_user_span (fs_mem st) root at len = (ok', m, tlb)"
  shows "walk (fs_mem st') other va' = walk (fs_mem st) other va' \<and> walk m other va' = walk (fs_mem st) other va'"
proof -
  note s = space_run_ok [OF assms(1)]
  have "other AND ADDR_MASK = other"
    using s assms(3) tree_okD(2) [of "fs_mem st" other own "[]" other]
    by (auto simp: spaces_ok_def tables_def simp flip: frame_addr_bits)
  with map_step(2) [OF s assms(2,5,6,3,4)] unmap_step(2) [OF s assms(2,7,3,4)] show ?thesis
    by (simp add: walk_def)
qed

theorem address_spaces_isolated_witness:
  "\<exists>st own st' n m. space_run sample_boot (st, own, {0x204000, 0x203000})
     \<and> map_user_page sample_alloc 0x204000 0x5000 0x80000000 (user_page_desc False True) st 0 = (True, st', n)
     \<and> unmap_user_span (fs_mem st) 0x204000 0x5000 0x1000 = (False, m, [])
     \<and> walk (fs_mem st') 0x203000 0x5000 = TFault \<and> walk m 0x203000 0x5000 = TFault"
proof -
  from sample_space obtain st where st: "sample_alloc sample_frames = (Some 0x204000, st)" "stocked 4 st"
    "service_ok sample_boot st {0x204000}" by auto
  have "fs_free st = [0x200000, 0x201000, 0x202000, 0x203000]"
    using sample_alloc_free [of 4 sample_frames] sample_stock st(1) by (auto simp: sample_frames_def numeral_eq_Suc)
  with sample_alloc_free [of 3 st] st(2) obtain st2 where
    st2: "sample_alloc st = (Some 0x203000, st2)" "stocked 3 st2" by (auto simp: numeral_eq_Suc)
  have run: "space_run sample_boot (st2, {0x203000, 0x204000}, {0x203000, 0x204000})"
    using sr_space [OF sr_space [OF sr_boot [OF sample_service] st(1)] st2(1)] by simp
  have far: "walk (fs_mem st2) 0x203000 va = TFault" for va using zeroed.fresh_root [OF st(3) st2(1)] by simp
  have near: "walk (fs_mem st2) 0x204000 0x5000 = TFault"
  proof -
    have "walk_levels (fs_mem st2) 0x204000 (va_path 0x5000) = walk_levels (fs_mem st) 0x204000 (va_path 0x5000)"
      using zeroed.fresh_root [OF sample_service st(1)] fresh_frame_keeps [OF st(3) st2(1)]
      by (intro other_tree(3) [where T = "{}" and own = "{0x204000}"]) auto
    then show ?thesis using zeroed.fresh_root(2) [OF sample_service st(1)] by (simp add: walk_def sample_pt_root)
  qed
  from sample_map [OF st2(2)] obtain st' n where
    m: "map_user_page sample_alloc 0x204000 0x5000 0x80000000 (user_page_desc False True) st2 0 = (True, st', n)" by blast
  have u: "unmap_user_span (fs_mem st2) 0x204000 0x5000 0x1000 = (False, fs_mem st2, [])"
    using near by (simp add: unmap_user_span_def Let_def span_pages_def preflight_walk walk_def sample_pt_root)
  have "walk (fs_mem st') 0x203000 0x5000 = TFault \<and> walk (fs_mem st2) 0x203000 0x5000 = TFault"
    using address_spaces_isolated [OF run, of "0x204000" "0x203000", OF _ _ _ sample_leaf m u, of "0x5000"] far
    by (simp add: sample_pt_root)
  with run m u show ?thesis by (intro exI [of _ st2] exI) (auto simp: insert_commute)
qed

text \<open>
  C38: user leaves are typed, and never both writable and executable. For every page frame and
  every choice of flags, the three descriptor builders give a valid leaf that points at that
  frame and belongs to its address space; user code can write it exactly when asked for, can
  execute it only when it is ordinary memory that is not writable, and the kernel can never
  execute it; the memory attribute is the one of the builder.
\<close>

theorem user_leaf_rights:
  assumes "frame_addr pa"
  shows "let page = pa OR user_page_desc x w; dev = pa OR user_device_page_desc w; nc = pa OR user_nc_page_desc w in
    leaf_attr page = MAIR_WB \<and> leaf_attr dev = MAIR_DEVICE \<and> leaf_attr nc = MAIR_NC
    \<and> (user_executable page \<longleftrightarrow> x \<and> \<not> w) \<and> \<not> user_executable dev \<and> \<not> user_executable nc
    \<and> list_all (\<lambda>d. is_table_desc d \<and> leaf_addr d = pa \<and> (user_writable d \<longleftrightarrow> w)
         \<and> \<not> kernel_executable d \<and> non_global d) [page, dev, nc]"
proof -
  have m: "user_device_page_desc w AND ADDR_MASK = 0" "user_nc_page_desc w AND ADDR_MASK = 0"
    by (simp_all add: user_desc_defs ADDR_MASK_def)
  note o = or_frame [OF assms user_page_bits(1)] or_frame [OF assms m(1)] or_frame [OF assms m(2)]
  have dev: "bit (user_device_page_desc w) 0" "bit (user_device_page_desc w) 1" "bit (user_device_page_desc w) 6"
    "bit (user_device_page_desc w) 7 \<longleftrightarrow> \<not> w" "bit (user_device_page_desc w) 11" "bit (user_device_page_desc w) 53"
    "bit (user_device_page_desc w) 54" "leaf_attr (user_device_page_desc w) = MAIR_DEVICE"
    by (cases w; simp add: user_desc_defs leaf_attr_def bit_numeral_rec)+
  have nc: "bit (user_nc_page_desc w) 0" "bit (user_nc_page_desc w) 1" "bit (user_nc_page_desc w) 6"
    "bit (user_nc_page_desc w) 7 \<longleftrightarrow> \<not> w" "bit (user_nc_page_desc w) 11" "bit (user_nc_page_desc w) 53"
    "bit (user_nc_page_desc w) 54" "leaf_attr (user_nc_page_desc w) = MAIR_NC"
    by (cases w; simp add: user_desc_defs leaf_attr_def bit_numeral_rec)+
  show ?thesis
    unfolding Let_def list.pred_inject is_table_desc_bits user_writable_def user_executable_def
      kernel_executable_def non_global_def
    by (simp add: o user_page_bits [simplified] dev [simplified] nc [simplified])
qed

theorem user_leaf_rights_witness:
  "frame_addr 0x200000 \<and> user_executable (0x200000 OR user_page_desc True False)
     \<and> \<not> user_executable (0x200000 OR user_page_desc True True)"
  using user_leaf_rights [of "0x200000" True True] user_leaf_rights [of "0x200000" True False]
  by (simp add: frame_addr_def Let_def)

text \<open>
  C39: a page mapped next to a device block is written into the device. After a device block has
  been mapped for an address, mapping a page at any address of the same 2 MiB reports success,
  allocates nothing and stores the leaf at the physical address of the device: the way down
  takes the block for a table, because \<open>ensure_table\<close> looks at the valid bit only. The address
  itself was translated by the block.
\<close>

theorem page_below_block_hits_device:
  assumes "service_ok boot st own" and "tree_ok (fs_mem st) (root AND ADDR_MASK) own" and "frame_addr dev"
    and "\<forall>d. walk (fs_mem st) root va \<noteq> TBlock d"
    and "map_user_device_block (alloc_zeroed_frame dev_ok boot) root va dev nc w st n = (True, st', n')"
    and "drop_bit 21 va' = drop_bit 21 va"
  shows "map_user_page alloc root va' pa desc st' n' =
      (True, st'\<lparr>fs_mem := write_desc (fs_mem st') dev (va_index 12 va') (pa OR desc)\<rparr>, n')
    \<and> (\<exists>d. walk (fs_mem st') root va' = TBlock d \<and> leaf_addr d = dev)"
proof -
  let ?r = "root AND ADDR_MASK" and ?m = "fs_mem st'"
  from device_block_path [OF assms(1-5)] obtain l2 where
    l2: "table_at ?m ?r [va_index 39 va, va_index 30 va] = Some l2"
    and d: "read_desc ?m l2 (va_index 21 va) AND DESC_VALID \<noteq> 0"
      "\<not> is_table_desc (read_desc ?m l2 (va_index 21 va))"
      "read_desc ?m l2 (va_index 21 va) AND ADDR_MASK = dev" by blast
  let ?i = "va_index 39 va" and ?j = "va_index 30 va"
  define d0 d1 where "d0 = read_desc ?m ?r ?i" and "d1 = read_desc ?m (d0 AND ADDR_MASK) ?j"
  from l2 have t: "is_table_desc d0" "is_table_desc d1" "d1 AND ADDR_MASK = l2"
    by (auto simp: d0_def d1_def Let_def split: if_splits)
  then have v: "d0 AND DESC_VALID \<noteq> 0" "d1 AND DESC_VALID \<noteq> 0" "d0 AND DESC_TABLE \<noteq> 0" "d1 AND DESC_TABLE \<noteq> 0"
    by (simp_all add: is_table_desc_def)
  have rr: "?r AND ADDR_MASK = ?r" by (simp add: and.assoc)
  note b = same_block [OF assms(6)]
  have "ensure_table alloc ?r (va_index 39 va') st' n' = (Some (d0 AND ADDR_MASK), st', n')"
    and "ensure_table alloc (d0 AND ADDR_MASK) (va_index 30 va') st' n' = (Some l2, st', n')"
    and "ensure_table alloc l2 (va_index 21 va') st' n' = (Some dev, st', n')"
    using v d t b by (simp_all add: ensure_table_def d0_def [symmetric] d1_def [symmetric])
  then have "map_user_page alloc root va' pa desc st' n' =
      (True, st'\<lparr>fs_mem := write_desc (fs_mem st') dev (va_index 12 va') (pa OR desc)\<rparr>, n')"
    by (simp add: map_user_page_def map_page_def rr)
  moreover have "walk ?m root va' = TBlock (read_desc ?m l2 (va_index 21 va))"
    using v d t b by (simp add: walk_def va_path_def d0_def [symmetric] d1_def [symmetric] is_table_desc_def)
  ultimately show ?thesis using d(3) by (simp add: leaf_addr_def)
qed

theorem page_below_block_hits_device_witness:
  "\<exists>st st' n. sample_alloc sample_frames = (Some 0x204000, st)
     \<and> map_user_device_block sample_alloc 0x204000 0x40000000 0x80000000 False True st 0 = (True, st', n)
     \<and> map_user_page sample_alloc 0x204000 0x40001000 0x200000 (user_page_desc False True) st' n =
        (True, st'\<lparr>fs_mem := write_desc (fs_mem st') 0x80000000 1 (0x200000 OR user_page_desc False True)\<rparr>, n)"
proof -
  from sample_space obtain st where st: "sample_alloc sample_frames = (Some 0x204000, st)" "stocked 4 st"
    "service_ok sample_boot st {0x204000}" "tree_ok (fs_mem st) (0x204000 AND ADDR_MASK) {0x204000}"
    "\<forall>va. walk (fs_mem st) 0x204000 va = TFault" by (auto simp: sample_pt_root)
  from sample_map_block [OF stocked_less [OF st(2), of 2], of "0x204000" "0x40000000" "0x80000000" False True 0] obtain st' n where
    m: "map_user_device_block sample_alloc 0x204000 0x40000000 0x80000000 False True st 0 = (True, st', n)"
    by auto
  have "\<forall>d. walk (fs_mem st) 0x204000 0x40000000 \<noteq> TBlock d" using st(5) by simp
  moreover have "frame_addr 0x80000000" by (simp add: frame_addr_def)
  moreover have "drop_bit 21 0x40001000 = (drop_bit 21 0x40000000 :: u64)" and "va_index 12 0x40001000 = 1"
    by (simp_all add: va_index_def)
  ultimately show ?thesis
    using page_below_block_hits_device [OF st(3,4) _ _ m, of "0x40001000"] st(1) m by auto
qed

end
