(* ===== verification/Vmo_Memory.thy ===== *)
theory Vmo_Memory
  imports Engine_Memory Hal_Address_Space
begin

text \<open>
  What the memory arms of \<open>Engine_Memory\<close> promise: an anonymous memory object is a private array
  of bytes that starts as zeros, whatever pages it has been given so far; mapping it makes
  user loads read that array; a failed \<open>VmarMap\<close> leaves its record behind.
\<close>

section \<open>The pages of an object\<close>

definition page_set :: "u64 option list \<Rightarrow> u64 set" where
  "page_set frames = {f. Some f \<in> set frames}"

definition frames_ok :: "u64 option list \<Rightarrow> u64 set \<Rightarrow> bool" where
  "frames_ok frames own \<longleftrightarrow>
     page_set frames \<subseteq> own \<and> (\<forall>f \<in> page_set frames. frame_addr f)
     \<and> (\<forall>i j f. frame_of frames i = Some f \<longrightarrow> frame_of frames j = Some f \<longrightarrow> i = j)"

text \<open>The bytes of an object: the page that holds an offset, or zero when there is none yet.\<close>

definition frame_bytes :: "phys_mem \<Rightarrow> u64 option list \<Rightarrow> nat \<Rightarrow> u8" where
  "frame_bytes mem frames i =
     (case frame_of frames (i div 4096) of None \<Rightarrow> 0 | Some f \<Rightarrow> mem (f + of_nat (i mod 4096)))"

lemma page_set_frame_of: "f \<in> page_set frames \<longleftrightarrow> (\<exists>i. frame_of frames i = Some f)"
  by (auto simp: page_set_def frame_of_def in_set_conv_nth)

lemma frames_okD:
  assumes "frames_ok frames own" and "frame_of frames i = Some f"
  shows "f \<in> own" and "frame_addr f" and "frame_of frames j = Some f \<Longrightarrow> j = i"
  using assms page_set_frame_of [of f frames] unfolding frames_ok_def by blast+

lemma frames_ok_cong:
  assumes "frames_ok frames own" and "\<And>j. frame_of frames' j = frame_of frames j"
  shows "frames_ok frames' own" and "page_set frames' = page_set frames"
    and "frame_bytes mem frames' = frame_bytes mem frames"
proof -
  show p: "page_set frames' = page_set frames" using assms(2) by (auto simp: page_set_frame_of)
  show "frames_ok frames' own" using assms by (simp add: frames_ok_def p)
  show "frame_bytes mem frames' = frame_bytes mem frames" using assms(2) by (auto simp: frame_bytes_def fun_eq_iff)
qed

lemma frame_of_pad: "frame_of (frames @ replicate k None) j = frame_of frames j"
  by (auto simp: frame_of_def nth_append)

lemma frame_of_upd: "i < length frames \<Longrightarrow> frame_of (frames[i := x]) j = (if j = i then x else frame_of frames j)"
  by (auto simp: frame_of_def)

text \<open>A byte of a page frame, and its page.\<close>

lemma unat_in_frame: "frame_addr f \<Longrightarrow> k < 4096 \<Longrightarrow> unat (f + of_nat k) = unat f + k"
proof -
  assume a: "frame_addr f" "k < 4096"
  then have "unat f + k < 2 ^ 64" by (simp add: frame_addr_def)
  moreover have "f + of_nat k = of_nat (unat f + k)" by simp
  ultimately show ?thesis by (simp only: unat_of_nat) simp
qed

lemma page_of_byte: "frame_addr f \<Longrightarrow> k < 4096 \<Longrightarrow> align_down (f + of_nat k) = f"
proof (rule unat_eqI)
  assume a: "frame_addr f" "k < 4096"
  obtain q where q: "unat f = 4096 * q" using frame_pages [OF a(1)] by blast
  show "unat (align_down (f + of_nat k)) = unat f"
    using page_floor [OF a(2), of q] by (simp only: unat_align_down unat_in_frame [OF a] q)
qed

text \<open>Pages on demand change no byte.\<close>

lemma ensure_anonymous_cases:
  assumes "service_ok boot st own" and "vmo_backing v = Anonymous"
    and "ensure_anonymous_frame room dev_ok boot v frames i st = (r, frames', st')"
  shows "(\<exists>f. r = Inr f \<and> frame_of frames i = Some f \<and> st' = st \<and> (\<forall>j. frame_of frames' j = frame_of frames j))
    \<or> (\<exists>f. r = Inr f \<and> frame_of frames i = None \<and> f \<notin> own \<and> frame_addr f \<and> service_ok boot st' (insert f own)
         \<and> fs_mem st' = write_zero (fs_mem st) f PAGE_SIZE
         \<and> (\<forall>j. frame_of frames' j = (if j = i then Some f else frame_of frames j)))
    \<or> (r = Inl E_NoMemory \<and> st' = st \<and> (\<forall>j. frame_of frames' j = frame_of frames j))"
proof -
  let ?fs = "frames @ replicate (i + 1 - length frames) None"
  note ens = assms(3) [unfolded ensure_anonymous_frame_def ensure_vmo_frame_def assms(2), simplified]
  have len: "i < length ?fs" by simp
  have same: "frame_of ?fs j = frame_of frames j" for j by (rule frame_of_pad)
  have at: "?fs ! i = frame_of frames i" using same [of i] len by (simp add: frame_of_def)
  show ?thesis
  proof (cases "length frames \<le> i \<and> \<not> room i")
    case True
    with ens show ?thesis by simp
  next
    case room: False
    show ?thesis
    proof (cases "frame_of frames i")
      case (Some f)
      with ens room at same show ?thesis by (auto simp: Let_def)
    next
      case None
      show ?thesis
      proof (cases "alloc_zeroed_frame dev_ok boot st")
        case (Pair c st1)
        show ?thesis
        proof (cases c)
          case (Some f)
          with ens room at None Pair have "r = Inr f" "frames' = ?fs[i := Some f]" "st' = st1"
            by (auto simp: Let_def alloc_anonymous_frame_def)
          with zeroed.alloc_frame [OF assms(1) Pair [unfolded Some]] None same len show ?thesis
            by (simp add: frame_of_upd)
        next
          case none: None
          with ens room at None Pair zeroed_frame_none [of dev_ok boot st st1] same show ?thesis
            by (auto simp: Let_def alloc_anonymous_frame_def)
        qed
      qed
    qed
  qed
qed

lemma ensure_anonymous_keeps:
  assumes inv: "service_ok boot st own" and v: "vmo_backing v = Anonymous" and ok: "frames_ok frames own"
    and ens: "ensure_anonymous_frame room dev_ok boot v frames i st = (r, frames', st')"
  shows "\<exists>own'. own \<subseteq> own' \<and> service_ok boot st' own' \<and> frames_ok frames' own'
      \<and> page_set frames' \<subseteq> page_set frames \<union> (own' - own)
      \<and> frame_bytes (fs_mem st') frames' = frame_bytes (fs_mem st) frames
      \<and> (\<forall>x. align_down x \<in> own \<longrightarrow> fs_mem st' x = fs_mem st x)
      \<and> (\<forall>j f. frame_of frames j = Some f \<longrightarrow> frame_of frames' j = Some f)
      \<and> (case r of Inl e \<Rightarrow> e = E_NoMemory | Inr f \<Rightarrow> frame_of frames' i = Some f)"
  using ensure_anonymous_cases [OF inv v ens]
proof (elim disjE exE conjE)
  fix f
  assume r: "r = Inr f" and none: "frame_of frames i = None" and f: "f \<notin> own" "frame_addr f"
    and sv: "service_ok boot st' (insert f own)" and m: "fs_mem st' = write_zero (fs_mem st) f PAGE_SIZE"
    and fr': "\<forall>j. frame_of frames' j = (if j = i then Some f else frame_of frames j)"
  have fr: "frame_of frames' j = (if j = i then Some f else frame_of frames j)" for j using fr' by blast
  have new: "frame_of frames j \<noteq> Some f" for j using frames_okD(1) [OF ok, of j f] f(1) by auto
  have pages: "page_set frames' = insert f (page_set frames)"
    unfolding set_eq_iff insert_iff page_set_frame_of fr by (metis none option.discI option.inject)
  have ok': "frames_ok frames' (insert f own)"
    unfolding frames_ok_def pages
  proof (intro conjI)
    show "\<forall>i' j' f'. frame_of frames' i' = Some f' \<longrightarrow> frame_of frames' j' = Some f' \<longrightarrow> i' = j'"
      using fr new frames_okD(3) [OF ok] by (auto split: if_splits)
  qed (use ok f in \<open>auto simp: frames_ok_def\<close>)
  have keep: "fs_mem st' x = fs_mem st x" if "align_down x \<in> own" for x
    using that f by (auto simp: m write_zero_iff)
  have "frame_bytes (fs_mem st') frames' k = frame_bytes (fs_mem st) frames k" for k
  proof (cases "k div 4096 = i")
    case True
    then show ?thesis using fr none f by (simp add: frame_bytes_def m write_zero_iff page_of_byte)
  next
    case False
    then have "frame_of frames' (k div 4096) = frame_of frames (k div 4096)" using fr by simp
    then show ?thesis
      using frames_okD(1,2) [OF ok] keep page_of_byte [of _ "k mod 4096"]
      by (auto simp: frame_bytes_def split: option.split)
  qed
  then have bytes: "frame_bytes (fs_mem st') frames' = frame_bytes (fs_mem st) frames" by (rule ext)
  have mono: "frame_of frames' j = Some g" if "frame_of frames j = Some g" for j g using that fr none by auto
  show ?thesis
    unfolding r by (rule exI [of _ "insert f own"]) (simp add: sv ok' pages bytes keep mono fr f none subset_insertI)
next
  fix f
  assume "r = Inr f" and "frame_of frames i = Some f" and "st' = st" and "\<forall>j. frame_of frames' j = frame_of frames j"
  moreover from this(4) have "frames_ok frames' own" "page_set frames' = page_set frames"
    "frame_bytes (fs_mem st) frames' = frame_bytes (fs_mem st) frames" using frames_ok_cong [OF ok] by blast+
  ultimately show ?thesis using inv by (intro exI [of _ own]) simp
next
  assume "r = Inl E_NoMemory" and "st' = st" and "\<forall>j. frame_of frames' j = frame_of frames j"
  moreover from this(3) have "frames_ok frames' own" "page_set frames' = page_set frames"
    "frame_bytes (fs_mem st) frames' = frame_bytes (fs_mem st) frames" using frames_ok_cong [OF ok] by blast+
  ultimately show ?thesis using inv by (intro exI [of _ own]) simp
qed

section \<open>The loops over pages\<close>

lemma write_phys_byte:
  assumes "frame_addr f" and "frame_addr g" and "off + length bs \<le> 4096" and "k < 4096"
  shows "write_phys mem (f + of_nat off) bs (g + of_nat k) =
    (if g = f \<and> off \<le> k \<and> k < off + length bs then bs ! (k - off) else mem (g + of_nat k))"
proof -
  let ?x = "g + of_nat k" and ?a = "f + of_nat off"
  define j where "j = unat (?x - ?a)"
  have x: "?x = f + of_nat (off + j)" by (simp add: j_def)
  have "g = f \<and> k = off + j" if "j < length bs"
  proof -
    have lt: "off + j < 4096" using that assms(3) by simp
    have "align_down ?x = f" using x page_of_byte [OF assms(1) lt] by simp
    then have "g = f" using page_of_byte [OF assms(2,4)] by simp
    with x unat_in_frame [OF assms(1) lt] unat_in_frame [OF assms(2,4)] show ?thesis by simp
  qed
  moreover have "j = k - off" if "g = f" "off \<le> k"
  proof -
    have "?x - ?a = of_nat (k - off)" using that by (simp add: of_nat_diff)
    then show ?thesis using assms(4) by (simp add: j_def unat_of_nat)
  qed
  moreover have "write_phys mem ?a bs ?x = (if j < length bs then bs ! j else mem ?x)"
    by (simp add: write_phys_def Let_def j_def)
  ultimately show ?thesis by (cases "j < length bs") (auto simp del: of_nat_add)
qed

lemma write_phys_elsewhere:
  assumes "frame_addr f" and "off + length bs \<le> 4096" and "align_down x \<noteq> f"
  shows "write_phys mem (f + of_nat off) bs x = mem x"
proof -
  define j where "j = unat (x - (f + of_nat off))"
  have x: "x = f + of_nat (off + j)" by (simp add: j_def)
  have "\<not> j < length bs"
  proof
    assume "j < length bs"
    then have "off + j < 4096" using assms(2) by simp
    from page_of_byte [OF assms(1) this] x assms(3) show False by simp
  qed
  then show ?thesis by (simp add: write_phys_def Let_def j_def)
qed

text \<open>Reading gives the bytes of the object.\<close>

lemma chunk_page:
  fixes pos left k :: nat
  assumes "k < min left (4096 - pos mod 4096)"
  shows "(pos + k) div 4096 = pos div 4096" and "(pos + k) mod 4096 = pos mod 4096 + k"
proof -
  have lt: "pos mod 4096 + k < 4096" using assms by linarith
  have "4096 * ((pos + k) div 4096) + (pos + k) mod 4096 = 4096 * (pos div 4096) + (pos mod 4096 + k)" by simp
  from split_eq [OF _ lt this]
  show "(pos + k) div 4096 = pos div 4096" and "(pos + k) mod 4096 = pos mod 4096 + k" by simp_all
qed

lemma vmo_read_loop_bytes: "vmo_read_loop mem frames pos left = map (frame_bytes mem frames) [pos..<pos + left]"
proof (induction mem frames pos left rule: vmo_read_loop.induct)
  case (1 mem frames pos left)
  show ?case
  proof (cases "left = 0")
    case False
    define chunk where "chunk = min left (4096 - pos mod 4096)"
    have c: "0 < chunk" "chunk \<le> left" using False by (simp_all add: chunk_def)
    have "(case frame_of frames (pos div 4096) of
           Some frame \<Rightarrow> read_phys mem (frame + of_nat (pos mod 4096)) chunk | None \<Rightarrow> replicate chunk 0)
        = map (\<lambda>k. frame_bytes mem frames (pos + k)) [0..<chunk]"
    proof (rule nth_equalityI)
      fix k assume "k < length (case frame_of frames (pos div 4096) of
           Some frame \<Rightarrow> read_phys mem (frame + of_nat (pos mod 4096)) chunk | None \<Rightarrow> replicate chunk 0)"
      then have k: "k < chunk" by (simp add: read_phys_def split: option.splits)
      with chunk_page [of k left pos] show "(case frame_of frames (pos div 4096) of
           Some frame \<Rightarrow> read_phys mem (frame + of_nat (pos mod 4096)) chunk | None \<Rightarrow> replicate chunk 0) ! k
          = map (\<lambda>k. frame_bytes mem frames (pos + k)) [0..<chunk] ! k"
        by (simp add: read_phys_def frame_bytes_def chunk_def add.assoc split: option.split)
    qed (simp add: read_phys_def split: option.split)
    also have "\<dots> = map (frame_bytes mem frames) [pos..<pos + chunk]"
      by (simp add: map_add_upt [symmetric, of pos chunk] comp_def add.commute del: map_add_upt)
    finally have head: "(case frame_of frames (pos div 4096) of
           Some frame \<Rightarrow> read_phys mem (frame + of_nat (pos mod 4096)) chunk | None \<Rightarrow> replicate chunk 0)
        = map (frame_bytes mem frames) [pos..<pos + chunk]" .
    have "vmo_read_loop mem frames pos left = map (frame_bytes mem frames) [pos..<pos + chunk]
        @ vmo_read_loop mem frames (pos + chunk) (left - chunk)"
      using False head by (subst vmo_read_loop.simps) (simp only: Let_def if_False flip: chunk_def)
    also have "vmo_read_loop mem frames (pos + chunk) (left - chunk) =
        map (frame_bytes mem frames) [pos + chunk..<pos + left]"
      using "1.IH" [OF False refl refl chunk_def] c by simp
    finally show ?thesis using c upt_add_eq_append [of pos "pos + chunk" "left - chunk"] by simp
  qed (simp add: vmo_read_loop.simps)
qed

text \<open>Writing stores a prefix of the bytes, all of them unless memory runs out.\<close>

definition bytes_with :: "(nat \<Rightarrow> u8) \<Rightarrow> nat \<Rightarrow> u8 list \<Rightarrow> nat \<Rightarrow> u8" where
  "bytes_with content pos bs = (\<lambda>i. if pos \<le> i \<and> i < pos + length bs then bs ! (i - pos) else content i)"

lemma bytes_with_nil [simp]: "bytes_with content pos [] = content"
  by (auto simp: bytes_with_def fun_eq_iff)

lemma bytes_with_append:
  "bytes_with (bytes_with content pos bs) (pos + length bs) cs = bytes_with content pos (bs @ cs)"
  by (auto simp: bytes_with_def fun_eq_iff nth_append)

lemma chunk_bytes:
  assumes ok: "frames_ok frames own" and f: "frame_of frames (pos div 4096) = Some f"
    and bs: "pos mod 4096 + length bs \<le> 4096"
  shows "frame_bytes (write_phys mem (f + of_nat (pos mod 4096)) bs) frames =
    bytes_with (frame_bytes mem frames) pos bs"
proof
  fix i :: nat
  note fa = frames_okD(2) [OF ok f]
  have pos: "pos = 4096 * (pos div 4096) + pos mod 4096" and i: "i = 4096 * (i div 4096) + i mod 4096" by simp_all
  have iff: "i div 4096 = pos div 4096 \<and> pos mod 4096 \<le> i mod 4096 \<and> i mod 4096 < pos mod 4096 + length bs
      \<longleftrightarrow> pos \<le> i \<and> i < pos + length bs" (is "?l \<longleftrightarrow> ?r")
  proof
    assume ?l
    then show ?r using pos i by linarith
  next
    assume r: ?r
    then obtain k where k: "i = pos + k" using le_Suc_ex by blast
    with r bs have "k < min (Suc k) (4096 - pos mod 4096)" by simp
    from chunk_page [OF this] k r show ?l by simp
  qed
  show "frame_bytes (write_phys mem (f + of_nat (pos mod 4096)) bs) frames i =
      bytes_with (frame_bytes mem frames) pos bs i"
  proof (cases "frame_of frames (i div 4096)")
    case None
    then have "i div 4096 \<noteq> pos div 4096" using f by auto
    then have out: "\<not> ?r" unfolding iff [symmetric] by (rule contrapos_nn) (rule conjunct1)
    show ?thesis unfolding frame_bytes_def bytes_with_def None option.case if_not_P [OF out] ..
  next
    case (Some g)
    have "g = f \<longleftrightarrow> i div 4096 = pos div 4096"
    proof
      assume "g = f"
      with Some have "frame_of frames (i div 4096) = Some f" by simp
      from frames_okD(3) [OF ok f this] show "i div 4096 = pos div 4096" .
    next
      assume "i div 4096 = pos div 4096"
      with Some f show "g = f" by (simp only: option.inject)
    qed
    then have cond: "(g = f \<and> pos mod 4096 \<le> i mod 4096 \<and> i mod 4096 < pos mod 4096 + length bs)
        \<longleftrightarrow> pos \<le> i \<and> i < pos + length bs" using iff by blast
    have w: "frame_bytes (write_phys mem (f + of_nat (pos mod 4096)) bs) frames i =
        (if pos \<le> i \<and> i < pos + length bs then bs ! (i mod 4096 - pos mod 4096) else frame_bytes mem frames i)"
      using write_phys_byte [OF fa frames_okD(2) [OF ok Some] bs, of "i mod 4096" mem]
      by (simp only: frame_bytes_def Some option.case cond mod_less_divisor zero_less_numeral simp_thms)
    show ?thesis
    proof (cases "pos \<le> i \<and> i < pos + length bs")
      case True
      with iff have "i div 4096 = pos div 4096" by blast
      then have "i mod 4096 - pos mod 4096 = i - pos" using pos i by linarith
      with True w show ?thesis by (simp only: bytes_with_def if_True)
    qed (simp only: w bytes_with_def if_False)
  qed
qed

definition pages_grow ::
  "boot_info \<Rightarrow> frame_state \<Rightarrow> u64 option list \<Rightarrow> u64 set \<Rightarrow> frame_state \<Rightarrow> u64 option list \<Rightarrow> u64 set \<Rightarrow> bool" where
  "pages_grow boot st frames own st' frames' own' \<longleftrightarrow>
     own \<subseteq> own' \<and> service_ok boot st' own' \<and> frames_ok frames' own'
     \<and> page_set frames' \<subseteq> page_set frames \<union> (own' - own)
     \<and> (\<forall>x. align_down x \<in> own - page_set frames \<longrightarrow> fs_mem st' x = fs_mem st x)
     \<and> (\<forall>j f. frame_of frames j = Some f \<longrightarrow> frame_of frames' j = Some f)"

lemma pages_growD:
  assumes "pages_grow boot st frames own st' frames' own'"
  shows "own \<subseteq> own'" and "service_ok boot st' own'" and "frames_ok frames' own'"
    and "page_set frames' \<subseteq> page_set frames \<union> (own' - own)"
    and "\<And>x. align_down x \<in> own - page_set frames \<Longrightarrow> fs_mem st' x = fs_mem st x"
    and "\<And>j f. frame_of frames j = Some f \<Longrightarrow> frame_of frames' j = Some f"
  using assms by (simp_all add: pages_grow_def)

lemma pages_grow_trans:
  assumes "pages_grow boot st frames own st1 frames1 own1" and "pages_grow boot st1 frames1 own1 st2 frames2 own2"
  shows "pages_grow boot st frames own st2 frames2 own2"
proof -
  note a = pages_growD [OF assms(1)] and b = pages_growD [OF assms(2)]
  have "fs_mem st2 x = fs_mem st x" if x: "align_down x \<in> own - page_set frames" for x
  proof -
    have "align_down x \<in> own1 - page_set frames1" using x a(1,4) by blast
    with b(5) a(5) [OF x] show ?thesis by simp
  qed
  with a b zeroed.new_in_chain [OF b(4) a(4) a(1) b(1)] show ?thesis by (simp add: pages_grow_def subset_trans [OF a(1) b(1)])
qed

lemma ensure_grow:
  assumes "service_ok boot st own" and "vmo_backing v = Anonymous" and "frames_ok frames own"
    and "ensure_anonymous_frame room dev_ok boot v frames i st = (r, frames', st')"
  shows "\<exists>own'. pages_grow boot st frames own st' frames' own'
    \<and> frame_bytes (fs_mem st') frames' = frame_bytes (fs_mem st) frames
    \<and> (case r of Inl e \<Rightarrow> e = E_NoMemory | Inr f \<Rightarrow> frame_of frames' i = Some f)"
  using ensure_anonymous_keeps [OF assms] unfolding pages_grow_def by (elim exE conjE) (intro exI conjI; simp)

lemma write_grow:
  assumes "service_ok boot st own" and ok: "frames_ok frames own" and f: "frame_of frames i = Some f"
    and bs: "off + length bs \<le> 4096"
  shows "pages_grow boot st frames own (st\<lparr>fs_mem := write_phys (fs_mem st) (f + of_nat off) bs\<rparr>) frames own"
proof -
  have "f \<in> page_set frames" using f page_set_frame_of by blast
  then have "write_phys (fs_mem st) (f + of_nat off) bs x = fs_mem st x"
    if "align_down x \<in> own - page_set frames" for x
    using that by (intro write_phys_elsewhere [OF frames_okD(2) [OF ok f] bs]) auto
  with zeroed.inv_mem [OF assms(1)] ok show ?thesis by (simp add: pages_grow_def)
qed

lemma vmo_write_loop_bytes:
  assumes "vmo_backing v = Anonymous" and "service_ok boot st own" and "frames_ok frames own"
    and "vmo_write_loop (ensure_anonymous_frame room dev_ok boot v) frames pos src st = (e, frames', st')"
  shows "\<exists>own' n. pages_grow boot st frames own st' frames' own' \<and> n \<le> length src
    \<and> (e = E_Ok \<and> n = length src \<or> e = E_NoMemory)
    \<and> frame_bytes (fs_mem st') frames' = bytes_with (frame_bytes (fs_mem st) frames) pos (take n src)"
  using assms(2-)
proof (induction "length src" arbitrary: frames pos src st own rule: less_induct)
  case less
  let ?ens = "ensure_anonymous_frame room dev_ok boot v"
  show ?case
  proof (cases "src = []")
    case True
    with less.prems show ?thesis
      by (intro exI [of _ own] exI [of _ 0])
        (auto simp: vmo_write_loop.simps pages_grow_def)
  next
    case False
    define chunk where "chunk = min (length src) (4096 - pos mod 4096)"
    have c: "0 < chunk" "chunk \<le> length src" using False by (simp_all add: chunk_def)
    obtain r frames1 st1 where ens: "?ens frames (pos div 4096) st = (r, frames1, st1)" by (metis prod_cases3)
    from ensure_grow [OF less.prems(1) assms(1) less.prems(2) ens] obtain own1 where
      g1: "pages_grow boot st frames own st1 frames1 own1"
      and b1: "frame_bytes (fs_mem st1) frames1 = frame_bytes (fs_mem st) frames"
      and r: "case r of Inl e \<Rightarrow> e = E_NoMemory | Inr f \<Rightarrow> frame_of frames1 (pos div 4096) = Some f" by blast
    note step = less.prems(3) [unfolded vmo_write_loop.simps [of ?ens frames pos src st] if_not_P [OF False] Let_def
        ens prod.case chunk_def [symmetric]]
    show ?thesis
    proof (cases r)
      case (Inl e1)
      with step r have "e = E_NoMemory" "frames' = frames1" "st' = st1" by simp_all
      with g1 b1 show ?thesis by (intro exI [of _ own1] exI [of _ 0]) simp
    next
      case (Inr f)
      define st2 where "st2 = st1\<lparr>fs_mem := write_phys (fs_mem st1) (f + of_nat (pos mod 4096)) (take chunk src)\<rparr>"
      have f: "frame_of frames1 (pos div 4096) = Some f" using r Inr by simp
      have fit: "pos mod 4096 + length (take chunk src) \<le> 4096" by (simp add: chunk_def)
      note d1 = pages_growD [OF g1]
      have g2: "pages_grow boot st frames own st2 frames1 own1"
        by (rule pages_grow_trans [OF g1 write_grow [OF d1(2,3) f fit, folded st2_def]])
      have b2: "frame_bytes (fs_mem st2) frames1 = bytes_with (frame_bytes (fs_mem st) frames) pos (take chunk src)"
        using chunk_bytes [OF d1(3) f fit, of "fs_mem st1"] b1 by (simp add: st2_def)
      have loop: "vmo_write_loop ?ens frames1 (pos + chunk) (drop chunk src) st2 = (e, frames', st')"
        using step Inr by (simp add: st2_def)
      have shorter: "length (drop chunk src) < length src" using c by simp
      from less.hyps [OF shorter pages_growD(2,3) [OF g2] loop] obtain own' n where
        g3: "pages_grow boot st2 frames1 own1 st' frames' own'" and n: "n \<le> length (drop chunk src)"
        and e: "e = E_Ok \<and> n = length (drop chunk src) \<or> e = E_NoMemory"
        and b3: "frame_bytes (fs_mem st') frames' =
          bytes_with (frame_bytes (fs_mem st2) frames1) (pos + chunk) (take n (drop chunk src))" by blast
      have "frame_bytes (fs_mem st') frames' = bytes_with (frame_bytes (fs_mem st) frames) pos (take (chunk + n) src)"
        using b3 bytes_with_append [of "frame_bytes (fs_mem st) frames" pos "take chunk src" "take n (drop chunk src)"] c
        by (simp add: b2 take_add)
      with pages_grow_trans [OF g2 g3] n e c show ?thesis
        by (intro exI [of _ own'] exI [of _ "chunk + n"]) auto
    qed
  qed
qed

end
