(* ===== verification/Vmo_Store.thy ===== *)
theory Vmo_Store
  imports Vmo_Memory
begin

text \<open>
  Anonymous memory objects as the dispatcher sees them: each one is a private array of bytes.
  \<open>VmoRead\<close> returns the bytes of the array, \<open>VmoWrite\<close> changes exactly the bytes it was given and
  no other object, whatever pages have been materialised so far.
\<close>

section \<open>The bytes of the objects\<close>

definition anon_frames :: "mem_engine \<Rightarrow> ko_id \<Rightarrow> u64 option list" where
  "anon_frames me koid =
     (case vmo_entry_by_koid me koid of
        None \<Rightarrow> []
      | Some e \<Rightarrow> if vmo_backing (ve_vmo e) = Anonymous then ve_frames e else [])"

definition vmo_content :: "mem_engine \<Rightarrow> ko_id \<Rightarrow> nat \<Rightarrow> u8" where
  "vmo_content me koid = frame_bytes (fs_mem (me_frames me)) (anon_frames me koid)"

text \<open>
  The invariant: pages of anonymous objects are frames the kernel has given out, each to one
  place of one object.
\<close>

definition mem_inv :: "boot_info \<Rightarrow> mem_engine \<Rightarrow> u64 set \<Rightarrow> bool" where
  "mem_inv boot me own \<longleftrightarrow>
     me_boot me = Some boot \<and> service_ok boot (me_frames me) own
     \<and> (\<forall>k. frames_ok (anon_frames me k) own)
     \<and> (\<forall>k k'. k \<noteq> k' \<longrightarrow> page_set (anon_frames me k) \<inter> page_set (anon_frames me k') = {})"

lemma mem_invD:
  assumes "mem_inv boot me own"
  shows "me_boot me = Some boot" and "service_ok boot (me_frames me) own" and "frames_ok (anon_frames me k) own"
    and "k \<noteq> k' \<Longrightarrow> page_set (anon_frames me k) \<inter> page_set (anon_frames me k') = {}"
  using assms unfolding mem_inv_def by blast+

lemma frames_ok_mono: "frames_ok frames own \<Longrightarrow> own \<subseteq> own' \<Longrightarrow> frames_ok frames own'"
  unfolding frames_ok_def by blast

lemma find_update:
  "find_index P xs = Some i \<Longrightarrow> P y \<Longrightarrow> find P (xs[i := y]) = Some y"
  "find_index P xs = Some i \<Longrightarrow> find P xs = Some (xs ! i)"
  "find_index P xs = Some i \<Longrightarrow> \<not> Q (xs ! i) \<Longrightarrow> \<not> Q y \<Longrightarrow> find Q (xs[i := y]) = find Q xs"
  by (induction xs arbitrary: i) (auto split: if_splits nat.splits)

lemma find_index_of_find: "find P xs = Some x \<Longrightarrow> \<exists>i. find_index P xs = Some i \<and> xs ! i = x"
  by (induction xs) (auto split: if_splits)

lemma entry_koid: "vmo_entry_by_koid me k = Some e \<Longrightarrow> ve_koid e = k"
  by (auto simp: vmo_entry_by_koid_def find_Some_iff)

lemma entry_set_frames:
  assumes "vmo_entry_by_koid me k = Some e"
  shows "vmo_entry_by_koid (set_vmo_frames (me\<lparr>me_frames := st\<rparr>) k fs) k' =
    (if k' = k then Some (e\<lparr>ve_frames := fs\<rparr>) else vmo_entry_by_koid me k')"
proof -
  let ?P = "\<lambda>k entry. ve_koid entry = k"
  obtain i where i: "find_index (?P k) (me_vmos me) = Some i" "me_vmos me ! i = e"
    using find_index_of_find [OF assms [unfolded vmo_entry_by_koid_def]] by blast
  have k: "ve_koid e = k" by (rule entry_koid [OF assms])
  show ?thesis
  proof (cases "k' = k")
    case True
    with i k find_update(1) [OF i(1), of "e\<lparr>ve_frames := fs\<rparr>"] show ?thesis
      by (simp add: set_vmo_frames_def vmo_entry_by_koid_def)
  next
    case False
    with i k find_update(3) [OF i(1), of "?P k'" "e\<lparr>ve_frames := fs\<rparr>"] show ?thesis
      by (simp add: set_vmo_frames_def vmo_entry_by_koid_def)
  qed
qed

lemma set_frames_keeps [simp]:
  "me_boot (set_vmo_frames me k fs) = me_boot me" "me_frames (set_vmo_frames me k fs) = me_frames me"
  "me_engine (set_vmo_frames me k fs) = me_engine me"
  by (simp_all add: set_vmo_frames_def split: option.split)

lemma anon_set_frames:
  assumes "vmo_entry_by_koid me k = Some e" and "vmo_backing (ve_vmo e) = Anonymous"
  shows "anon_frames (set_vmo_frames (me\<lparr>me_frames := st\<rparr>) k fs) k' = (if k' = k then fs else anon_frames me k')"
  using assms by (simp add: anon_frames_def entry_set_frames)

text \<open>Bytes of an object are bytes of its pages.\<close>

lemma frame_bytes_same:
  assumes "frames_ok frames own" and "\<And>x. align_down x \<in> page_set frames \<Longrightarrow> mem' x = mem x"
  shows "frame_bytes mem' frames = frame_bytes mem frames"
proof
  fix i
  have "mem' (f + of_nat (i mod 4096)) = mem (f + of_nat (i mod 4096))" if f: "frame_of frames (i div 4096) = Some f" for f
  proof (rule assms(2))
    have "align_down (f + of_nat (i mod 4096)) = f" using page_of_byte [OF frames_okD(2) [OF assms(1) f]] by simp
    then show "align_down (f + of_nat (i mod 4096)) \<in> page_set frames" using f page_set_frame_of by auto
  qed
  then show "frame_bytes mem' frames i = frame_bytes mem frames i" by (simp add: frame_bytes_def split: option.split)
qed

text \<open>New pages for one object, none of them taken from another.\<close>

lemma frames_change:
  assumes inv: "mem_inv boot me own" and e: "vmo_entry_by_koid me k = Some e" "vmo_backing (ve_vmo e) = Anonymous"
    and new: "own \<subseteq> own'" "service_ok boot st' own'" "frames_ok fs own'"
      "page_set fs \<subseteq> page_set (ve_frames e) \<union> (own' - own)"
    and keep: "\<And>x k'. k' \<noteq> k \<Longrightarrow> align_down x \<in> page_set (anon_frames me k') \<Longrightarrow> fs_mem st' x = fs_mem (me_frames me) x"
  defines "me' \<equiv> set_vmo_frames (me\<lparr>me_frames := st'\<rparr>) k fs"
  shows "mem_inv boot me' own'" and "vmo_content me' k = frame_bytes (fs_mem st') fs"
    and "k' \<noteq> k \<Longrightarrow> vmo_content me' k' = vmo_content me k'"
proof -
  note anon = anon_set_frames [OF e, of st' fs, folded me'_def]
  have old: "anon_frames me k = ve_frames e" using e by (simp add: anon_frames_def)
  have apart: "page_set (anon_frames me k') \<inter> page_set fs = {}" if "k' \<noteq> k" for k'
    by (rule fresh_apart [OF _ new(4)])
      (use mem_invD(4) [OF inv that] mem_invD(3) [OF inv, of k'] in \<open>auto simp: old frames_ok_def\<close>)
  have ok: "frames_ok (anon_frames me' k') own'" for k'
    using new(3) frames_ok_mono [OF mem_invD(3) [OF inv] new(1)] by (simp add: anon)
  have "page_set (anon_frames me' k1) \<inter> page_set (anon_frames me' k2) = {}" if "k1 \<noteq> k2" for k1 k2
    using apart [of k1] apart [of k2] mem_invD(4) [OF inv that] that by (auto simp: anon)
  moreover have "me_boot me' = Some boot" "me_frames me' = st'" using mem_invD(1) [OF inv] by (simp_all add: me'_def)
  ultimately show "mem_inv boot me' own'" using ok new(2) by (simp add: mem_inv_def)
  show "vmo_content me' k = frame_bytes (fs_mem st') fs" by (simp add: vmo_content_def anon) (simp add: me'_def)
  show "vmo_content me' k' = vmo_content me k'" if k': "k' \<noteq> k"
    using frame_bytes_same [OF mem_invD(3) [OF inv, of k'] keep [OF k']] k'
    by (simp add: vmo_content_def anon) (simp add: me'_def)
qed

lemma pages_grow_change:
  assumes inv: "mem_inv boot me own" and e: "vmo_entry_by_koid me k = Some e" "vmo_backing (ve_vmo e) = Anonymous"
    and g: "pages_grow boot (me_frames me) (ve_frames e) own st' fs own'"
  defines "me' \<equiv> set_vmo_frames (me\<lparr>me_frames := st'\<rparr>) k fs"
  shows "mem_inv boot me' own'" and "vmo_content me' k = frame_bytes (fs_mem st') fs"
    and "k' \<noteq> k \<Longrightarrow> vmo_content me' k' = vmo_content me k'"
proof -
  note d = pages_growD [OF g]
  have old: "anon_frames me k = ve_frames e" using e by (simp add: anon_frames_def)
  have keep: "fs_mem st' x = fs_mem (me_frames me) x"
    if "k' \<noteq> k" "align_down x \<in> page_set (anon_frames me k')" for x k'
    using that mem_invD(4) [OF inv that(1)] mem_invD(3) [OF inv, of k'] old
    by (intro d(5)) (auto simp: frames_ok_def)
  note c = frames_change [OF inv e d(1-4) keep, folded me'_def]
  show "mem_inv boot me' own'" by (rule c(1))
  show "vmo_content me' k = frame_bytes (fs_mem st') fs" by (rule c(2))
  show "k' \<noteq> k \<Longrightarrow> vmo_content me' k' = vmo_content me k'" by (rule c(3))
qed

section \<open>Reading and writing\<close>

lemma anonymous_allowed:
  assumes "vmo_backing (ve_vmo e) = Anonymous"
  shows "physical_access_allowed ram_ok e off len c" and "physical_vmo_write_allowed read_only (ve_vmo e) off len"
    and "backing_base (vmo_backing (ve_vmo e)) = None"
  using assms by (simp_all add: physical_access_allowed_def vmo_span_allowed_def physical_vmo_write_allowed_def)

lemma bounds_check:
  fixes off len n :: u64
  shows "(checked_add off len = None \<or> n < saturating_add off len) \<longleftrightarrow> \<not> unat off + unat len \<le> unat n"
proof (cases "unat off + unat len < 2 ^ 64")
  case True
  then have "unat (off + len) = unat off + unat len" by (simp add: unat_word_ariths)
  with True show ?thesis by (auto simp: checked_add_def saturating_add_def word_less_nat_alt)
next
  case False
  moreover have "unat n < 2 ^ LENGTH(64)" by (rule unsigned_less)
  ultimately show ?thesis by (simp add: checked_add_def)
qed

lemma vmo_write_array:
  assumes inv: "mem_inv boot me own" and req: "require t h Vmo RIGHT_WRITE = Inr he"
    and e: "vmo_entry_by_koid me (he_koid he) = Some e" "vmo_backing (ve_vmo e) = Anonymous"
    and src: "length src < 2 ^ 64"
    and wr: "dispatch_vmo_write ram_ok read_only room dev_ok me t h off src = (r, me')"
  shows "if unat off + length src \<le> unat (vmo_len (ve_vmo e))
    then \<exists>st' fs own' n. pages_grow boot (me_frames me) (ve_frames e) own st' fs own'
      \<and> me' = set_vmo_frames (me\<lparr>me_frames := st'\<rparr>) (he_koid he) fs \<and> n \<le> length src
      \<and> (r = status_of E_Ok \<and> n = length src \<or> r = status_of E_NoMemory)
      \<and> frame_bytes (fs_mem st') fs = bytes_with (vmo_content me (he_koid he)) (unat off) (take n src)
    else r = status_of E_InvalidArgs \<and> me' = me"
proof -
  let ?k = "he_koid he" and ?ens = "ensure_anonymous_frame room dev_ok boot (ve_vmo e)"
  have len: "unat (of_nat (length src) :: u64) = length src" using src by (simp add: unat_of_nat)
  obtain st fs s where loop: "vmo_write_loop ?ens (ve_frames e) (unat off) src (me_frames me) = (s, fs, st)"
    by (metis prod_cases3)
  have ok: "frames_ok (ve_frames e) own" and content: "vmo_content me ?k = frame_bytes (fs_mem (me_frames me)) (ve_frames e)"
    using mem_invD(3) [OF inv, of ?k] e by (simp_all add: vmo_content_def anon_frames_def)
  have wr': "(r, me') = (if unat off + length src \<le> unat (vmo_len (ve_vmo e))
      then (status_of s, set_vmo_frames (me\<lparr>me_frames := st\<rparr>) ?k fs) else (status_of E_InvalidArgs, me))"
    using wr by (simp add: dispatch_vmo_write_def req e(1) Let_def bounds_check len anonymous_allowed [OF e(2)]
      mem_invD(1) [OF inv] loop split: if_splits)
  from vmo_write_loop_bytes [OF e(2) mem_invD(2) [OF inv] ok loop] obtain own' n where
    "pages_grow boot (me_frames me) (ve_frames e) own st fs own'" "n \<le> length src"
    "s = E_Ok \<and> n = length src \<or> s = E_NoMemory"
    "frame_bytes (fs_mem st) fs = bytes_with (frame_bytes (fs_mem (me_frames me)) (ve_frames e)) (unat off) (take n src)"
    by blast
  with wr' show ?thesis unfolding content
    by (cases "unat off + length src \<le> unat (vmo_len (ve_vmo e))")
      (simp_all only: if_True if_False prod.inject simp_thms, blast)
qed

section \<open>A sample object\<close>

text \<open>An anonymous object of two pages, and a table with a handle to read and write it.\<close>

definition sample_vmo :: vmo_entry where
  "sample_vmo = \<lparr>ve_koid = 5, ve_vmo = \<lparr>vmo_len = 0x2000, vmo_backing = Anonymous\<rparr>, ve_frames = []\<rparr>"

definition sample_objects :: "frame_state \<Rightarrow> mem_engine" where
  "sample_objects st = \<lparr>me_engine = engine_new, me_vmos = [sample_vmo], me_boot = Some sample_boot, me_frames = st\<rparr>"

definition sample_vmo_handle :: handle_entry where
  "sample_vmo_handle = \<lparr>he_handle = 1, he_koid = 5, he_kind = Vmo, he_rights = RIGHT_READ OR RIGHT_WRITE\<rparr>"

definition sample_vmo_table :: handle_table where
  "sample_vmo_table = \<lparr>ht_entries = [\<lparr>oh_entry = sample_vmo_handle, oh_reference = None\<rparr>], ht_next_handle = 2\<rparr>"

lemma sample_vmo_require:
  assumes "rs = RIGHT_READ \<or> rs = RIGHT_WRITE \<or> rs = RIGHT_READ OR RIGHT_WRITE"
  shows "require sample_vmo_table 1 Vmo rs = Inr sample_vmo_handle"
proof -
  have wf: "table_wf sample_vmo_table"
    by (simp add: table_wf_def table_issued_def sample_vmo_table_def sample_vmo_handle_def)
  show ?thesis
    unfolding require_def get_lookup [OF wf] using assms
    by (auto simp: table_lookup_def sample_vmo_table_def sample_vmo_handle_def rights_contains_def mask_contains_def
        right_defs)
qed

lemma sample_vmo_entry:
  "vmo_entry_by_koid (sample_objects st) (he_koid sample_vmo_handle) = Some sample_vmo"
  "vmo_backing (ve_vmo sample_vmo) = Anonymous"
  by (simp_all add: vmo_entry_by_koid_def sample_objects_def sample_vmo_def sample_vmo_handle_def)

lemma sample_objects_inv: "service_ok sample_boot st own \<Longrightarrow> mem_inv sample_boot (sample_objects st) own"
  by (auto simp: mem_inv_def anon_frames_def vmo_entry_by_koid_def sample_objects_def sample_vmo_def frames_ok_def
      page_set_def frame_of_def)

lemma sample_content: "vmo_content (sample_objects st) 5 i = 0"
  by (simp add: vmo_content_def anon_frames_def vmo_entry_by_koid_def sample_objects_def sample_vmo_def frame_bytes_def
      frame_of_def)

abbreviation sample_write :: "mem_engine \<Rightarrow> u64 \<Rightarrow> u8 list \<Rightarrow> kernel_call_result \<times> mem_engine" where
  "sample_write me off src \<equiv>
     dispatch_vmo_write (\<lambda>_ _ _. True) (\<lambda>_ _. False) (\<lambda>_. True) (\<lambda>_ _. True) me sample_vmo_table 1 off src"

lemma sample_write_ok:
  assumes "stocked 1 st"
  shows "\<exists>me'. sample_write (sample_objects st) 0x10 [7, 8] = (status_of E_Ok, me')"
proof -
  obtain f st' where al: "sample_alloc st = (Some f, st')" using sample_alloc_free [of 0 st] assms by auto
  have ens: "ensure_anonymous_frame (\<lambda>_. True) (\<lambda>_ _. True) sample_boot v [] 0 st = (Inr f, [Some f], st')"
    if "vmo_backing v = Anonymous" for v
    using that by (simp add: ensure_anonymous_frame_def ensure_vmo_frame_def alloc_anonymous_frame_def al)
  show ?thesis
    using sample_vmo_require [of RIGHT_WRITE] sample_vmo_entry
    by (simp add: dispatch_vmo_write_def bounds_check anonymous_allowed sample_objects_def)
      (simp add: sample_vmo_def vmo_write_loop.simps ens)
qed

section \<open>Properties\<close>

text \<open>
  C0: \<open>VmoRead\<close> of an anonymous object returns its bytes. With a handle that grants reading, a
  range inside the object gives exactly the bytes of the range, zeros where nothing has been
  written and no page exists yet; any other range, also one whose end leaves 64 bits, is
  \<open>InvalidArgs\<close> and copies nothing.
\<close>

theorem vmo_read_returns_bytes:
  assumes "require t h Vmo RIGHT_READ = Inr he" and "vmo_entry_by_koid me (he_koid he) = Some e"
    and "vmo_backing (ve_vmo e) = Anonymous"
  shows "dispatch_vmo_read ram_ok me t h off len =
    (if unat off + unat len \<le> unat (vmo_len (ve_vmo e))
     then (status_of E_Ok, map (vmo_content me (he_koid he)) [unat off..<unat off + unat len])
     else (status_of E_InvalidArgs, []))"
proof -
  have "vmo_content me (he_koid he) = frame_bytes (fs_mem (me_frames me)) (ve_frames e)"
    using assms by (simp add: vmo_content_def anon_frames_def)
  with assms show ?thesis
    by (simp add: dispatch_vmo_read_def bounds_check anonymous_allowed vmo_read_loop_bytes)
qed

theorem vmo_read_returns_bytes_witness:
  "dispatch_vmo_read (\<lambda>_ _ _. True) (sample_objects sample_frames) sample_vmo_table 1 0x1fff 1 = (status_of E_Ok, [0])
   \<and> dispatch_vmo_read (\<lambda>_ _ _. True) (sample_objects sample_frames) sample_vmo_table 1 0x1fff 2 =
      (status_of E_InvalidArgs, [])"
  using vmo_read_returns_bytes [OF sample_vmo_require sample_vmo_entry] sample_content
  by (simp add: sample_vmo_def sample_vmo_handle_def)

text \<open>
  C0: \<open>VmoWrite\<close> to an anonymous object changes exactly the bytes it is given. In a state where
  every page belongs to one place of one object, a write inside the object stores all bytes and
  returns \<open>Ok\<close>, or stores a prefix of them and returns \<open>NoMemory\<close> when the pages run out; every
  other byte of this object and all bytes of all other anonymous objects stay as they were, and the
  invariant is kept. A range outside the object is \<open>InvalidArgs\<close> and changes nothing.
\<close>

theorem vmo_write_updates_bytes:
  assumes "mem_inv boot me own" and "require t h Vmo RIGHT_WRITE = Inr he"
    and "vmo_entry_by_koid me (he_koid he) = Some e" and "vmo_backing (ve_vmo e) = Anonymous"
    and "length src < 2 ^ 64"
    and "dispatch_vmo_write ram_ok read_only room dev_ok me t h off src = (r, me')"
  shows "if unat off + length src \<le> unat (vmo_len (ve_vmo e))
    then \<exists>own' n. own \<subseteq> own' \<and> mem_inv boot me' own' \<and> n \<le> length src
      \<and> (r = status_of E_Ok \<and> n = length src \<or> r = status_of E_NoMemory)
      \<and> vmo_content me' (he_koid he) = bytes_with (vmo_content me (he_koid he)) (unat off) (take n src)
      \<and> (\<forall>k. k \<noteq> he_koid he \<longrightarrow> vmo_content me' k = vmo_content me k)
    else r = status_of E_InvalidArgs \<and> me' = me"
proof (cases "unat off + length src \<le> unat (vmo_len (ve_vmo e))")
  case True
  with vmo_write_array [OF assms] obtain st' fs own' n where
    g: "pages_grow boot (me_frames me) (ve_frames e) own st' fs own'"
    and me': "me' = set_vmo_frames (me\<lparr>me_frames := st'\<rparr>) (he_koid he) fs"
    and n: "n \<le> length src" "r = status_of E_Ok \<and> n = length src \<or> r = status_of E_NoMemory"
    and b: "frame_bytes (fs_mem st') fs = bytes_with (vmo_content me (he_koid he)) (unat off) (take n src)" by auto
  note c = pages_grow_change [OF assms(1,3,4) g, folded me']
  show ?thesis unfolding if_P [OF True]
    by (intro exI [of _ own'] exI [of _ n] conjI c(1) n pages_growD(1) [OF g]) (auto simp: c(2) b intro: c(3))
next
  case False
  with vmo_write_array [OF assms] show ?thesis by simp
qed

theorem vmo_write_updates_bytes_witness:
  "\<exists>me'. sample_write (sample_objects sample_frames) 0x10 [7, 8] = (status_of E_Ok, me')
     \<and> vmo_content me' 5 0x10 = 7 \<and> vmo_content me' 5 0x11 = 8 \<and> vmo_content me' 5 0x12 = 0"
proof -
  obtain me' where me': "sample_write (sample_objects sample_frames) 0x10 [7, 8] = (status_of E_Ok, me')"
    using sample_write_ok [OF stocked_less [OF sample_stock]] by auto
  from vmo_write_updates_bytes [OF sample_objects_inv [OF sample_service] sample_vmo_require sample_vmo_entry _ me']
  have "vmo_content me' 5 = bytes_with (vmo_content (sample_objects sample_frames) 5) 0x10 [7, 8]"
    by (auto simp: sample_vmo_def sample_vmo_handle_def)
  with me' show ?thesis by (simp add: bytes_with_def sample_content)
qed

end
