(* ===== verification/Spec2Isabelle.thy ===== *)
theory Spec2Isabelle
  imports Process_Grants Sched_Dispatch Mm_Frames Task Authority Ipc_Port Call_Protocol Engine_Notify Engine_Gaps
    Device_Authority Xhci_Ring Sha256 Vmo_Store
begin

text \<open>
  A verification development for Kumo, a capability kernel in Rust with its user-space libraries.

  \<^bold>\<open>The program.\<close> A Kumo process holds a table of handles; a handle names a kernel object
  (channel, port, memory object, interrupt, Resource, timer, process, ...) with a set of
  rights, and is the only way to act on it. Processes exchange messages and handles over
  channels, wait on ports, make synchronous calls on channels and start children with two
  arguments that may be handles. The system-call engine (\<open>kernel/src/syscall.rs\<close>) owns the IPC
  registry, the call records, timers, interrupts and Resources; \<open>kernel/src/usermode.rs\<close> is its
  front end, \<open>kernel/src/object.rs\<close>, \<open>ipc.rs\<close>, \<open>sched.rs\<close>, \<open>task.rs\<close> and \<open>mm/mod.rs\<close> are the parts
  it is built from.

  \<^bold>\<open>Conventions.\<close> Machine integers are words of their width (\<open>u8\<close>, \<open>u32\<close>, \<open>u64\<close>), \<open>usize\<close> counts and
  indices are natural numbers. A fallible function returns \<open>error + value\<close>; a function that
  changes its \<open>self\<close> returns the result with the new state, so the state after an error is
  visible. What the source asks of its environment is an argument: \<open>grow\<close> and \<open>room\<close> are the
  answers of the heap, \<open>fresh\<close> the identity of a new reference count, \<open>held\<close> the set of
  references owned outside the registry, \<open>dev_ok\<close>, \<open>irq_hal\<close>, \<open>blocked\<close> and \<open>read_only\<close> the answers of
  the hardware layer. Loops are recursive functions with a termination proof, except the loop
  of the SHA-256 update, a partial function that is proved to return.

  \<^bold>\<open>Theories.\<close>
  \<^item> \<open>Kumo_Prelude\<close>: words, checked and saturating arithmetic, bit masks, vector operations, the
    binary search of slices.
  \<^item> \<open>Abi_Object\<close>, \<open>Abi_Sys\<close>, \<open>Abi_Call\<close>: the vocabulary of \<open>lib/kumo-abi\<close> (object kinds, rights, signals,
    error numbers, call payloads with their round trip).
  \<^item> \<open>Cap_Spec\<close>, \<open>Handle_Table\<close>: the contract of a capability table (locale \<open>capability_table\<close>) and the
    handle table of \<open>object.rs\<close> that fulfils it. A closed handle stays dead; the binary search is a
    linear scan.
  \<^item> \<open>Process_Grants\<close>: the two \<open>ProcessRun\<close> paths; staging, commit and roll-back of start arguments are
    all-or-nothing, except for aliased arguments, where two theorems show what goes wrong.
  \<^item> \<open>Sched_Spec\<close>, \<open>Sched_Class\<close>, \<open>Sched_Dispatch\<close>: \<open>sched.rs\<close>. The bitmap class refines a FIFO priority
    queue (locales \<open>sched_class\<close>, \<open>fifo_class\<close>), the running thread is the most urgent one at every
    scheduling point, and equals share the processor in turn.
  \<^item> \<open>Mm_Pages\<close>, \<open>Mm_Vmo\<close>, \<open>Mm_Boot_Frames\<close>, \<open>Mm_Frames\<close>: \<open>mm/mod.rs\<close>. The boot allocator enumerates exactly
    the usable frames, and on an ascending memory map no frame ever has two owners.
  \<^item> \<open>Task\<close>: \<open>task.rs\<close>; the free-span search and the writable-range test are exact.
  \<^item> \<open>Ipc_Channel\<close>, \<open>Ipc_Registry\<close>, \<open>Ipc_Transfer\<close>, \<open>Ipc_Close\<close>, \<open>Ipc_Port\<close>: \<open>kumo-ipc\<close> and \<open>ipc.rs\<close>. Channels are
    FIFO in each direction (locale \<open>mailbox\<close>), transfers are atomic and conserve capabilities,
    closing leaves no ownerless endpoint open, ports lose no signal.
  \<^item> \<open>Authority\<close>: all capability operations of all processes as one transition system; a capability
    to an existing object is always an attenuation of one that existed before.
  \<^item> \<open>Engine_State\<close>, \<open>Engine_Calls\<close>, \<open>Call_Protocol\<close>: the engine and its call records; every call is
    completed once, its caller gets the first completion, only the receiver can answer.
  \<^item> \<open>Engine_Dispatch\<close>, \<open>Engine_Watch\<close>, \<open>Engine_Notify\<close>, \<open>Engine_Gaps\<close>: the handle, channel, port and timer
    arms of the dispatcher, signals, watches, timers, interrupts, reclamation and the teardown
    loop. A readable watched endpoint is announced in every reachable state; two runs show
    where a waiter is forgotten.
  \<^item> \<open>Engine_Devices\<close>, \<open>Device_Authority\<close>: Resources and interrupts. Hardware authority stays within the
    boot grants, a line has one owner, deliveries are counted exactly.
  \<^item> \<open>Xhci_Trb\<close>, \<open>Xhci_Ring\<close>: the request blocks and rings of \<open>lib/kumo-xhci\<close>. Constructors are typed, a
    producer ring is a bounded queue read in order by the controller, an event ring is a FIFO.
  \<^item> \<open>Sha256\<close>: \<open>lib/kumo-sha256\<close> equals FIPS 180-4 for every split of the input; the tables of
    constants are an argument of code and standard alike.

  \<^bold>\<open>Not modelled.\<close> The hardware layer and the boot loaders (register accesses and assembly), page-table
  construction and the memory arms of the dispatcher (\<open>VmarMap\<close>, \<open>VmoRead\<close>, ...), the IOMMU and device
  contexts, threads parked in the kernel, and the servers and drivers in user space. Vector
  capacities are not observable and left out. Reference counts are modelled by identity: an
  observer asks whether any owner of its lineage is left.

  \<^bold>\<open>Bounds.\<close> \<open>controller_sees\<close> looks at no more blocks than twice the segment, which covers every block
  and one link per block. The delivery theorem speaks of fewer than \<open>2^32\<close> signals between two
  waits, since \<open>InterruptWait\<close> returns the count in 32 bits.
\<close>

end
